(* ===== verification/QMX_Prelude.thy ===== *)
theory QMX_Prelude
  imports Main "HOL-Library.Word" "HOL-Library.Multiset"
begin

text \<open>
  Shared vocabulary of the development: the byte and error types every component uses, the
  \<^theory_text>\<open>named_theorems\<close> collections that carry the component proofs, and generic facts on lists,
  association lists and options that belong to no single component.

  Go error values are compared by identity (\<open>errors.Is\<close>), never by text, so an error is one of the
  sentinels the sources declare, a corruption report with its offset, or \<open>ErrOther\<close> for an
  \<open>errors.New\<close>/\<open>fmt.Errorf\<close> value with no sentinel behind it.
\<close>

type_synonym byte = "8 word"
type_synonym bytes = "byte list"

datatype goerror =
    ErrEmptyBody
  | ErrQueueDeleted
  | ErrReceiptNotFound
  | ErrQueueExists
  | ErrQueueNotFound
  | ErrExists
  | ErrClosed
  | ErrLogBroken
  | ErrIncompleteLog
  | CorruptError nat
  | ErrCanceled
  | ErrOther string

type_synonym 'a result = "goerror + 'a"

named_theorems wire_simps "layout facts of the on-disk format"
named_theorems disk_simps "effects of the file-system calls"
named_theorems heap_simps "effects of the heap operations"
named_theorems queue_simps "effects of the queue operations"

section \<open>Lists\<close>

definition list_swap :: "'a list \<Rightarrow> nat \<Rightarrow> nat \<Rightarrow> 'a list" where
  "list_swap xs i j = xs[i := xs ! j, j := xs ! i]"

lemma length_list_swap [simp]: "length (list_swap xs i j) = length xs"
  by (simp add: list_swap_def)

lemma list_swap_same [simp]: "list_swap xs i i = xs"
  by (simp add: list_swap_def)

lemma nth_list_swap:
  "i < length xs \<Longrightarrow> j < length xs \<Longrightarrow> k < length xs \<Longrightarrow>
   list_swap xs i j ! k = (if k = j then xs ! i else if k = i then xs ! j else xs ! k)"
  by (simp add: list_swap_def nth_list_update)

lemma mset_list_swap [simp]:
  "i < length xs \<Longrightarrow> j < length xs \<Longrightarrow> mset (list_swap xs i j) = mset xs"
  by (simp add: list_swap_def mset_swap)

lemma set_list_swap [simp]:
  "i < length xs \<Longrightarrow> j < length xs \<Longrightarrow> set (list_swap xs i j) = set xs"
  by (metis mset_list_swap set_mset_mset)

lemma distinct_list_swap [simp]:
  "i < length xs \<Longrightarrow> j < length xs \<Longrightarrow> distinct (list_swap xs i j) = distinct xs"
  by (metis mset_list_swap mset_eq_imp_distinct_iff)

lemma list_swap_swap:
  "i < length xs \<Longrightarrow> j < length xs \<Longrightarrow> list_swap xs i j = list_swap xs j i"
  by (rule nth_equalityI) (auto simp: nth_list_swap)

lemma mset_butlast_last: "xs \<noteq> [] \<Longrightarrow> mset xs = add_mset (last xs) (mset (butlast xs))"
  by (metis append_butlast_last_id mset.simps add.right_neutral union_mset_add_mset_right
      mset_append)

lemma distinct_last_notin_butlast: "distinct xs \<Longrightarrow> xs \<noteq> [] \<Longrightarrow> last xs \<notin> set (butlast xs)"
  by (metis append_butlast_last_id distinct_append disjoint_insert(2) list.set(2))

end
