(* ===== verification/Wire_Bytes.thy ===== *)
theory Wire_Bytes
  imports QMX_Prelude
begin

text \<open>
  The parts of Go's \<open>encoding/binary\<close>, \<open>encoding/hex\<close> and \<open>hash/crc32\<close> that the sources call:
  big-endian 32-bit fields, lower-case hexadecimal, and the table-driven CRC-32C
  (Castagnoli) of \<open>crc32.Update\<close> and \<open>crc32.Checksum\<close>.
\<close>

unbundle bit_operations_syntax

section \<open>Big-endian 32-bit integers\<close>

lemma bit_byte_ge: "8 \<le> n \<Longrightarrow> \<not> bit (b :: byte) n"
  by (rule notI) (drule bit_imp_le_length, simp)

definition PutUint32 :: "32 word \<Rightarrow> bytes" where
  "PutUint32 v = [ucast (drop_bit 24 v), ucast (drop_bit 16 v), ucast (drop_bit 8 v), ucast v]"

fun Uint32 :: "bytes \<Rightarrow> 32 word" where
  "Uint32 (b0 # b1 # b2 # b3 # _) =
     push_bit 24 (ucast b0) OR push_bit 16 (ucast b1) OR push_bit 8 (ucast b2) OR ucast b3"
| "Uint32 _ = 0"

lemma length_PutUint32 [simp, wire_simps]: "length (PutUint32 v) = 4"
  by (simp add: PutUint32_def)

lemma Uint32_PutUint32 [simp]: "Uint32 (PutUint32 v @ bs) = v"
proof -
  have "bit (Uint32 (PutUint32 v @ bs)) n = bit v n" if "n < 32" for n
  proof -
    from that consider "n < 8" | "8 \<le> n" "n < 16" | "16 \<le> n" "n < 24" | "24 \<le> n" by linarith
    then show ?thesis using that by cases (auto simp: PutUint32_def bit_simps)
  qed
  then show ?thesis by (intro bit_word_eqI) simp
qed

lemma Uint32_PutUint32_Nil [simp]: "Uint32 (PutUint32 v) = v"
  using Uint32_PutUint32 [of v "[]"] by simp

lemma PutUint32_Uint32:
  assumes "length bs = 4"
  shows "PutUint32 (Uint32 bs) = bs"
proof -
  from assms obtain b0 b1 b2 b3 where bs: "bs = [b0, b1, b2, b3]"
    by (auto simp: length_Suc_conv eval_nat_numeral)
  show ?thesis unfolding bs PutUint32_def
    by (auto intro!: bit_word_eqI simp: bit_simps bit_byte_ge)
qed

lemma PutUint32_inject [simp]: "PutUint32 v = PutUint32 w \<longleftrightarrow> v = w"
  by (metis Uint32_PutUint32_Nil)

section \<open>Hexadecimal\<close>

definition hextable :: string where
  "hextable = ''0123456789abcdef''"

definition hex_digits :: "byte \<Rightarrow> string" where
  "hex_digits b = [hextable ! unat (drop_bit 4 b), hextable ! unat (b AND 15)]"

definition EncodeToString :: "bytes \<Rightarrow> string" where
  "EncodeToString bs = concat (map hex_digits bs)"

lemma length_hex_digits [simp]: "length (hex_digits b) = 2"
  by (simp add: hex_digits_def)

lemma length_EncodeToString [simp]: "length (EncodeToString bs) = 2 * length bs"
  by (induction bs) (auto simp: EncodeToString_def hex_digits_def)

lemma EncodeToString_Cons: "EncodeToString (b # bs) = hex_digits b @ EncodeToString bs"
  by (simp add: EncodeToString_def)

lemma distinct_hextable: "distinct hextable"
  by (simp add: hextable_def)

lemma high_nibble_bound: "unat (drop_bit 4 (b :: byte)) < length hextable"
proof -
  have "unat (drop_bit 4 b) = unat b div 16"
    by (simp add: unat_drop_bit_eq drop_bit_eq_div unat_div)
  also have "\<dots> < 16"
    using unsigned_less [where 'a = nat and w = b] by auto
  finally show ?thesis by (simp add: hextable_def)
qed

lemma low_nibble_bound: "unat ((b :: byte) AND 15) < length hextable"
proof -
  have "b AND 15 = take_bit 4 b"
    by (simp add: take_bit_eq_mask mask_eq_exp_minus_1)
  then have "unat (b AND 15) = unat b mod 16"
    by (simp add: take_bit_eq_mod unat_mod)
  then show ?thesis by (simp add: hextable_def)
qed

lemma hex_digits_inject: "hex_digits b = hex_digits c \<Longrightarrow> b = c"
proof -
  assume eq: "hex_digits b = hex_digits c"
  then have hi: "unat (drop_bit 4 b) = unat (drop_bit 4 c)"
    and lo: "unat (b AND 15) = unat (c AND 15)"
    using nth_eq_iff_index_eq [OF distinct_hextable] high_nibble_bound low_nibble_bound
    by (auto simp: hex_digits_def)
  from hi have "drop_bit 4 b = drop_bit 4 c" by (simp add: word_unat_eq_iff)
  moreover from lo have "b AND 15 = c AND 15" by (simp add: word_unat_eq_iff)
  moreover have "x = push_bit 4 (drop_bit 4 x) OR (x AND 15)" for x :: byte
  proof -
    have "x = push_bit 4 (drop_bit 4 x) OR (x AND mask 4)"
      by (rule bit_word_eqI) (auto simp: bit_simps)
    moreover have "(15 :: byte) = mask 4" by (simp add: mask_eq_exp_minus_1)
    ultimately show ?thesis by simp
  qed
  ultimately show "b = c" by metis
qed

lemma EncodeToString_inject:
  "EncodeToString bs = EncodeToString cs \<longleftrightarrow> bs = cs"
proof
  assume eq: "EncodeToString bs = EncodeToString cs"
  then have "length bs = length cs"
    by (metis length_EncodeToString mult_left_cancel zero_neq_numeral)
  then show "bs = cs" using eq
    by (induction bs cs rule: list_induct2)
      (auto simp: EncodeToString_Cons append_eq_append_conv length_hex_digits
        dest: hex_digits_inject)
qed simp

section \<open>CRC-32C\<close>

text \<open>
  \<open>crc32.MakeTable(crc32.Castagnoli)\<close> and the byte-at-a-time update: the register is
  complemented on entry and exit, and each byte indexes the 256-entry table. \<open>crc_shift\<close> is one
  step of the reflected shift register the table is generated from.
\<close>

definition Castagnoli :: "32 word" where
  "Castagnoli = 0x82f63b78"

definition crc_shift :: "32 word \<Rightarrow> 32 word" where
  "crc_shift c = (if bit c 0 then drop_bit 1 c XOR Castagnoli else drop_bit 1 c)"

definition crcTable :: "byte \<Rightarrow> 32 word" where
  "crcTable i = (crc_shift ^^ 8) (ucast i)"

definition crc_byte :: "32 word \<Rightarrow> byte \<Rightarrow> 32 word" where
  "crc_byte c v = crcTable (ucast c XOR v) XOR drop_bit 8 c"

definition crc32_Update :: "32 word \<Rightarrow> bytes \<Rightarrow> 32 word" where
  "crc32_Update crc p = NOT (foldl crc_byte (NOT crc) p)"

definition crc32_Checksum :: "bytes \<Rightarrow> 32 word" where
  "crc32_Checksum p = crc32_Update 0 p"

lemma crc32_Update_append [simp]:
  "crc32_Update (crc32_Update crc p) q = crc32_Update crc (p @ q)"
  by (simp add: crc32_Update_def)

lemma word_xor_left_cancel: "a XOR b = a XOR c \<longleftrightarrow> b = c" for a :: "'a::len word"
  by (metis xor.assoc xor.left_neutral xor_self_eq)

text \<open>The shift register is linear and loses no information.\<close>

lemma bit_Castagnoli_31 [simp]: "bit Castagnoli 31"
  by (simp add: Castagnoli_def)

lemma crc_shift_xor: "crc_shift (a XOR b) = crc_shift a XOR crc_shift b"
  by (rule bit_word_eqI) (auto simp: crc_shift_def bit_simps)

lemma crc_shifts_xor: "(crc_shift ^^ n) (a XOR b) = (crc_shift ^^ n) a XOR (crc_shift ^^ n) b"
  by (induction n) (simp_all add: crc_shift_xor)

definition crc_unshift :: "32 word \<Rightarrow> 32 word" where
  "crc_unshift d = (if bit d 31 then push_bit 1 (d XOR Castagnoli) OR 1 else push_bit 1 d)"

lemma crc_unshift_shift: "crc_unshift (crc_shift c) = c"
proof (rule bit_word_eqI)
  define push1 :: "32 word \<Rightarrow> 32 word" where "push1 = push_bit 1"
  have bit_push1: "bit (push1 x) k \<longleftrightarrow> 1 \<le> k \<and> k < 32 \<and> bit x (k - 1)" for x k
    unfolding push1_def by (simp only: bit_push_bit_iff) (auto dest: bit_imp_le_length)
  fix n assume "n < LENGTH(32)"
  moreover have "\<not> bit c 32" by (rule notI) (drule bit_imp_le_length, simp)
  ultimately show "bit (crc_unshift (crc_shift c)) n = bit c n"
    unfolding crc_unshift_def push1_def [symmetric]
    by (cases n) (auto simp: crc_shift_def bit_simps bit_push1)
qed

lemma crc_shift_inject: "crc_shift a = crc_shift b \<Longrightarrow> a = b"
  by (metis crc_unshift_shift)

lemma crc_shifts_inject: "(crc_shift ^^ n) a = (crc_shift ^^ n) b \<Longrightarrow> a = b"
  by (induction n) (auto dest: crc_shift_inject)

lemma crc_shifts_low_zero:
  "n \<le> 32 \<Longrightarrow> (\<forall>i<n. \<not> bit c i) \<Longrightarrow> (crc_shift ^^ n) c = drop_bit n c"
proof (induction n)
  case (Suc n)
  then have "(crc_shift ^^ n) c = drop_bit n c" by simp
  moreover have "\<not> bit (drop_bit n c) 0" using Suc.prems by (simp add: bit_simps)
  ultimately show ?case by (simp add: crc_shift_def [of "drop_bit n c"])
qed simp

text \<open>
  The table-driven step equals eight shifts of the register with the byte mixed into its low
  end, which is the textbook bit-at-a-time algorithm.
\<close>

lemma crc_byte_bitwise: "crc_byte c v = (crc_shift ^^ 8) (c XOR ucast v)"
proof -
  define h where "h = push_bit 8 (drop_bit 8 c)"
  have split: "c XOR ucast v = ucast (ucast c XOR v) XOR h"
    by (rule bit_word_eqI) (auto simp: h_def bit_simps bit_byte_ge)
  have "(crc_shift ^^ 8) h = drop_bit 8 h"
    by (rule crc_shifts_low_zero) (auto simp: h_def bit_simps)
  also have "drop_bit 8 h = drop_bit 8 c"
    by (rule bit_word_eqI) (auto simp: h_def bit_simps dest: bit_imp_le_length)
  finally show ?thesis
    by (simp only: split crc_shifts_xor) (simp add: crc_byte_def crcTable_def)
qed

lemma crc_byte_inject_state: "crc_byte c v = crc_byte d v \<Longrightarrow> c = d"
  unfolding crc_byte_bitwise
  by (drule crc_shifts_inject) (simp add: xor.commute [of _ "ucast v"] word_xor_left_cancel)

lemma crc_byte_inject_byte: "crc_byte c v = crc_byte c w \<Longrightarrow> v = w"
proof -
  assume "crc_byte c v = crc_byte c w"
  then have "c XOR ucast v = c XOR ucast w"
    unfolding crc_byte_bitwise by (rule crc_shifts_inject)
  then have eq: "(ucast v :: 32 word) = ucast w" by (simp add: word_xor_left_cancel)
  have "bit v n = bit w n" if "n < 8" for n
    using arg_cong [OF eq, of "\<lambda>x. bit x n"] that by (simp add: bit_simps)
  then show "v = w" by (intro bit_word_eqI) simp
qed

lemma foldl_crc_inject_state:
  "foldl crc_byte c p = foldl crc_byte d p \<Longrightarrow> c = d"
  by (induction p arbitrary: c d) (auto dest: crc_byte_inject_state)

lemma crc32_Checksum_single_byte:
  assumes "crc32_Checksum (p @ v # q) = crc32_Checksum (p @ w # q)"
  shows "v = w"
proof -
  from assms have "foldl crc_byte (crc_byte (foldl crc_byte (NOT 0) p) v) q
      = foldl crc_byte (crc_byte (foldl crc_byte (NOT 0) p) w) q"
    by (simp add: crc32_Checksum_def crc32_Update_def)
  then show ?thesis by (blast dest: foldl_crc_inject_state crc_byte_inject_byte)
qed

end
