(* ===== verification/Message.thy ===== *)
theory Message
  imports Wire_Bytes
begin

text \<open>
  \<open>internal/queue/message.go\<close>: orderings, message states, the message and delivery structs, and the
  identifiers minted from \<open>crypto/rand\<close>.

  A \<open>time.Time\<close> is an integer number of nanoseconds since the Unix epoch, a \<open>time.Duration\<close> an
  integer number of nanoseconds. Randomness is an argument: \<open>Some b\<close> are the bytes
  \<open>rand.Read\<close> delivered, \<open>None\<close> is its error.
\<close>

unbundle bit_operations_syntax

type_synonym Time = int
type_synonym Duration = int

text \<open>A \<open>json.RawMessage\<close>: JSON text, one \<^typ>\<open>char\<close> per byte.\<close>

type_synonym RawMessage = string

text \<open>The zero \<open>time.Time{}\<close>: January 1 of the year 1, UTC.\<close>

definition zero_time :: Time where
  "zero_time = - 62135596800000000000"

definition toMillis :: "Time \<Rightarrow> int" where
  "toMillis t = t div 1000000"

definition fromMillis :: "int \<Rightarrow> Time" where
  "fromMillis ms = ms * 1000000"

datatype Ordering = FIFO | LIFO

fun ordering_string :: "Ordering \<Rightarrow> string" where
  "ordering_string FIFO = ''fifo''"
| "ordering_string LIFO = ''lifo''"

definition ParseOrdering :: "string \<Rightarrow> Ordering result" where
  "ParseOrdering s =
     (if s = ordering_string FIFO then Inr FIFO
      else if s = ordering_string LIFO then Inr LIFO
      else Inl (ErrOther ''ordering''))"

text \<open>\<open>StateNone\<close> is the zero value a freshly allocated message carries.\<close>

datatype State = StateNone | StateReady | StateDelayed | StateInFlight

fun State_String :: "State \<Rightarrow> string" where
  "State_String StateReady = ''ready''"
| "State_String StateDelayed = ''delayed''"
| "State_String StateInFlight = ''in_flight''"
| "State_String StateNone = ''unknown''"

record Message =
  ID :: string
  Seq :: "64 word"
  Priority :: int
  Body :: RawMessage
  CreatedAt :: Time
  AvailableAt :: Time
  MState :: State
  ReceiveCount :: int
  Receipt :: string
  Deadline :: Time
  m_index :: int

record Delivery =
  d_ID :: string
  d_Seq :: "64 word"
  d_Priority :: int
  d_Body :: RawMessage
  d_CreatedAt :: Time
  d_AvailableAt :: Time
  d_ReceiveCount :: int
  d_Receipt :: string
  d_Deadline :: Time

definition delivery :: "Message \<Rightarrow> Delivery" where
  "delivery m = \<lparr>d_ID = ID m, d_Seq = Seq m, d_Priority = Priority m, d_Body = Body m,
     d_CreatedAt = CreatedAt m, d_AvailableAt = AvailableAt m,
     d_ReceiveCount = ReceiveCount m, d_Receipt = Receipt m, d_Deadline = Deadline m\<rparr>"

definition newID :: "bytes option \<Rightarrow> string result" where
  "newID rnd = (case rnd of None \<Rightarrow> Inl (ErrOther ''generate message id'')
   | Some b0 \<Rightarrow>
      (let b1 = b0[6 := (b0 ! 6 AND 0x0f) OR 0x40];
           b = b1[8 := (b1 ! 8 AND 0x3f) OR 0x80]
       in Inr (EncodeToString (take 4 b) @ ''-'' @ EncodeToString (take 2 (drop 4 b)) @ ''-''
             @ EncodeToString (take 2 (drop 6 b)) @ ''-'' @ EncodeToString (take 2 (drop 8 b))
             @ ''-'' @ EncodeToString (take 6 (drop 10 b)))))"

definition newReceipt :: "bytes option \<Rightarrow> string result" where
  "newReceipt rnd = (case rnd of None \<Rightarrow> Inl (ErrOther ''generate receipt'')
   | Some b \<Rightarrow> Inr (EncodeToString b))"

section \<open>Facts\<close>

lemma ParseOrdering_string [simp]: "ParseOrdering (ordering_string o') = Inr o'"
  by (cases o') (simp_all add: ParseOrdering_def)

lemma ParseOrdering_eq_Inr: "ParseOrdering s = Inr o' \<longleftrightarrow> s = ordering_string o'"
  by (cases o') (auto simp: ParseOrdering_def split: if_splits)

lemma toMillis_fromMillis [simp]: "toMillis (fromMillis ms) = ms"
  by (simp add: toMillis_def fromMillis_def)

lemma fromMillis_toMillis_bounds:
  "fromMillis (toMillis t) \<le> t" "t < fromMillis (toMillis t) + 1000000"
  by (simp_all add: toMillis_def fromMillis_def mult_div_mod_eq [symmetric])

lemma newReceipt_inject:
  "newReceipt (Some b) = Inr r \<Longrightarrow> newReceipt (Some c) = Inr r \<Longrightarrow> b = c"
  by (auto simp: newReceipt_def EncodeToString_inject)

lemma newReceipt_not_empty: "newReceipt rnd = Inr r \<Longrightarrow> length (the rnd) = 16 \<Longrightarrow> r \<noteq> ''''"
  by (cases rnd) (auto simp: newReceipt_def dest: arg_cong [where f = length])

lemma length_newID: "newID (Some b) = Inr i \<Longrightarrow> length b = 16 \<Longrightarrow> length i = 36"
  by (auto simp: newID_def Let_def)

end
