(* ===== verification/Msg_Heap.thy ===== *)
theory Msg_Heap
  imports Message
begin

text \<open>
  \<open>internal/queue/ready_heap.go\<close>, \<open>delayed_heap.go\<close> and \<open>expiry_heap.go\<close>, with the algorithms of
  Go's \<open>container/heap\<close> they are driven by.

  Messages are shared: the same \<open>*Message\<close> sits in a heap and in the in-flight map, and the heap
  writes its position back into the message. A heap therefore holds addresses, and the messages
  live in a store that every operation threads through. An operation that would index out of
  range, which is a panic in Go, returns \<open>None\<close>.

  The locale \<open>comparator\<close> is the contract \<open>container/heap\<close> places on \<open>Less\<close> (a strict weak order
  that does not read the position field); the correctness of push, pop and remove is proved once
  in it and interpreted for the three heaps of a queue.
\<close>

type_synonym addr = nat
type_synonym store = "addr \<Rightarrow> Message"

record msgHeap =
  items :: "addr list"
  less :: "Message \<Rightarrow> Message \<Rightarrow> bool"

type_synonym heap_state = "msgHeap \<times> store"

section \<open>heap.Interface\<close>

definition heap_Len :: "msgHeap \<Rightarrow> nat" where
  "heap_Len h = length (items h)"

definition heap_Less :: "nat \<Rightarrow> nat \<Rightarrow> heap_state \<Rightarrow> bool" where
  "heap_Less i j hs =
     less (fst hs) (snd hs (items (fst hs) ! i)) (snd hs (items (fst hs) ! j))"

definition set_index :: "addr \<Rightarrow> int \<Rightarrow> store \<Rightarrow> store" where
  "set_index a k st = st(a := (st a)\<lparr>m_index := k\<rparr>)"

definition heap_Swap :: "nat \<Rightarrow> nat \<Rightarrow> heap_state \<Rightarrow> heap_state" where
  "heap_Swap i j hs =
     (let xs = list_swap (items (fst hs)) i j
      in ((fst hs)\<lparr>items := xs\<rparr>,
          set_index (xs ! j) (int j) (set_index (xs ! i) (int i) (snd hs))))"

definition iface_Push :: "addr \<Rightarrow> heap_state \<Rightarrow> heap_state" where
  "iface_Push a hs =
     ((fst hs)\<lparr>items := items (fst hs) @ [a]\<rparr>,
      set_index a (int (length (items (fst hs)))) (snd hs))"

definition iface_Pop :: "heap_state \<Rightarrow> (addr \<times> heap_state) option" where
  "iface_Pop hs =
     (if items (fst hs) = [] then None
      else let a = last (items (fst hs))
           in Some (a, (fst hs)\<lparr>items := butlast (items (fst hs))\<rparr>, set_index a (- 1) (snd hs)))"

definition peek :: "msgHeap \<Rightarrow> addr option" where
  "peek h = (if heap_Len h = 0 then None else Some (items h ! 0))"

section \<open>container/heap\<close>

function heap_up :: "nat \<Rightarrow> heap_state \<Rightarrow> heap_state" where
  "heap_up j hs =
     (let i = (j - 1) div 2
      in if i = j \<or> \<not> heap_Less j i hs then hs
         else heap_up i (heap_Swap i j hs))"
  by pat_completeness auto
termination
  by (relation "measure fst") auto

function heap_down :: "nat \<Rightarrow> nat \<Rightarrow> heap_state \<Rightarrow> nat \<times> heap_state" where
  "heap_down i n hs =
     (let j1 = 2 * i + 1
      in if j1 \<ge> n then (i, hs)
         else let j = (if j1 + 1 < n \<and> heap_Less (j1 + 1) j1 hs then j1 + 1 else j1)
              in if \<not> heap_Less j i hs then (i, hs)
                 else heap_down j n (heap_Swap i j hs))"
  by pat_completeness auto
termination
  by (relation "measure (\<lambda>(i, n, _). n - i)") (auto split: if_splits)

declare heap_up.simps [simp del] heap_down.simps [simp del]

definition heap_Push :: "addr \<Rightarrow> heap_state \<Rightarrow> heap_state" where
  "heap_Push a hs = heap_up (heap_Len (fst hs)) (iface_Push a hs)"

definition heap_Pop :: "heap_state \<Rightarrow> (addr \<times> heap_state) option" where
  "heap_Pop hs =
     (if heap_Len (fst hs) = 0 then None
      else let n = heap_Len (fst hs) - 1
           in iface_Pop (snd (heap_down 0 n (heap_Swap 0 n hs))))"

definition heap_Remove :: "int \<Rightarrow> heap_state \<Rightarrow> (addr \<times> heap_state) option" where
  "heap_Remove k hs =
     (if k < 0 \<or> int (heap_Len (fst hs)) \<le> k then None
      else let n = heap_Len (fst hs) - 1; i = nat k
           in if n \<noteq> i
              then (case heap_down i n (heap_Swap i n hs) of
                      (i', hs') \<Rightarrow> iface_Pop (if i < i' then hs' else heap_up i hs'))
              else iface_Pop hs)"

section \<open>The three heaps of a queue\<close>

definition newReadyHeap :: "Ordering \<Rightarrow> msgHeap" where
  "newReadyHeap odr = \<lparr>items = [], less = (\<lambda>a b.
     if Priority a \<noteq> Priority b then Priority a > Priority b
     else if odr = FIFO then Seq a < Seq b
     else Seq a > Seq b)\<rparr>"

definition newDelayedHeap :: msgHeap where
  "newDelayedHeap = \<lparr>items = [], less = (\<lambda>a b. AvailableAt a < AvailableAt b)\<rparr>"

definition newExpiryHeap :: msgHeap where
  "newExpiryHeap = \<lparr>items = [], less = (\<lambda>a b. Deadline a < Deadline b)\<rparr>"

section \<open>Reference algorithms on plain lists\<close>

text \<open>
  The sift steps without the position bookkeeping, over an arbitrary element order. The heap
  property is proved for these, and the operations above are shown to compute them.
\<close>

definition parent :: "nat \<Rightarrow> nat" where
  "parent k = (k - 1) div 2"

function sift_up :: "('a \<Rightarrow> 'a \<Rightarrow> bool) \<Rightarrow> nat \<Rightarrow> 'a list \<Rightarrow> 'a list" where
  "sift_up lt j xs =
     (let i = parent j
      in if i = j \<or> \<not> lt (xs ! j) (xs ! i) then xs else sift_up lt i (list_swap xs i j))"
  by pat_completeness auto
termination
  by (relation "measure (\<lambda>(_, j, _). j)") (auto simp: parent_def)

definition min_child :: "('a \<Rightarrow> 'a \<Rightarrow> bool) \<Rightarrow> nat \<Rightarrow> nat \<Rightarrow> 'a list \<Rightarrow> nat" where
  "min_child lt i n xs =
     (if 2 * i + 2 < n \<and> lt (xs ! (2 * i + 2)) (xs ! (2 * i + 1)) then 2 * i + 2 else 2 * i + 1)"

function sift_down :: "('a \<Rightarrow> 'a \<Rightarrow> bool) \<Rightarrow> nat \<Rightarrow> nat \<Rightarrow> 'a list \<Rightarrow> nat \<times> 'a list" where
  "sift_down lt i n xs =
     (if 2 * i + 1 \<ge> n \<or> \<not> lt (xs ! min_child lt i n xs) (xs ! i) then (i, xs)
      else sift_down lt (min_child lt i n xs) n (list_swap xs i (min_child lt i n xs)))"
  by pat_completeness auto
termination
  by (relation "measure (\<lambda>(_, i, n, _). n - i)") (auto simp: min_child_def)

declare sift_up.simps [simp del] sift_down.simps [simp del]

text \<open>The heap property of the first \<open>n\<close> elements, and its two repair forms: everywhere but at
  \<open>j\<close> against its parent, and everywhere but around \<open>i\<close>.\<close>

definition node_ok :: "('a \<Rightarrow> 'a \<Rightarrow> bool) \<Rightarrow> 'a list \<Rightarrow> nat \<Rightarrow> bool" where
  "node_ok lt xs k \<longleftrightarrow> k = 0 \<or> \<not> lt (xs ! k) (xs ! parent k)"

definition heap_upto :: "('a \<Rightarrow> 'a \<Rightarrow> bool) \<Rightarrow> 'a list \<Rightarrow> nat \<Rightarrow> bool" where
  "heap_upto lt xs n \<longleftrightarrow> (\<forall>k<n. node_ok lt xs k)"

definition skip_ok :: "('a \<Rightarrow> 'a \<Rightarrow> bool) \<Rightarrow> 'a list \<Rightarrow> nat \<Rightarrow> nat \<Rightarrow> bool" where
  "skip_ok lt xs i n \<longleftrightarrow>
     (0 < i \<longrightarrow> (\<forall>c<n. 0 < c \<and> parent c = i \<longrightarrow> \<not> lt (xs ! c) (xs ! parent i)))"

definition up_ok :: "('a \<Rightarrow> 'a \<Rightarrow> bool) \<Rightarrow> 'a list \<Rightarrow> nat \<Rightarrow> nat \<Rightarrow> bool" where
  "up_ok lt xs j n \<longleftrightarrow> (\<forall>k<n. k \<noteq> j \<longrightarrow> node_ok lt xs k) \<and> skip_ok lt xs j n"

definition down_ok :: "('a \<Rightarrow> 'a \<Rightarrow> bool) \<Rightarrow> 'a list \<Rightarrow> nat \<Rightarrow> nat \<Rightarrow> bool" where
  "down_ok lt xs i n \<longleftrightarrow>
     (\<forall>k<n. k \<noteq> i \<and> parent k \<noteq> i \<longrightarrow> node_ok lt xs k) \<and> skip_ok lt xs i n"

definition indexed :: "addr list \<Rightarrow> store \<Rightarrow> bool" where
  "indexed xs st \<longleftrightarrow> (\<forall>i<length xs. m_index (st (xs ! i)) = int i)"

definition same_msg :: "Message \<Rightarrow> Message \<Rightarrow> bool" where
  "same_msg m m' \<longleftrightarrow> m\<lparr>m_index := 0\<rparr> = m'\<lparr>m_index := 0\<rparr>"

text \<open>A store change that only moves positions, and only of the addresses in \<open>A\<close>.\<close>

definition moves :: "addr set \<Rightarrow> store \<Rightarrow> store \<Rightarrow> bool" where
  "moves A st st' \<longleftrightarrow> (\<forall>a. same_msg (st a) (st' a)) \<and> (\<forall>a. a \<notin> A \<longrightarrow> st' a = st a)"

definition heap_lt :: "msgHeap \<Rightarrow> store \<Rightarrow> addr \<Rightarrow> addr \<Rightarrow> bool" where
  "heap_lt h st a b \<longleftrightarrow> less h (st a) (st b)"

definition heap_ok :: "msgHeap \<Rightarrow> store \<Rightarrow> bool" where
  "heap_ok h st \<longleftrightarrow> distinct (items h) \<and> indexed (items h) st
     \<and> heap_upto (heap_lt h st) (items h) (length (items h))"


section \<open>The heap property\<close>

lemma parent_less [simp]: "0 < k \<Longrightarrow> parent k < k"
  by (auto simp: parent_def)

lemma parent_le [simp]: "k < n \<Longrightarrow> parent k < n"
  by (auto simp: parent_def)

lemma parent_0 [simp]: "parent 0 = 0"
  by (simp add: parent_def)

lemma parent_eq_self [simp]: "parent k = k \<longleftrightarrow> k = 0"
  by (auto simp: parent_def)

lemma parent_children [simp]: "parent (2 * i + 1) = i" "parent (2 * i + 2) = i"
  "parent (Suc (2 * i)) = i" "parent (Suc (Suc (2 * i))) = i"
  by (auto simp: parent_def)

lemma parent_eqD: "parent k = i \<Longrightarrow> 0 < k \<Longrightarrow> k = 2 * i + 1 \<or> k = 2 * i + 2"
  by (auto simp: parent_def)

lemma sift_down_fst_ge: "i \<le> fst (sift_down lt i n xs)"
proof (induction lt i n xs rule: sift_down.induct)
  case (1 lt i n xs)
  have "i < min_child lt i n xs" by (simp add: min_child_def)
  then show ?case using 1 by (subst sift_down.simps) (auto simp: not_le)
qed

lemma sift_down_unmoved:
  assumes "fst (sift_down lt i n xs) = i"
  shows "snd (sift_down lt i n xs) = xs \<and> (n \<le> 2 * i + 1 \<or> \<not> lt (xs ! min_child lt i n xs) (xs ! i))"
proof (rule ccontr)
  assume a: "\<not> ?thesis"
  have "i < min_child lt i n xs" by (simp add: min_child_def)
  with a have "i < fst (sift_down lt i n xs)"
    using sift_down_fst_ge [of "min_child lt i n xs" lt n "list_swap xs i (min_child lt i n xs)"]
    by (subst sift_down.simps) (auto simp: sift_down.simps [of lt i n xs] split: if_splits)
  with assms show False by simp
qed

locale weak_order =
  fixes lt :: "'a \<Rightarrow> 'a \<Rightarrow> bool"
  assumes asym: "lt a b \<Longrightarrow> \<not> lt b a"
    and neg_trans: "\<not> lt a b \<Longrightarrow> \<not> lt b c \<Longrightarrow> \<not> lt a c"
begin

lemma irrefl [simp]: "\<not> lt a a"
  using asym by blast

lemma heap_root_min: "heap_upto lt xs n \<Longrightarrow> k < n \<Longrightarrow> \<not> lt (xs ! k) (xs ! 0)"
proof (induction k rule: less_induct)
  case (less k)
  show ?case
  proof (cases "k = 0")
    case True
    then show ?thesis using asym by blast
  next
    case False
    then have "\<not> lt (xs ! parent k) (xs ! 0)" using less by simp
    moreover have "\<not> lt (xs ! k) (xs ! parent k)"
      using less.prems False by (auto simp: heap_upto_def node_ok_def)
    ultimately show ?thesis by (metis neg_trans)
  qed
qed

lemma up_ok_swap:
  assumes ok: "up_ok lt xs j n" and j: "j < n" "n \<le> length xs" "0 < j"
    and i: "i = parent j" and lt: "lt (xs ! j) (xs ! i)"
  shows "up_ok lt (list_swap xs i j) i n"
proof -
  have ij: "i < j" using j i by simp
  have nth: "list_swap xs i j ! k = (if k = j then xs ! i else if k = i then xs ! j else xs ! k)"
    if "k < n" for k using that ij j by (simp add: nth_list_swap)
  have node: "0 < k \<Longrightarrow> k < n \<Longrightarrow> k \<noteq> j \<Longrightarrow> \<not> lt (xs ! k) (xs ! parent k)" for k
    using ok by (auto simp: up_ok_def node_ok_def)
  have skip: "c < n \<Longrightarrow> 0 < c \<Longrightarrow> parent c = j \<Longrightarrow> \<not> lt (xs ! c) (xs ! i)" for c
    using ok j by (auto simp: up_ok_def skip_ok_def i)
  have less: "\<not> lt (xs ! i) (xs ! j)" using asym lt by auto
  have "node_ok lt (list_swap xs i j) k" if k: "k < n" "k \<noteq> i" for k
  proof (cases "k = 0")
    case False
    have "\<not> lt (xs ! k) (xs ! i) \<Longrightarrow> \<not> lt (xs ! k) (xs ! j)" by (rule neg_trans [OF _ less])
    then show ?thesis
      using False k ij less skip [of k] node [of k] by (auto simp: node_ok_def nth i [symmetric])
  qed (simp add: node_ok_def)
  moreover have "\<not> lt (list_swap xs i j ! c) (list_swap xs i j ! parent i)"
    if c: "0 < i" "c < n" "0 < c" "parent c = i" for c
  proof -
    have pi: "\<not> lt (xs ! i) (xs ! parent i)" using node [of i] c ij j by simp
    have "c \<noteq> j \<Longrightarrow> \<not> lt (xs ! c) (xs ! parent i)"
      using neg_trans [OF _ pi] node [of c] c by simp
    moreover have "parent i \<noteq> j" "c \<noteq> i"
      using c ij parent_less [of i] parent_less [of c] by linarith+
    ultimately show ?thesis using c ij j pi by (simp add: nth)
  qed
  ultimately show ?thesis by (simp add: up_ok_def skip_ok_def)
qed

lemma sift_up_heap: "up_ok lt xs j n \<Longrightarrow> j < n \<Longrightarrow> n \<le> length xs \<Longrightarrow> heap_upto lt (sift_up lt j xs) n"
proof (induction j arbitrary: xs rule: less_induct)
  case (less j)
  show ?case
  proof (cases "j = 0 \<or> \<not> lt (xs ! j) (xs ! parent j)")
    case True
    then have "node_ok lt xs j" by (auto simp: node_ok_def)
    then have "heap_upto lt xs n" using less.prems by (auto simp: heap_upto_def up_ok_def)
    moreover have "sift_up lt j xs = xs" using True by (subst sift_up.simps) auto
    ultimately show ?thesis by simp
  next
    case False
    then have "up_ok lt (list_swap xs (parent j) j) (parent j) n"
      using less.prems by (intro up_ok_swap) auto
    then have "heap_upto lt (sift_up lt (parent j) (list_swap xs (parent j) j)) n"
      using less.prems False by (intro less.IH) auto
    then show ?thesis using False by (subst sift_up.simps) (simp add: Let_def)
  qed
qed

lemma min_child_le:
  assumes "2 * i + 1 < n" "0 < k" "k < n" "parent k = i"
  shows "\<not> lt (xs ! k) (xs ! min_child lt i n xs)"
  using parent_eqD [of k i] assms by (auto simp: min_child_def dest: asym)

lemma down_ok_swap:
  assumes ok: "down_ok lt xs i n" and n: "n \<le> length xs" "2 * i + 1 < n"
    and j: "j = min_child lt i n xs" and lt: "lt (xs ! j) (xs ! i)"
  shows "down_ok lt (list_swap xs i j) j n" "node_ok lt (list_swap xs i j) j"
proof -
  have ij: "i < j" "j < n" "parent j = i" using n j by (auto simp: min_child_def)
  have nth: "list_swap xs i j ! k = (if k = j then xs ! i else if k = i then xs ! j else xs ! k)"
    if "k < n" for k using that ij n by (simp add: nth_list_swap)
  have node: "0 < k \<Longrightarrow> k < n \<Longrightarrow> k \<noteq> i \<Longrightarrow> parent k \<noteq> i \<Longrightarrow> \<not> lt (xs ! k) (xs ! parent k)" for k
    using ok by (auto simp: down_ok_def node_ok_def)
  have skip: "0 < i \<Longrightarrow> \<not> lt (xs ! j) (xs ! parent i)"
    using ok ij by (auto simp: down_ok_def skip_ok_def)
  have sib: "0 < k \<Longrightarrow> k < n \<Longrightarrow> parent k = i \<Longrightarrow> \<not> lt (xs ! k) (xs ! j)" for k
    using min_child_le [of i n k xs] n by (simp add: j)
  have "node_ok lt (list_swap xs i j) k" if k: "k < n" "k \<noteq> j" "parent k \<noteq> j" for k
  proof (cases "k = 0")
    case False
    then show ?thesis using k ij node [of k] sib [of k] skip parent_less [of k] by (auto simp: node_ok_def nth)
  qed (simp add: node_ok_def)
  moreover have "\<not> lt (list_swap xs i j ! c) (list_swap xs i j ! parent j)"
    if c: "c < n" "0 < c" "parent c = j" for c
    using c ij node [of c] parent_less [of c] by (auto simp: nth)
  ultimately show "down_ok lt (list_swap xs i j) j n" by (simp add: down_ok_def skip_ok_def)
  show "node_ok lt (list_swap xs i j) j" using asym [OF lt] ij by (simp add: node_ok_def nth)
qed

lemma sift_down_stop:
  assumes "n \<le> 2 * i + 1 \<or> \<not> lt (xs ! min_child lt i n xs) (xs ! i)" "0 < k" "k < n" "parent k = i"
  shows "\<not> lt (xs ! k) (xs ! i)"
proof -
  have "2 * i + 1 < n" using assms parent_eqD [of k i] by auto
  then show ?thesis using assms min_child_le [of i n k xs] neg_trans by (meson not_le)
qed

lemma sift_down_heap:
  "down_ok lt xs i n \<Longrightarrow> node_ok lt xs i \<Longrightarrow> n \<le> length xs \<Longrightarrow> heap_upto lt (snd (sift_down lt i n xs)) n"
proof (induction "n - i" arbitrary: xs i rule: less_induct)
  case less
  show ?case
  proof (cases "n \<le> 2 * i + 1 \<or> \<not> lt (xs ! min_child lt i n xs) (xs ! i)")
    case True
    have "node_ok lt xs k" if "k < n" for k
      using that less.prems sift_down_stop [OF True, of k]
      by (cases "k = i"; cases "k = 0"; cases "parent k = i") (auto simp: down_ok_def node_ok_def)
    then show ?thesis using True by (subst sift_down.simps) (auto simp: heap_upto_def)
  next
    case False
    let ?j = "min_child lt i n xs"
    have "i < ?j" "?j < n" using False by (auto simp: min_child_def)
    then have "heap_upto lt (snd (sift_down lt ?j n (list_swap xs i ?j))) n"
      using False less.prems down_ok_swap [OF less.prems(1,3)] by (intro less.hyps) auto
    then show ?thesis using False by (subst sift_down.simps) simp
  qed
qed

lemma sift_down_moved:
  assumes "down_ok lt xs i n" "n \<le> length xs" "i < fst (sift_down lt i n xs)"
  shows "heap_upto lt (snd (sift_down lt i n xs)) n"
proof -
  let ?j = "min_child lt i n xs"
  have go: "\<not> (n \<le> 2 * i + 1 \<or> \<not> lt (xs ! ?j) (xs ! i))"
    using assms(3) by (subst (asm) sift_down.simps) (auto split: if_splits)
  then have "heap_upto lt (snd (sift_down lt ?j n (list_swap xs i ?j))) n"
    using assms down_ok_swap [OF assms(1,2)] by (intro sift_down_heap) auto
  then show ?thesis using go by (subst sift_down.simps) simp
qed

lemma sift_remove_heap:
  assumes "down_ok lt xs i n" "n \<le> length xs" "i < n" "sift_down lt i n xs = (k, ys)"
  shows "heap_upto lt (if i < k then ys else sift_up lt i ys) n"
proof (cases "i < k")
  case True
  then show ?thesis using sift_down_moved [of xs i n] assms by simp
next
  case False
  then have "k = i" using sift_down_fst_ge [of i lt n xs] assms by simp
  then have un: "ys = xs" "n \<le> 2 * i + 1 \<or> \<not> lt (xs ! min_child lt i n xs) (xs ! i)"
    using sift_down_unmoved [of lt i n xs] assms by auto
  have "up_ok lt xs i n"
    unfolding up_ok_def using assms(1) sift_down_stop [OF un(2)]
    by (auto simp: down_ok_def node_ok_def)
  then show ?thesis using sift_up_heap assms un False by simp
qed

end

lemma length_sift_up [simp]: "length (sift_up lt j xs) = length xs"
proof (induction lt j xs rule: sift_up.induct)
  case (1 lt j xs)
  then show ?case by (subst sift_up.simps) (auto simp: Let_def)
qed

lemma mset_sift_up: "j < length xs \<Longrightarrow> mset (sift_up lt j xs) = mset xs"
proof (induction lt j xs rule: sift_up.induct)
  case (1 lt j xs)
  then show ?case by (subst sift_up.simps) (auto simp: Let_def)
qed

lemma min_child_less: "2 * i + 1 < n \<Longrightarrow> min_child lt i n xs < n"
  by (auto simp: min_child_def)

lemma length_sift_down [simp]: "length (snd (sift_down lt i n xs)) = length xs"
proof (induction lt i n xs rule: sift_down.induct)
  case (1 lt i n xs)
  then show ?case by (subst sift_down.simps) auto
qed

lemma mset_sift_down: "n \<le> length xs \<Longrightarrow> mset (snd (sift_down lt i n xs)) = mset xs"
proof (induction lt i n xs rule: sift_down.induct)
  case (1 lt i n xs)
  have "2 * i + 1 < n \<Longrightarrow> min_child lt i n xs < length xs"
    using 1 min_child_less [of i n lt xs] by simp
  with 1 show ?case by (subst sift_down.simps) auto
qed

lemma nth_sift_down: "n \<le> length xs \<Longrightarrow> n \<le> k \<Longrightarrow> snd (sift_down lt i n xs) ! k = xs ! k"
proof (induction lt i n xs rule: sift_down.induct)
  case (1 lt i n xs)
  have "2 * i + 1 < n \<Longrightarrow> min_child lt i n xs < n"
    using min_child_less [of i n lt xs] by simp
  with 1 show ?case
    by (subst sift_down.simps) (auto simp: list_swap_def)
qed

section \<open>Positions in the store\<close>

lemma same_msg_refl [simp]: "same_msg m m"
  by (simp add: same_msg_def)

lemma same_msg_trans: "same_msg a b \<Longrightarrow> same_msg b c \<Longrightarrow> same_msg a c"
  by (simp add: same_msg_def)

lemma same_msg_index [simp]: "same_msg m (m\<lparr>m_index := k\<rparr>)"
  by (simp add: same_msg_def)

lemma moves_refl [simp]: "moves A st st"
  by (simp add: moves_def)

lemma moves_trans: "moves A st st' \<Longrightarrow> moves B st' st'' \<Longrightarrow> moves (A \<union> B) st st''"
  by (auto simp: moves_def intro: same_msg_trans)

lemma moves_trans_same: "moves A st st' \<Longrightarrow> moves A st' st'' \<Longrightarrow> moves A st st''"
  using moves_trans [of A st st' A st''] by simp

lemma moves_mono: "moves A st st' \<Longrightarrow> A \<subseteq> B \<Longrightarrow> moves B st st'"
  by (auto simp: moves_def)

lemma moves_set_index: "a \<in> A \<Longrightarrow> moves A st (set_index a k st)"
  by (auto simp: moves_def set_index_def)

lemma heap_up_step:
  "heap_up j hs = (if j = 0 \<or> \<not> heap_Less j (parent j) hs then hs
     else heap_up (parent j) (heap_Swap (parent j) j hs))"
  by (subst heap_up.simps) (simp add: Let_def parent_def [symmetric] del: One_nat_def)

lemma heap_Swap_effect:
  assumes "i < length (items h)" "j < length (items h)" "distinct (items h)" "indexed (items h) st"
  shows "\<exists>st'. heap_Swap i j (h, st) = (h\<lparr>items := list_swap (items h) i j\<rparr>, st')
    \<and> moves (set (items h)) st st' \<and> indexed (list_swap (items h) i j) st'"
proof -
  let ?xs = "list_swap (items h) i j"
  let ?st = "set_index (?xs ! j) (int j) (set_index (?xs ! i) (int i) st)"
  have in_set: "?xs ! i \<in> set (items h)" "?xs ! j \<in> set (items h)"
    using assms set_list_swap nth_mem length_list_swap by metis+
  have dist: "distinct ?xs" using assms by simp
  have "indexed ?xs ?st"
    unfolding indexed_def
  proof (intro allI impI)
    fix k assume k: "k < length ?xs"
    then have "k = j \<or> k = i \<or> (?xs ! k \<noteq> ?xs ! i \<and> ?xs ! k \<noteq> ?xs ! j \<and> ?xs ! k = items h ! k)"
      using assms dist by (auto simp: nth_eq_iff_index_eq nth_list_swap)
    then show "m_index (?st (?xs ! k)) = int k"
      using assms k dist by (auto simp: set_index_def indexed_def nth_eq_iff_index_eq)
  qed
  moreover have "moves (set (items h)) st ?st"
    using in_set by (blast intro: moves_set_index moves_trans_same)
  ultimately show ?thesis by (intro exI [of _ ?st]) (simp add: heap_Swap_def Let_def)
qed

text \<open>What \<open>container/heap\<close> requires of a comparator.\<close>

locale comparator =
  fixes lt :: "Message \<Rightarrow> Message \<Rightarrow> bool"
  assumes lt_asym: "lt a b \<Longrightarrow> \<not> lt b a"
    and lt_neg_trans: "\<not> lt a b \<Longrightarrow> \<not> lt b c \<Longrightarrow> \<not> lt a c"
    and lt_index: "lt (a\<lparr>m_index := k\<rparr>) b = lt a b" "lt a (b\<lparr>m_index := k\<rparr>) = lt a b"

sublocale comparator \<subseteq> on_store: weak_order "\<lambda>a b. lt (st a) (st b)" for st
  using lt_asym lt_neg_trans by unfold_locales blast+

context comparator begin

lemma lt_same: "same_msg a a' \<Longrightarrow> same_msg b b' \<Longrightarrow> lt a b = lt a' b'"
  unfolding same_msg_def by (metis lt_index)

lemma heap_lt_moves: "less h = lt \<Longrightarrow> moves A st st' \<Longrightarrow> heap_lt h st' = heap_lt h st"
  by (simp add: heap_lt_def fun_eq_iff moves_def) (metis lt_same)

lemma heap_lt_eq: "less h = lt \<Longrightarrow> heap_lt h st = (\<lambda>a b. lt (st a) (st b))"
  by (simp add: heap_lt_def fun_eq_iff)

lemma heap_up_effect:
  assumes "less h = lt" "distinct (items h)" "indexed (items h) st" "j < length (items h)"
  shows "\<exists>st'. heap_up j (h, st) = (h\<lparr>items := sift_up (heap_lt h st) j (items h)\<rparr>, st')
    \<and> moves (set (items h)) st st' \<and> indexed (sift_up (heap_lt h st) j (items h)) st'"
  using assms
proof (induction j arbitrary: h st rule: less_induct)
  case (less j)
  show ?case
  proof (cases "j = 0 \<or> \<not> heap_lt h st (items h ! j) (items h ! parent j)")
    case True
    then have "heap_up j (h, st) = (h, st)" "sift_up (heap_lt h st) j (items h) = items h"
      by (auto simp: heap_up_step [of j] sift_up.simps [of _ j] heap_Less_def heap_lt_def Let_def)
    then show ?thesis using less.prems by (auto intro!: exI [of _ st])
  next
    case False
    let ?i = "parent j" and ?h = "h\<lparr>items := list_swap (items h) (parent j) j\<rparr>"
    obtain st1 where st1: "heap_Swap ?i j (h, st) = (?h, st1)" "moves (set (items h)) st st1"
      "indexed (items ?h) st1"
      using heap_Swap_effect [of ?i h j st] less.prems by (auto simp: parent_le)
    have lt1: "heap_lt ?h st1 = heap_lt h st"
      using heap_lt_moves [OF less.prems(1) st1(2)] by (simp add: heap_lt_def fun_eq_iff)
    have "parent j < j" using False by simp
    then obtain st2 where st2: "heap_up ?i (?h, st1) = (?h\<lparr>items := sift_up (heap_lt h st) ?i (items ?h)\<rparr>, st2)"
      "moves (set (items ?h)) st1 st2" "indexed (sift_up (heap_lt h st) ?i (items ?h)) st2"
      using less.IH [of ?i ?h st1] st1 lt1 less.prems by auto
    moreover have "heap_up j (h, st) = heap_up ?i (?h, st1)"
      using False st1 by (simp add: heap_up_step [of j] heap_Less_def heap_lt_def)
    moreover have "sift_up (heap_lt h st) j (items h) = sift_up (heap_lt h st) ?i (items ?h)"
      using False by (simp add: sift_up.simps [of _ j] Let_def)
    moreover have "set (items ?h) = set (items h)" using less.prems by (simp add: parent_le)
    ultimately show ?thesis using moves_trans_same [OF st1(2)] by auto
  qed
qed

lemma heap_down_effect:
  assumes "less h = lt" "distinct (items h)" "indexed (items h) st" "n \<le> length (items h)"
  shows "\<exists>st'. heap_down i n (h, st) =
      (fst (sift_down (heap_lt h st) i n (items h)), h\<lparr>items := snd (sift_down (heap_lt h st) i n (items h))\<rparr>, st')
    \<and> moves (set (items h)) st st' \<and> indexed (snd (sift_down (heap_lt h st) i n (items h))) st'"
  using assms
proof (induction "n - i" arbitrary: i h st rule: less_induct)
  case less
  let ?j = "min_child (heap_lt h st) i n (items h)"
  have j: "?j = (if 2 * i + 1 + 1 < n \<and> heap_Less (2 * i + 1 + 1) (2 * i + 1) (h, st) then 2 * i + 1 + 1 else 2 * i + 1)"
    by (simp add: min_child_def heap_Less_def heap_lt_def)
  show ?case
  proof (cases "n \<le> 2 * i + 1 \<or> \<not> heap_lt h st (items h ! ?j) (items h ! i)")
    case True
    then have "heap_down i n (h, st) = (i, h, st)" "sift_down (heap_lt h st) i n (items h) = (i, items h)"
      unfolding heap_down.simps [of i] sift_down.simps [of _ i] Let_def j [symmetric]
      by (auto simp: heap_Less_def heap_lt_def)
    then show ?thesis using less.prems by (auto intro!: exI [of _ st])
  next
    case False
    let ?h = "h\<lparr>items := list_swap (items h) i ?j\<rparr>"
    have ij: "i < ?j" "?j < n" using False by (auto simp: min_child_def)
    obtain st1 where st1: "heap_Swap i ?j (h, st) = (?h, st1)" "moves (set (items h)) st st1"
      "indexed (items ?h) st1"
      using heap_Swap_effect [of i h ?j st] less.prems ij by auto
    have lt1: "heap_lt ?h st1 = heap_lt h st"
      using heap_lt_moves [OF less.prems(1) st1(2)] by (simp add: heap_lt_def fun_eq_iff)
    obtain st2 where st2: "heap_down ?j n (?h, st1) = (fst (sift_down (heap_lt h st) ?j n (items ?h)),
        ?h\<lparr>items := snd (sift_down (heap_lt h st) ?j n (items ?h))\<rparr>, st2)"
      "moves (set (items ?h)) st1 st2" "indexed (snd (sift_down (heap_lt h st) ?j n (items ?h))) st2"
      using less.hyps [of ?j ?h st1] st1 lt1 less.prems diff_less_mono2 [OF ij(1)] ij by auto
    moreover have "heap_down i n (h, st) = heap_down ?j n (?h, st1)"
      unfolding heap_down.simps [of i] Let_def j [symmetric]
      using False st1 by (auto simp: heap_Less_def heap_lt_def)
    moreover have "sift_down (heap_lt h st) i n (items h) = sift_down (heap_lt h st) ?j n (items ?h)"
      using False by (simp add: sift_down.simps [of _ i])
    moreover have "set (items ?h) = set (items h)" using less.prems ij by simp
    ultimately show ?thesis using moves_trans_same [OF st1(2)] by auto
  qed
qed

end

lemma iface_Pop_effect:
  assumes "items h \<noteq> []"
  shows "iface_Pop (h, st) = Some (last (items h), h\<lparr>items := butlast (items h)\<rparr>, set_index (last (items h)) (- 1) st)"
  using assms by (simp add: iface_Pop_def Let_def)

lemma sift_up_tail: "j < k \<Longrightarrow> k < length xs \<Longrightarrow> sift_up lt j xs ! k = xs ! k"
proof (induction lt j xs rule: sift_up.induct)
  case (1 lt j xs)
  have "parent j < k" using "1.prems" by simp
  with 1 show ?case by (subst sift_up.simps) (auto simp: Let_def list_swap_def)
qed

lemma indexed_butlast:
  "indexed xs st \<Longrightarrow> distinct xs \<Longrightarrow> xs \<noteq> [] \<Longrightarrow> indexed (butlast xs) (set_index (last xs) k st)"
  by (auto simp: indexed_def set_index_def nth_butlast last_conv_nth nth_eq_iff_index_eq)

lemma heap_upto_butlast:
  "xs \<noteq> [] \<Longrightarrow> heap_upto lt xs (length xs - 1) \<Longrightarrow> heap_upto lt (butlast xs) (length xs - 1)"
  by (auto simp: heap_upto_def node_ok_def nth_butlast)

context weak_order begin

text \<open>Overwriting node \<open>i\<close> of a heap with its last element leaves damage around \<open>i\<close> only.\<close>

lemma down_ok_swap_last:
  assumes "heap_upto lt xs (length xs)" "i < length xs"
  shows "down_ok lt (list_swap xs i (length xs - 1)) i (length xs - 1)"
proof -
  define n where "n = length xs - 1"
  have n: "n < length xs" "i \<le> n" using assms by (auto simp: n_def)
  have nth: "list_swap xs i n ! k = (if k = i then xs ! n else xs ! k)" if "k < n" for k
    using that assms n by (simp add: nth_list_swap)
  have node: "\<not> lt (xs ! k) (xs ! parent k)" if "0 < k" "k < length xs" for k
    using assms that by (auto simp: heap_upto_def node_ok_def)
  have "node_ok lt (list_swap xs i n) k" if "k < n" "k \<noteq> i" "parent k \<noteq> i" for k
    using that node [of k] n by (auto simp: node_ok_def nth)
  moreover have "\<not> lt (list_swap xs i n ! c) (list_swap xs i n ! parent i)"
    if c: "0 < i" "c < n" "0 < c" "parent c = i" for c
  proof -
    have "i < c" "parent i < i" using c parent_less [of c] parent_less [of i] by auto
    moreover have "\<not> lt (xs ! c) (xs ! parent i)"
      using neg_trans node [of c] node [of i] c \<open>i < c\<close> n by simp
    ultimately show ?thesis using c by (simp add: nth)
  qed
  ultimately show ?thesis by (simp add: down_ok_def skip_ok_def n_def)
qed

end

context comparator begin

lemma heap_Push_effect:
  assumes "less h = lt" "heap_ok h st" "a \<notin> set (items h)"
  shows "\<exists>h' st'. heap_Push a (h, st) = (h', st') \<and> heap_ok h' st' \<and> less h' = lt
    \<and> mset (items h') = add_mset a (mset (items h)) \<and> moves (insert a (set (items h))) st st'"
proof -
  let ?h = "h\<lparr>items := items h @ [a]\<rparr>" and ?n = "length (items h)"
  let ?st = "set_index a (int ?n) st"
  have mv: "moves {a} st ?st" by (simp add: moves_set_index)
  have ltst: "heap_lt ?h ?st = heap_lt h st"
    using heap_lt_moves [OF assms(1) mv] by (simp add: heap_lt_def fun_eq_iff)
  have idx: "indexed (items ?h) ?st"
    using assms by (auto simp: indexed_def set_index_def heap_ok_def nth_append less_Suc_eq in_set_conv_nth)
  have "up_ok (heap_lt h st) (items ?h) ?n (length (items ?h))"
    unfolding up_ok_def skip_ok_def
  proof (intro conjI allI impI)
    fix k assume "k < length (items ?h)" "k \<noteq> ?n"
    then have k: "k < ?n" by simp
    then show "node_ok (heap_lt h st) (items ?h) k"
      using assms(2) by (auto simp: heap_ok_def heap_upto_def node_ok_def nth_append)
  next
    fix c assume "c < length (items ?h)" "0 < c \<and> parent c = ?n"
    then have False using parent_less [of c] by (simp del: parent_less)
    then show "\<not> heap_lt h st (items ?h ! c) (items ?h ! parent ?n)" ..
  qed
  then have heap: "heap_upto (heap_lt h st) (sift_up (heap_lt h st) ?n (items ?h)) (length (items ?h))"
    using on_store.sift_up_heap [of st] assms(1) by (simp add: heap_lt_eq)
  obtain st' where st': "heap_up ?n (?h, ?st) = (?h\<lparr>items := sift_up (heap_lt h st) ?n (items ?h)\<rparr>, st')"
    "moves (set (items ?h)) ?st st'" "indexed (sift_up (heap_lt h st) ?n (items ?h)) st'"
    using heap_up_effect [of ?h ?st ?n] assms idx ltst by (auto simp: heap_ok_def)
  let ?h' = "?h\<lparr>items := sift_up (heap_lt h st) ?n (items ?h)\<rparr>"
  have ms: "mset (items ?h') = add_mset a (mset (items h))" by (simp add: mset_sift_up)
  moreover have mv': "moves (insert a (set (items h))) st st'"
    using moves_trans [OF mv st'(2)] by simp
  moreover have "distinct (items ?h')"
    using ms assms by (simp add: heap_ok_def flip: mset_eq_imp_distinct_iff [of "a # items h"])
  moreover have "heap_lt ?h' st' = heap_lt h st"
    using heap_lt_moves [OF assms(1) mv'] by (simp add: heap_lt_def fun_eq_iff)
  ultimately have "heap_ok ?h' st'" using heap st' by (simp add: heap_ok_def)
  moreover have "heap_Push a (h, st) = (?h', st')"
    using st' by (simp add: heap_Push_def iface_Push_def heap_Len_def)
  ultimately show ?thesis using ms mv' assms by auto
qed

text \<open>The common tail of pop and remove: the victim has been moved to the end of the array.\<close>

lemma heap_drop_last:
  assumes "less h = lt" "distinct (items h)" "indexed (items h) st" "items h \<noteq> []"
    and "heap_upto (heap_lt h st) (items h) (length (items h) - 1)"
  shows "\<exists>h' st'. iface_Pop (h, st) = Some (last (items h), h', st') \<and> heap_ok h' st' \<and> less h' = lt
    \<and> mset (items h) = add_mset (last (items h)) (mset (items h')) \<and> moves (set (items h)) st st'
    \<and> m_index (st' (last (items h))) = - 1"
proof -
  let ?h = "h\<lparr>items := butlast (items h)\<rparr>" and ?st = "set_index (last (items h)) (- 1) st"
  have mv: "moves (set (items h)) st ?st" using assms by (simp add: moves_set_index)
  have "heap_lt ?h ?st = heap_lt h st"
    using heap_lt_moves [OF assms(1) mv] by (simp add: heap_lt_def fun_eq_iff)
  then have "heap_ok ?h ?st"
    using assms indexed_butlast heap_upto_butlast by (auto simp: heap_ok_def distinct_butlast)
  then show ?thesis
    using mv assms mset_butlast_last [OF assms(4)]
    by (intro exI [of _ ?h] exI [of _ ?st]) (simp add: iface_Pop_effect set_index_def)
qed

lemma heap_Pop_effect:
  assumes "less h = lt" "heap_ok h st" "items h \<noteq> []"
  shows "\<exists>h' st'. heap_Pop (h, st) = Some (items h ! 0, h', st') \<and> heap_ok h' st' \<and> less h' = lt
    \<and> mset (items h) = add_mset (items h ! 0) (mset (items h')) \<and> moves (set (items h)) st st'
    \<and> m_index (st' (items h ! 0)) = - 1"
proof -
  let ?n = "length (items h) - 1"
  let ?xs = "list_swap (items h) 0 ?n"
  let ?h = "h\<lparr>items := ?xs\<rparr>" and ?lt = "heap_lt h st"
  have n: "?n < length (items h)" "0 < length (items h)" using assms by auto
  obtain st1 where st1: "heap_Swap 0 ?n (h, st) = (?h, st1)" "moves (set (items h)) st st1"
    "indexed ?xs st1"
    using heap_Swap_effect [of 0 h ?n st] assms n by (auto simp: heap_ok_def)
  have lt1: "heap_lt ?h st1 = ?lt"
    using heap_lt_moves [OF assms(1) st1(2)] by (simp add: heap_lt_def fun_eq_iff)
  obtain k ys where sd: "sift_down ?lt 0 ?n ?xs = (k, ys)" by (cases "sift_down ?lt 0 ?n ?xs")
  have ys: "mset ys = mset (items h)" "ys ! ?n = items h ! 0"
    using mset_sift_down [of ?n ?xs ?lt 0] nth_sift_down [of ?n ?xs ?n ?lt 0] n sd
    by (auto simp: nth_list_swap)
  have len: "length ys = length (items h)" "set ys = set (items h)"
    using mset_eq_length [OF ys(1)] mset_eq_setD [OF ys(1)] by auto
  let ?h2 = "?h\<lparr>items := ys\<rparr>"
  obtain st2 where st2: "heap_down 0 ?n (?h, st1) = (k, ?h2, st2)"
    "moves (set ?xs) st1 st2" "indexed ys st2"
    using heap_down_effect [of ?h st1 ?n 0] assms st1 lt1 n sd by (auto simp: heap_ok_def)
  have mv: "moves (set (items h)) st st2"
    using moves_trans_same [OF st1(2)] st2(2) n by simp
  have "down_ok ?lt ?xs 0 ?n"
    using on_store.down_ok_swap_last [of st "items h" 0] assms n by (simp add: heap_ok_def heap_lt_eq)
  then have "heap_upto ?lt ys ?n"
    using on_store.sift_down_heap [of st ?xs 0 ?n] assms(1) sd by (simp add: heap_lt_eq node_ok_def)
  moreover have "heap_lt ?h2 st2 = ?lt"
    using heap_lt_moves [OF assms(1) mv] by (simp add: heap_lt_def fun_eq_iff)
  moreover have "ys \<noteq> []" using len assms(3) by auto
  moreover from this have "last ys = items h ! 0" using ys len by (simp add: last_conv_nth)
  moreover have "distinct ys" using ys(1) assms(2) by (metis heap_ok_def mset_eq_imp_distinct_iff)
  ultimately show ?thesis
    using heap_drop_last [of ?h2 st2] assms st1 st2 n ys len moves_trans_same [OF mv]
    by (auto simp: heap_Pop_def heap_Len_def Let_def)
qed

lemma heap_Pop_min:
  assumes "less h = lt" "heap_ok h st" "a \<in> set (items h)"
  shows "\<not> lt (st a) (st (items h ! 0))"
  using assms on_store.heap_root_min [of st "items h" "length (items h)"]
  by (auto simp: heap_ok_def heap_lt_eq in_set_conv_nth)

lemma heap_Remove_effect:
  assumes "less h = lt" "heap_ok h st" "i < length (items h)"
  shows "\<exists>h' st'. heap_Remove (int i) (h, st) = Some (items h ! i, h', st') \<and> heap_ok h' st'
    \<and> less h' = lt \<and> mset (items h) = add_mset (items h ! i) (mset (items h'))
    \<and> moves (set (items h)) st st' \<and> m_index (st' (items h ! i)) = - 1"
proof (cases "length (items h) - 1 = i")
  case True
  have ne: "items h \<noteq> []" using assms(3) by auto
  have "heap_upto (heap_lt h st) (items h) (length (items h) - 1)"
    using assms by (auto simp: heap_ok_def heap_upto_def)
  then show ?thesis
    using heap_drop_last [of h st] assms True ne
    by (auto simp: heap_Remove_def heap_Len_def heap_ok_def last_conv_nth Let_def)
next
  case False
  let ?n = "length (items h) - 1"
  let ?xs = "list_swap (items h) i ?n"
  let ?h = "h\<lparr>items := ?xs\<rparr>" and ?lt = "heap_lt h st"
  have n: "?n < length (items h)" "i < ?n" using assms False by auto
  obtain st1 where st1: "heap_Swap i ?n (h, st) = (?h, st1)" "moves (set (items h)) st st1"
    "indexed ?xs st1"
    using heap_Swap_effect [of i h ?n st] assms n by (auto simp: heap_ok_def)
  have lt1: "heap_lt ?h st1 = ?lt"
    using heap_lt_moves [OF assms(1) st1(2)] by (simp add: heap_lt_def fun_eq_iff)
  obtain k ys where sd: "sift_down ?lt i ?n ?xs = (k, ys)" by (cases "sift_down ?lt i ?n ?xs")
  have ys: "mset ys = mset (items h)" "ys ! ?n = items h ! i"
    using mset_sift_down [of ?n ?xs ?lt i] nth_sift_down [of ?n ?xs ?n ?lt i] n sd
    by (auto simp: nth_list_swap)
  have len: "length ys = length (items h)" by (rule mset_eq_length [OF ys(1)])
  have dys: "distinct ys" using ys(1) assms(2) by (metis heap_ok_def mset_eq_imp_distinct_iff)
  let ?h2 = "?h\<lparr>items := ys\<rparr>"
  obtain st2 where st2: "heap_down i ?n (?h, st1) = (k, ?h2, st2)"
    "moves (set ?xs) st1 st2" "indexed ys st2"
    using heap_down_effect [of ?h st1 ?n i] assms st1 lt1 n sd by (auto simp: heap_ok_def)
  have mv2: "moves (set (items h)) st st2"
    using moves_trans_same [OF st1(2)] st2(2) n by simp
  have lt2: "heap_lt ?h2 st2 = ?lt"
    using heap_lt_moves [OF assms(1) mv2] by (simp add: heap_lt_def fun_eq_iff)
  define zs where "zs = (if i < k then ys else sift_up ?lt i ys)"
  have zs: "mset zs = mset (items h)" using ys len n by (simp add: mset_sift_up zs_def)
  have lenz: "length zs = length (items h)" "set zs = set (items h)" "zs \<noteq> []"
    using mset_eq_length [OF zs] mset_eq_setD [OF zs] n by auto
  obtain st3 where st3: "(if i < k then (?h2, st2) else heap_up i (?h2, st2)) = (?h\<lparr>items := zs\<rparr>, st3)"
    "moves (set ys) st2 st3" "indexed zs st3"
    using heap_up_effect [of ?h2 st2 i] assms dys st2(3) lt2 ys len n by (cases "i < k") (auto simp: zs_def)
  have mv3: "moves (set (items h)) st st3"
    using moves_trans_same [OF mv2] st3(2) mset_eq_setD [OF ys(1)] by simp
  have lt3: "heap_lt (?h\<lparr>items := zs\<rparr>) st3 = ?lt"
    using heap_lt_moves [OF assms(1) mv3] by (simp add: heap_lt_def fun_eq_iff)
  have "down_ok ?lt ?xs i ?n"
    using on_store.down_ok_swap_last [of st "items h" i] assms by (simp add: heap_ok_def heap_lt_eq)
  then have "heap_upto ?lt zs ?n"
    using on_store.sift_remove_heap [of st ?xs i ?n k ys] assms(1) sd n
    by (simp add: heap_lt_eq zs_def split: if_splits)
  moreover have "last zs = items h ! i"
    using sift_up_tail [of i ?n ys ?lt] ys len n lenz by (auto simp: last_conv_nth zs_def)
  moreover have "distinct zs" using zs assms(2) by (metis heap_ok_def mset_eq_imp_distinct_iff)
  ultimately show ?thesis
    using heap_drop_last [of "?h\<lparr>items := zs\<rparr>" st3] assms st1 st2 st3 n zs lenz lt3
      moves_trans_same [OF mv3]
    by (auto simp: heap_Remove_def heap_Len_def Let_def)
qed

end

section \<open>The comparators of the three heaps\<close>

interpretation ready: comparator "less (newReadyHeap odr)" for odr
  by unfold_locales (auto simp: newReadyHeap_def split: if_splits)

interpretation delayed: comparator "less newDelayedHeap"
  by unfold_locales (auto simp: newDelayedHeap_def)

interpretation expiry: comparator "less newExpiryHeap"
  by unfold_locales (auto simp: newExpiryHeap_def)

lemma heap_ok_new [simp]:
  "heap_ok (newReadyHeap odr) st" "heap_ok newDelayedHeap st" "heap_ok newExpiryHeap st"
  by (simp_all add: heap_ok_def indexed_def heap_upto_def newReadyHeap_def newDelayedHeap_def
      newExpiryHeap_def)

lemma heap_ok_cong: "(\<And>a. a \<in> set (items h) \<Longrightarrow> st' a = st a) \<Longrightarrow> heap_ok h st' = heap_ok h st"
  by (simp add: heap_ok_def indexed_def heap_upto_def node_ok_def heap_lt_def cong: conj_cong)

end
