(* ===== verification/Disk.thy ===== *)
theory Disk
  imports QMX_Prelude "HOL-Library.List_Lexorder" "HOL-Library.Char_ord"
begin

text \<open>
  The file-system calls of Go's \<open>os\<close> package that \<open>internal/storage\<close> makes, on one data directory.

  A directory entry names an inode, and an open file handle is an inode number, so a handle keeps
  referring to its file after the name has been renamed over. Every file has its current content
  and the content the last \<open>fsync\<close> made durable; the directory likewise. Which calls fail is the
  environment's choice: \<open>faults\<close> is the list of outcomes of the calls to come (an exhausted list
  means success), and \<open>Fail k\<close> makes a write stop after \<open>k\<close> bytes.
\<close>

datatype fault = Ok | Fail nat

datatype dirent = DFile nat | DDir

record disk =
  dents :: "(string \<times> dirent) list"
  synced_dents :: "(string \<times> dirent) list"
  content :: "nat \<Rightarrow> bytes"
  synced :: "nat \<Rightarrow> bytes"
  next_ino :: nat
  faults :: "fault list"

definition io_error :: goerror where
  "io_error = ErrOther ''input/output error''"

definition os_ErrExist :: goerror where
  "os_ErrExist = ErrOther ''file already exists''"

definition os_ErrNotExist :: goerror where
  "os_ErrNotExist = ErrOther ''file does not exist''"

text \<open>The outcome of the next call: \<open>None\<close> is success.\<close>

definition next_fault :: "disk \<Rightarrow> nat option \<times> disk" where
  "next_fault d = (case faults d of
      [] \<Rightarrow> (None, d)
    | f # fs \<Rightarrow> (case f of Ok \<Rightarrow> None | Fail k \<Rightarrow> Some k, d\<lparr>faults := fs\<rparr>))"

definition set_dent :: "string \<Rightarrow> dirent \<Rightarrow> (string \<times> dirent) list \<Rightarrow> (string \<times> dirent) list" where
  "set_dent n e ds = (n, e) # filter (\<lambda>x. fst x \<noteq> n) ds"

definition del_dent :: "string \<Rightarrow> (string \<times> dirent) list \<Rightarrow> (string \<times> dirent) list" where
  "del_dent n ds = filter (\<lambda>x. fst x \<noteq> n) ds"

definition lookup_file :: "string \<Rightarrow> disk \<Rightarrow> nat option" where
  "lookup_file n d = (case map_of (dents d) n of Some (DFile i) \<Rightarrow> Some i | _ \<Rightarrow> None)"

definition overwrite :: "bytes \<Rightarrow> nat \<Rightarrow> bytes \<Rightarrow> bytes" where
  "overwrite c off bs =
     take off c @ replicate (off - length c) 0 @ bs @ drop (off + length bs) c"

definition new_file :: "string \<Rightarrow> disk \<Rightarrow> nat \<times> disk" where
  "new_file n d = (next_ino d, d\<lparr>dents := set_dent n (DFile (next_ino d)) (dents d),
     content := (content d)(next_ino d := []), synced := (synced d)(next_ino d := []),
     next_ino := Suc (next_ino d)\<rparr>)"

text \<open>\<open>O_RDWR|O_CREATE|O_EXCL\<close>, \<open>O_RDWR\<close> and \<open>O_RDWR|O_CREATE|O_TRUNC\<close>.\<close>

definition OpenExcl :: "string \<Rightarrow> disk \<Rightarrow> nat result \<times> disk" where
  "OpenExcl n d0 = (case next_fault d0 of
      (Some _, d) \<Rightarrow> (Inl io_error, d)
    | (None, d) \<Rightarrow>
        if map_of (dents d) n \<noteq> None then (Inl os_ErrExist, d)
        else (case new_file n d of (i, d') \<Rightarrow> (Inr i, d')))"

definition OpenRdwr :: "string \<Rightarrow> disk \<Rightarrow> nat result \<times> disk" where
  "OpenRdwr n d0 = (case next_fault d0 of
      (Some _, d) \<Rightarrow> (Inl io_error, d)
    | (None, d) \<Rightarrow> (case map_of (dents d) n of
          None \<Rightarrow> (Inl os_ErrNotExist, d)
        | Some DDir \<Rightarrow> (Inl io_error, d)
        | Some (DFile i) \<Rightarrow> (Inr i, d)))"

definition OpenTrunc :: "string \<Rightarrow> disk \<Rightarrow> nat result \<times> disk" where
  "OpenTrunc n d0 = (case next_fault d0 of
      (Some _, d) \<Rightarrow> (Inl io_error, d)
    | (None, d) \<Rightarrow> (case map_of (dents d) n of
          None \<Rightarrow> (case new_file n d of (i, d') \<Rightarrow> (Inr i, d'))
        | Some DDir \<Rightarrow> (Inl io_error, d)
        | Some (DFile i) \<Rightarrow> (Inr i, d\<lparr>content := (content d)(i := [])\<rparr>)))"

definition WriteAt :: "nat \<Rightarrow> bytes \<Rightarrow> nat \<Rightarrow> disk \<Rightarrow> (nat \<times> goerror option) \<times> disk" where
  "WriteAt i p off d0 = (case next_fault d0 of
      (Some k, d) \<Rightarrow>
        ((min k (length p), Some io_error),
         d\<lparr>content := (content d)(i := overwrite (content d i) off (take k p))\<rparr>)
    | (None, d) \<Rightarrow>
        ((length p, None), d\<lparr>content := (content d)(i := overwrite (content d i) off p)\<rparr>))"

definition FSync :: "nat \<Rightarrow> disk \<Rightarrow> goerror option \<times> disk" where
  "FSync i d0 = (case next_fault d0 of
      (Some _, d) \<Rightarrow> (Some io_error, d)
    | (None, d) \<Rightarrow> (None, d\<lparr>synced := (synced d)(i := content d i)\<rparr>))"

definition FTruncate :: "nat \<Rightarrow> nat \<Rightarrow> disk \<Rightarrow> goerror option \<times> disk" where
  "FTruncate i n d0 = (case next_fault d0 of
      (Some _, d) \<Rightarrow> (Some io_error, d)
    | (None, d) \<Rightarrow>
        (None, d\<lparr>content := (content d)(i := take n (content d i) @ replicate (n - length (content d i)) 0)\<rparr>))"

definition FClose :: "nat \<Rightarrow> disk \<Rightarrow> goerror option \<times> disk" where
  "FClose i d0 = (case next_fault d0 of
      (Some _, d) \<Rightarrow> (Some io_error, d) | (None, d) \<Rightarrow> (None, d))"

definition FStat :: "nat \<Rightarrow> disk \<Rightarrow> nat result \<times> disk" where
  "FStat i d0 = (case next_fault d0 of
      (Some _, d) \<Rightarrow> (Inl io_error, d) | (None, d) \<Rightarrow> (Inr (length (content d i)), d))"

definition os_Remove :: "string \<Rightarrow> disk \<Rightarrow> goerror option \<times> disk" where
  "os_Remove n d0 = (case next_fault d0 of
      (Some _, d) \<Rightarrow> (Some io_error, d)
    | (None, d) \<Rightarrow>
        if map_of (dents d) n = None then (Some os_ErrNotExist, d)
        else (None, d\<lparr>dents := del_dent n (dents d)\<rparr>))"

definition os_Rename :: "string \<Rightarrow> string \<Rightarrow> disk \<Rightarrow> goerror option \<times> disk" where
  "os_Rename a b d0 = (case next_fault d0 of
      (Some _, d) \<Rightarrow> (Some io_error, d)
    | (None, d) \<Rightarrow> (case map_of (dents d) a of
          None \<Rightarrow> (Some os_ErrNotExist, d)
        | Some e \<Rightarrow> (None, d\<lparr>dents := set_dent b e (del_dent a (dents d))\<rparr>)))"

text \<open>Opening and syncing the directory itself.\<close>

definition DirOpen :: "disk \<Rightarrow> goerror option \<times> disk" where
  "DirOpen d0 = (case next_fault d0 of (Some _, d) \<Rightarrow> (Some io_error, d) | (None, d) \<Rightarrow> (None, d))"

definition DirSync :: "disk \<Rightarrow> goerror option \<times> disk" where
  "DirSync d0 = (case next_fault d0 of
      (Some _, d) \<Rightarrow> (Some io_error, d)
    | (None, d) \<Rightarrow> (None, d\<lparr>synced_dents := dents d\<rparr>))"

text \<open>The data directory itself exists in the model; \<open>MkdirAll\<close> may still fail. \<open>ReadDir\<close> returns
  the entries sorted by file name.\<close>

definition os_MkdirAll :: "disk \<Rightarrow> goerror option \<times> disk" where
  "os_MkdirAll d0 = (case next_fault d0 of (Some _, d) \<Rightarrow> (Some io_error, d) | (None, d) \<Rightarrow> (None, d))"

definition os_ReadDir :: "disk \<Rightarrow> (string \<times> dirent) list result \<times> disk" where
  "os_ReadDir d0 = (case next_fault d0 of
      (Some _, d) \<Rightarrow> (Inl io_error, d)
    | (None, d) \<Rightarrow> (Inr (sort_key fst (dents d)), d))"

section \<open>Facts\<close>

lemma map_of_set_dent [disk_simps]: "map_of (set_dent n e ds) m = (if m = n then Some e else map_of ds m)"
  by (induction ds) (auto simp: set_dent_def)

lemma map_of_del_dent [disk_simps]: "map_of (del_dent n ds) m = (if m = n then None else map_of ds m)"
  by (induction ds) (auto simp: del_dent_def)

lemma next_fault_effect [disk_simps]:
  "next_fault d = (x, d') \<Longrightarrow> dents d' = dents d \<and> synced_dents d' = synced_dents d \<and> content d' = content d
     \<and> synced d' = synced d \<and> next_ino d' = next_ino d"
  by (auto simp: next_fault_def split: list.splits)

lemma overwrite_append [simp]: "overwrite c (length c) bs = c @ bs"
  by (simp add: overwrite_def)

end
