(* ===== verification/Json.thy ===== *)
theory Json
  imports Wire_Bytes
begin

text \<open>
  The part of Go's \<open>encoding/json\<close> the storage layer calls: the JSON grammar, the compacting and
  HTML-escaping copy \<open>json.Marshal\<close> makes of a \<open>json.RawMessage\<close>, quoting and unquoting of strings,
  and decimal integers at their width. Text is a \<^typ>\<open>string\<close>, one \<^typ>\<open>char\<close> per byte.

  A value is parsed to a tree whose leaves keep their source text, so that the raw text of a
  member (what \<open>json.RawMessage\<close> receives) and its compacted form are both available. The parser
  is fuelled; \<open>parse_print\<close> shows that the length of the text is always enough for printed trees.
\<close>

definition byte_of_char :: "char \<Rightarrow> byte" where
  "byte_of_char c = of_char c"

definition bytes_of :: "string \<Rightarrow> bytes" where
  "bytes_of s = map byte_of_char s"

definition string_of :: "bytes \<Rightarrow> string" where
  "string_of bs = map (\<lambda>b. char_of (unat b)) bs"

section \<open>Grammar\<close>

datatype json =
    JLit string
  | JNum string
  | JStr string
  | JArr "json list"
  | JObj "(string \<times> json) list"

definition is_ws :: "char \<Rightarrow> bool" where
  "is_ws c \<longleftrightarrow> c = CHR '' '' \<or> c = CHR 0x09 \<or> c = CHR 0x0A \<or> c = CHR 0x0D"

definition skip_ws :: "string \<Rightarrow> string" where
  "skip_ws s = dropWhile is_ws s"

definition code :: "char \<Rightarrow> nat" where
  "code c = of_char c"

definition is_digit :: "char \<Rightarrow> bool" where
  "is_digit c \<longleftrightarrow> 48 \<le> code c \<and> code c \<le> 57"

definition is_hex :: "char \<Rightarrow> bool" where
  "is_hex c \<longleftrightarrow> is_digit c \<or> (97 \<le> code c \<and> code c \<le> 102) \<or> (65 \<le> code c \<and> code c \<le> 70)"

definition dquote :: char where
  "dquote = CHR 0x22"

definition bslash :: char where
  "bslash = CHR 0x5C"

definition simple_esc :: "char \<Rightarrow> bool" where
  "simple_esc e \<longleftrightarrow>
     e = dquote \<or> e = bslash \<or> e \<in> {CHR ''/'', CHR ''b'', CHR ''f'', CHR ''n'', CHR ''r'', CHR ''t''}"

text \<open>The length of the first element of a string literal's inside: a plain character, a
  two-character escape or a Unicode escape with four hexadecimal digits.\<close>

definition str_item :: "string \<Rightarrow> nat option" where
  "str_item s = (case s of
      [] \<Rightarrow> None
    | c # r \<Rightarrow>
        if c = dquote \<or> code c < 32 then None
        else if c \<noteq> bslash then Some 1
        else if r \<noteq> [] \<and> simple_esc (hd r) then Some 2
        else if r \<noteq> [] \<and> hd r = CHR ''u'' \<and> 5 \<le> length r \<and> list_all is_hex (take 4 (tl r)) then Some 6
        else None)"

text \<open>The inside of a string literal, from after the opening quote to the closing one.\<close>

function str_body :: "string \<Rightarrow> (string \<times> string) option" where
  "str_body s =
     (if s = [] then None
      else if hd s = dquote then Some ([], tl s)
      else (case str_item s of
              None \<Rightarrow> None
            | Some n \<Rightarrow> map_option (\<lambda>(x, y). (take n s @ x, y)) (str_body (drop n s))))"
  by pat_completeness auto
termination
  by (relation "measure length") (auto simp: str_item_def split: list.splits if_splits)

declare str_body.simps [simp del]

definition num_char :: "char \<Rightarrow> bool" where
  "num_char c \<longleftrightarrow> is_digit c \<or> c \<in> {CHR ''-'', CHR ''+'', CHR ''.'', CHR ''e'', CHR ''E''}"

definition digits1 :: "string \<Rightarrow> string option" where
  "digits1 s = (if s \<noteq> [] \<and> is_digit (hd s) then Some (dropWhile is_digit s) else None)"

definition num_int :: "string \<Rightarrow> string option" where
  "num_int s =
     (let t = (if s \<noteq> [] \<and> hd s = CHR ''-'' then tl s else s)
      in if t \<noteq> [] \<and> hd t = CHR ''0'' then Some (tl t) else digits1 t)"

definition num_frac :: "string \<Rightarrow> string option" where
  "num_frac s = (if s \<noteq> [] \<and> hd s = CHR ''.'' then digits1 (tl s) else Some s)"

definition num_exp :: "string \<Rightarrow> string option" where
  "num_exp s =
     (if s \<noteq> [] \<and> hd s \<in> {CHR ''e'', CHR ''E''}
      then digits1 (if tl s \<noteq> [] \<and> hd (tl s) \<in> {CHR ''+'', CHR ''-''} then tl (tl s) else tl s)
      else Some s)"

definition valid_num :: "string \<Rightarrow> bool" where
  "valid_num s \<longleftrightarrow>
     Option.bind (num_int s) (\<lambda>r. Option.bind (num_frac r) num_exp) = Some []"

definition literals :: "string list" where
  "literals = [''null'', ''true'', ''false'']"

definition parse_lit :: "string \<Rightarrow> (json \<times> string) option" where
  "parse_lit s =
     (if take 4 s = ''null'' \<or> take 4 s = ''true'' then Some (JLit (take 4 s), drop 4 s)
      else if take 5 s = ''false'' then Some (JLit (take 5 s), drop 5 s) else None)"

definition parse_num :: "string \<Rightarrow> (json \<times> string) option" where
  "parse_num s =
     (let t = takeWhile num_char s
      in if valid_num t then Some (JNum t, dropWhile num_char s) else None)"

text \<open>Values, the elements of an array after its bracket, the members of an object after its
  brace. Each call spends a unit of fuel.\<close>

fun parse_value :: "nat \<Rightarrow> string \<Rightarrow> (json \<times> string) option"
  and parse_elems :: "nat \<Rightarrow> string \<Rightarrow> (json list \<times> string) option"
  and parse_members :: "nat \<Rightarrow> string \<Rightarrow> ((string \<times> json) list \<times> string) option" where
  "parse_value 0 s = None"
| "parse_value (Suc f) s =
     (case skip_ws s of
        [] \<Rightarrow> None
      | c # r \<Rightarrow>
          if c = dquote then map_option (\<lambda>(x, y). (JStr x, y)) (str_body r)
          else if c = CHR ''['' then
            (if skip_ws r \<noteq> [] \<and> hd (skip_ws r) = CHR '']'' then Some (JArr [], tl (skip_ws r))
             else map_option (\<lambda>(x, y). (JArr x, y)) (parse_elems f r))
          else if c = CHR ''{'' then
            (if skip_ws r \<noteq> [] \<and> hd (skip_ws r) = CHR ''}'' then Some (JObj [], tl (skip_ws r))
             else map_option (\<lambda>(x, y). (JObj x, y)) (parse_members f r))
          else if c = CHR ''-'' \<or> is_digit c then parse_num (c # r)
          else parse_lit (c # r))"
| "parse_elems 0 s = None"
| "parse_elems (Suc f) s =
     (case parse_value f s of
        None \<Rightarrow> None
      | Some (v, r) \<Rightarrow>
          (case skip_ws r of
             [] \<Rightarrow> None
           | c # r1 \<Rightarrow>
               if c = CHR '','' then map_option (\<lambda>(x, y). (v # x, y)) (parse_elems f r1)
               else if c = CHR '']'' then Some ([v], r1) else None))"
| "parse_members 0 s = None"
| "parse_members (Suc f) s =
     (case skip_ws s of
        [] \<Rightarrow> None
      | q # r \<Rightarrow>
          if q \<noteq> dquote then None
          else (case str_body r of
             None \<Rightarrow> None
           | Some (k, r1) \<Rightarrow>
               (case skip_ws r1 of
                  [] \<Rightarrow> None
                | col # r2 \<Rightarrow>
                    if col \<noteq> CHR '':'' then None
                    else (case parse_value f r2 of
                       None \<Rightarrow> None
                     | Some (v, r3) \<Rightarrow>
                         (case skip_ws r3 of
                            [] \<Rightarrow> None
                          | c # r4 \<Rightarrow>
                              if c = CHR '','' then map_option (\<lambda>(x, y). ((k, v) # x, y)) (parse_members f r4)
                              else if c = CHR ''}'' then Some ([(k, v)], r4) else None)))))"

fun json_depth :: "json \<Rightarrow> nat" where
  "json_depth (JArr xs) = Suc (fold max (map json_depth xs) 0)"
| "json_depth (JObj ms) = Suc (fold max (map (\<lambda>m. json_depth (snd m)) ms) 0)"
| "json_depth _ = 0"

definition maxNestingDepth :: nat where
  "maxNestingDepth = 10000"

text \<open>A whole document: one value, white space around it, nesting within the scanner's bound.\<close>

definition parse_json :: "string \<Rightarrow> json option" where
  "parse_json s =
     (case parse_value (Suc (length s)) s of
        None \<Rightarrow> None
      | Some (j, r) \<Rightarrow>
          if skip_ws r = [] \<and> json_depth j \<le> maxNestingDepth then Some j else None)"

section \<open>Printing\<close>

fun join :: "string list \<Rightarrow> string" where
  "join [] = []"
| "join [x] = x"
| "join (x # y # ys) = x @ CHR '','' # join (y # ys)"

fun json_print :: "json \<Rightarrow> string" where
  "json_print (JLit s) = s"
| "json_print (JNum s) = s"
| "json_print (JStr x) = dquote # x @ [dquote]"
| "json_print (JArr xs) = CHR ''['' # join (map json_print xs) @ [CHR '']'']"
| "json_print (JObj ms) =
     CHR ''{'' # join (map (\<lambda>m. dquote # fst m @ dquote # CHR '':'' # json_print (snd m)) ms) @ [CHR ''}'']"

text \<open>HTML escaping inside string literals: \<open><\<close>, \<open>>\<close>, \<open>&\<close>, U+2028 and U+2029.\<close>

definition u_escape :: "char \<Rightarrow> string" where
  "u_escape c = [bslash, CHR ''u'', CHR ''0'', CHR ''0''] @ hex_digits (byte_of_char c)"

fun html_escape :: "string \<Rightarrow> string" where
  "html_escape [] = []"
| "html_escape (c # r) =
     (if c = CHR ''<'' \<or> c = CHR ''>'' \<or> c = CHR 0x26 then u_escape c @ html_escape r
      else if c = CHR 0xE2 \<and> take 1 r = [CHR 0x80] \<and> (take 1 (drop 1 r) = [CHR 0xA8] \<or> take 1 (drop 1 r) = [CHR 0xA9])
      then [bslash, CHR ''u'', CHR ''2'', CHR ''0'', CHR ''2'',
            if take 1 (drop 1 r) = [CHR 0xA8] then CHR ''8'' else CHR ''9''] @ html_escape (drop 2 r)
      else c # html_escape r)"

fun json_escape :: "json \<Rightarrow> json" where
  "json_escape (JStr x) = JStr (html_escape x)"
| "json_escape (JArr xs) = JArr (map json_escape xs)"
| "json_escape (JObj ms) = JObj (map (\<lambda>m. (html_escape (fst m), json_escape (snd m))) ms)"
| "json_escape j = j"

text \<open>What \<open>json.Marshal\<close> emits for a \<open>json.RawMessage\<close>.\<close>

definition json_compact :: "string \<Rightarrow> string result" where
  "json_compact s = (case parse_json s of
      None \<Rightarrow> Inl (ErrOther ''json'')
    | Some j \<Rightarrow> Inr (json_print (json_escape j)))"

section \<open>Strings and numbers\<close>

definition is_item :: "string \<Rightarrow> bool" where
  "is_item i \<longleftrightarrow> str_item i = Some (length i)"

inductive vstr :: "string \<Rightarrow> bool" where
  vstr_Nil: "vstr []"
| vstr_item: "is_item i \<Longrightarrow> vstr x \<Longrightarrow> vstr (i @ x)"

lemma str_item_Some: "str_item s = Some n \<Longrightarrow> is_item (take n s) \<and> n \<le> length s \<and> 0 < n"
  by (cases s; cases "tl s")
    (auto simp: str_item_def is_item_def take_Cons' split: if_splits)

lemma is_item_append: "is_item i \<Longrightarrow> str_item (i @ r) = Some (length i)"
  by (cases i; cases "tl i")
    (auto simp: str_item_def is_item_def split: if_splits)

lemma is_item_hd: "is_item i \<Longrightarrow> i \<noteq> [] \<and> hd i \<noteq> dquote"
  by (cases i) (auto simp: str_item_def is_item_def split: if_splits)

lemma str_body_vstr: "str_body s = Some (x, r) \<Longrightarrow> vstr x \<and> s = x @ dquote # r"
proof (induction s arbitrary: x r rule: str_body.induct)
  case (1 s)
  show ?case
  proof (cases "s = [] \<or> hd s = dquote")
    case True
    then show ?thesis using "1.prems" by (cases s) (auto simp: str_body.simps vstr_Nil)
  next
    case False
    then obtain n x' where n: "str_item s = Some n" "str_body (drop n s) = Some (x', r)" "x = take n s @ x'"
      using "1.prems" by (auto simp: str_body.simps [of s] split: option.splits)
    with "1.IH" False have "vstr x'" "drop n s = x' @ dquote # r" by auto
    then show ?thesis using n str_item_Some [of s n] by (metis append.assoc append_take_drop_id vstr_item)
  qed
qed

lemma vstr_str_body: "vstr x \<Longrightarrow> str_body (x @ dquote # r) = Some (x, r)"
proof (induction rule: vstr.induct)
  case vstr_Nil
  then show ?case by (simp add: str_body.simps)
next
  case (vstr_item i x)
  then show ?case using is_item_hd [of i] is_item_append [of i "x @ dquote # r"]
    by (subst str_body.simps) auto
qed


definition html_plain :: "char \<Rightarrow> bool" where
  "html_plain c \<longleftrightarrow> c \<notin> {CHR ''<'', CHR ''>'', CHR 0x26, CHR 0xE2}"

lemma html_escape_plain: "html_plain c \<Longrightarrow> html_escape (c # r) = c # html_escape r"
  by (auto simp: html_plain_def)

lemma is_hex_plain: "is_hex c \<Longrightarrow> html_plain c"
  by (auto simp: html_plain_def is_hex_def is_digit_def code_def)

lemma simple_esc_plain: "simple_esc c \<Longrightarrow> html_plain c"
  by (auto simp: html_plain_def simple_esc_def dquote_def bslash_def)

lemma bslash_plain: "html_plain bslash"
  by (simp add: html_plain_def bslash_def)

lemma html_escape_all_plain:
  "list_all html_plain i \<Longrightarrow> html_escape (i @ x) = i @ html_escape x"
  by (induction i) (auto simp: html_escape_plain simp del: html_escape.simps)

lemma is_item_cases:
  assumes "is_item i"
  obtains (plain) c where "i = [c]" "c \<noteq> dquote" "c \<noteq> bslash" "32 \<le> code c"
    | (esc) "list_all html_plain i" "2 \<le> length i"
proof -
  from assms obtain c r where i: "i = c # r" by (cases i) (auto dest: is_item_hd)
  show thesis
  proof (cases "c = bslash")
    case False
    then show thesis using assms i plain by (auto simp: is_item_def str_item_def split: if_splits)
  next
    case True
    then have "length i = 2 \<and> simple_esc (hd r) \<or> length i = 6 \<and> hd r = CHR ''u'' \<and> list_all is_hex (take 4 (tl r))"
      using assms i by (auto simp: is_item_def str_item_def split: if_splits)
    then have "list_all html_plain r"
    proof
      assume "length i = 2 \<and> simple_esc (hd r)"
      then show ?thesis using i by (cases r) (auto intro: simple_esc_plain)
    next
      assume a: "length i = 6 \<and> hd r = CHR ''u'' \<and> list_all is_hex (take 4 (tl r))"
      then obtain r' where r: "r = CHR ''u'' # r'" "length r' = 4" using i by (cases r) auto
      then show ?thesis using a by (auto simp: list_all_iff html_plain_def [of "CHR ''u''"] intro: is_hex_plain)
    qed
    then show thesis using True i esc bslash_plain assms by (auto simp: Suc_le_eq is_item_def str_item_def split: if_splits)
  qed
qed

lemma vstr_tl: "vstr (c # r) \<Longrightarrow> c \<noteq> bslash \<Longrightarrow> vstr r"
proof (erule vstr.cases)
  fix i x assume a: "c # r = i @ x" "is_item i" "vstr x" "c \<noteq> bslash"
  then obtain i' where "i = c # i'" by (cases i) (auto dest: is_item_hd)
  with a show "vstr r" by (auto simp: is_item_def str_item_def split: if_splits)
qed simp

lemma is_item_single: "c \<noteq> dquote \<Longrightarrow> c \<noteq> bslash \<Longrightarrow> 32 \<le> code c \<Longrightarrow> is_item [c]"
  by (simp add: is_item_def str_item_def)

lemma is_item_u: "is_hex a \<Longrightarrow> is_hex b \<Longrightarrow> is_hex c \<Longrightarrow> is_hex d \<Longrightarrow> is_item [bslash, CHR ''u'', a, b, c, d]"
  by (simp add: is_item_def str_item_def simple_esc_def dquote_def bslash_def code_def)

lemma vstr_html_escape: "vstr x \<Longrightarrow> vstr (html_escape x)"
proof (induction "length x" arbitrary: x rule: less_induct)
  case less
  from less.prems show ?case
  proof (cases rule: vstr.cases)
    case vstr_Nil
    then show ?thesis by (simp add: vstr.intros)
  next
    case (vstr_item i y)
    then have y: "vstr (html_escape y)" using less.hyps is_item_hd by auto
    from vstr_item(2) show ?thesis
    proof (cases rule: is_item_cases)
      case (plain c)
      consider "html_plain c" | "c \<in> {CHR ''<'', CHR ''>'', CHR 0x26}" | "c = CHR 0xE2"
        by (auto simp: html_plain_def)
      then show ?thesis
      proof cases
        case 1
        then show ?thesis using vstr.vstr_item [OF _ y] plain vstr_item is_item_single
          by (metis append_Cons append_Nil html_escape_plain)
      next
        case 2
        then have "html_escape x = u_escape c @ html_escape y" using plain vstr_item by auto
        moreover have "is_item (u_escape c)"
          using 2 by (auto simp: u_escape_def hex_digits_def hextable_def byte_of_char_def
              is_hex_def is_digit_def code_def intro!: is_item_u)
        ultimately show ?thesis using vstr.vstr_item [OF _ y] by simp
      next
        case 3
        show ?thesis
        proof (cases "\<exists>a z. y = CHR 0x80 # a # z \<and> (a = CHR 0xA8 \<or> a = CHR 0xA9)")
          case True
          then obtain a z where z: "y = CHR 0x80 # a # z" "a = CHR 0xA8 \<or> a = CHR 0xA9" by blast
          then have "vstr z" using vstr_item(3) vstr_tl by (auto simp: bslash_def)
          then have vz: "vstr (html_escape z)" using less.hyps z vstr_item plain by simp
          have "html_escape x = [bslash, CHR ''u'', CHR ''2'', CHR ''0'', CHR ''2'',
              if a = CHR 0xA8 then CHR ''8'' else CHR ''9''] @ html_escape z"
            using 3 z plain vstr_item by auto
          moreover have "is_item [bslash, CHR ''u'', CHR ''2'', CHR ''0'', CHR ''2'',
              if a = CHR 0xA8 then CHR ''8'' else CHR ''9'']"
            by (rule is_item_u) (auto simp: is_hex_def is_digit_def code_def)
          ultimately show ?thesis using vstr.vstr_item [OF _ vz] by metis
        next
          case False
          then have "html_escape x = [c] @ html_escape y"
            using 3 plain vstr_item by (cases y; cases "tl y") (auto simp: take_Cons')
          then show ?thesis using vstr.vstr_item [OF _ y] plain is_item_single by metis
        qed
      qed
    next
      case esc
      then show ?thesis using y vstr_item vstr.vstr_item by (simp add: html_escape_all_plain)
    qed
  qed
qed

lemma digits1_num_char: "digits1 s = Some r \<Longrightarrow> list_all num_char r \<Longrightarrow> list_all num_char s"
  by (auto simp: digits1_def list_all_iff num_char_def split: if_splits)
    (metis UnE set_append takeWhile_dropWhile_id set_takeWhileD)

lemma digits1_shrinks: "digits1 s = Some r \<Longrightarrow> s \<noteq> [] \<and> is_digit (hd s)"
  by (auto simp: digits1_def split: if_splits)

lemma valid_num_chars: "valid_num s \<Longrightarrow> list_all num_char s"
proof -
  assume "valid_num s"
  then obtain r r1 where r: "num_int s = Some r" "num_frac r = Some r1" "num_exp r1 = Some []"
    by (auto simp: valid_num_def bind_eq_Some_conv)
  have r1: "list_all num_char r1"
    using r(3) by (cases r1; cases "tl r1")
      (auto simp: num_exp_def num_char_def split: if_splits dest: digits1_num_char)
  then have "list_all num_char r"
    using r(2) by (cases r) (auto simp: num_frac_def num_char_def split: if_splits dest: digits1_num_char)
  then show ?thesis
    using r(1) by (cases s; cases "tl s")
      (auto simp: num_int_def num_char_def is_digit_def code_def Let_def split: if_splits dest: digits1_num_char)
qed

lemma valid_num_hd: "valid_num s \<Longrightarrow> s \<noteq> [] \<and> (hd s = CHR ''-'' \<or> is_digit (hd s))"
  by (cases s) (auto simp: valid_num_def num_int_def Let_def is_digit_def code_def digits1_def bind_eq_Some_conv split: if_splits)

section \<open>Printed trees parse back\<close>

fun wf_json :: "json \<Rightarrow> bool" where
  "wf_json (JLit s) \<longleftrightarrow> s = ''null'' \<or> s = ''true'' \<or> s = ''false''"
| "wf_json (JNum s) \<longleftrightarrow> valid_num s"
| "wf_json (JStr x) \<longleftrightarrow> vstr x"
| "wf_json (JArr xs) \<longleftrightarrow> (\<forall>x\<in>set xs. wf_json x)"
| "wf_json (JObj ms) \<longleftrightarrow> (\<forall>m\<in>set ms. vstr (fst m) \<and> wf_json (snd m))"

definition delim :: "string \<Rightarrow> bool" where
  "delim s \<longleftrightarrow> s = [] \<or> hd s = CHR '','' \<or> hd s = CHR '']'' \<or> hd s = CHR ''}''"

lemma delim_not_num: "delim r \<Longrightarrow> r = [] \<or> \<not> num_char (hd r)"
  by (auto simp: delim_def num_char_def is_digit_def code_def)

lemma parse_num_print: "valid_num s \<Longrightarrow> delim r \<Longrightarrow> parse_num (s @ r) = Some (JNum s, r)"
proof -
  assume v: "valid_num s" and d: "delim r"
  have "takeWhile num_char (s @ r) = s" "dropWhile num_char (s @ r) = r"
    using valid_num_chars [OF v] delim_not_num [OF d]
    by (cases r; force simp: takeWhile_append dropWhile_append list_all_iff)+
  then show ?thesis using v by (simp add: parse_num_def)
qed

lemma json_print_hd: "wf_json j \<Longrightarrow> json_print j \<noteq> [] \<and> \<not> is_ws (hd (json_print j))"
  by (cases j) (auto simp: is_ws_def dquote_def is_digit_def code_def dest: valid_num_hd)

lemma skip_ws_print [simp]: "wf_json j \<Longrightarrow> skip_ws (json_print j @ r) = json_print j @ r"
  using json_print_hd [of j] by (cases "json_print j") (auto simp: skip_ws_def)

lemma skip_ws_Cons [simp]: "\<not> is_ws c \<Longrightarrow> skip_ws (c # r) = c # r"
  by (simp add: skip_ws_def)

lemma punct_not_ws [simp]: "\<not> is_ws dquote" "\<not> is_ws (CHR '','')" "\<not> is_ws (CHR '']'')"
  "\<not> is_ws (CHR ''}'')" "\<not> is_ws (CHR '':'')" "\<not> is_ws (CHR ''['')" "\<not> is_ws (CHR ''{'')"
  by (simp_all add: is_ws_def dquote_def)

lemma dquote_neq [simp]: "dquote \<noteq> CHR '']''" "dquote \<noteq> CHR ''}''" "dquote \<noteq> CHR ''[''" "dquote \<noteq> CHR ''{''"
   "CHR '']'' \<noteq> dquote" "CHR ''}'' \<noteq> dquote" "CHR ''['' \<noteq> dquote" "CHR ''{'' \<noteq> dquote"
  by (simp_all add: dquote_def)

lemma json_print_hd_not_close: "wf_json j \<Longrightarrow> hd (json_print j) \<noteq> CHR '']''"
  by (cases j) (auto simp: dquote_def is_digit_def code_def dest: valid_num_hd)

lemma join_Cons: "join (x # xs) = x @ (if xs = [] then [] else CHR '','' # join xs)"
  by (cases xs) auto

lemma join_map_Cons: "join (map f (x # xs)) = f x @ (if xs = [] then [] else CHR '','' # join (map f xs))"
  by (cases xs) auto

lemma parse_elems_print:
  assumes "\<And>x f r. x \<in> set xs \<Longrightarrow> delim r \<Longrightarrow> length (json_print x) \<le> f \<Longrightarrow>
     parse_value f (json_print x @ r) = Some (x, r)"
    and "xs \<noteq> []" "length (join (map json_print xs)) < f"
  shows "parse_elems f (join (map json_print xs) @ CHR '']'' # r) = Some (xs, r)"
  using assms
proof (induction xs arbitrary: f)
  case (Cons x xs)
  then obtain f' where f: "f = Suc f'" by (cases f) auto
  define rest where "rest = (if xs = [] then [] else CHR '','' # join (map json_print xs)) @ CHR '']'' # r"
  have eq: "join (map json_print (x # xs)) @ CHR '']'' # r = json_print x @ rest"
    by (simp add: join_Cons rest_def)
  have "delim rest" by (auto simp: rest_def delim_def)
  then have v: "parse_value f' (json_print x @ rest) = Some (x, rest)"
    using Cons.prems f by (auto simp: join_Cons split: if_splits)
  show ?case
  proof (cases "xs = []")
    case True
    then show ?thesis using v f by (simp add: eq rest_def)
  next
    case False
    then have "parse_elems f' (join (map json_print xs) @ CHR '']'' # r) = Some (xs, r)"
      using Cons f by (auto simp: join_Cons)
    then show ?thesis using v f False unfolding eq by (simp add: rest_def)
  qed
qed simp

definition print_member :: "string \<times> json \<Rightarrow> string" where
  "print_member m = dquote # fst m @ dquote # CHR '':'' # json_print (snd m)"

lemma json_print_JObj: "json_print (JObj ms) = CHR ''{'' # join (map print_member ms) @ [CHR ''}'']"
  by (simp add: print_member_def [abs_def])

lemma parse_members_print:
  assumes "\<And>m f r. m \<in> set ms \<Longrightarrow> delim r \<Longrightarrow> length (json_print (snd m)) \<le> f \<Longrightarrow>
     parse_value f (json_print (snd m) @ r) = Some (snd m, r)"
    and "\<forall>m\<in>set ms. vstr (fst m)" "ms \<noteq> []" "length (join (map print_member ms)) < f"
  shows "parse_members f (join (map print_member ms) @ CHR ''}'' # r) = Some (ms, r)"
  using assms
proof (induction ms arbitrary: f)
  case (Cons m ms)
  then obtain f' where f: "f = Suc f'" by (cases f) auto
  obtain k v where m: "m = (k, v)" by (cases m)
  define rest where "rest = (if ms = [] then [] else CHR '','' # join (map print_member ms)) @ CHR ''}'' # r"
  have eq: "join (map print_member (m # ms)) @ CHR ''}'' # r
      = dquote # k @ dquote # CHR '':'' # json_print v @ rest"
    by (simp only: join_map_Cons rest_def) (simp add: print_member_def m)
  have "delim rest" by (auto simp: rest_def delim_def)
  moreover have "length (json_print v) \<le> f'"
    using Cons.prems(4) f by (simp add: join_Cons print_member_def m split: if_splits)
  ultimately have v: "parse_value f' (json_print v @ rest) = Some (v, rest)"
    using Cons.prems(1) [of m rest f'] by (simp add: m)
  have k: "str_body (k @ dquote # CHR '':'' # json_print v @ rest) = Some (k, CHR '':'' # json_print v @ rest)"
    using Cons.prems m by (intro vstr_str_body) simp
  show ?case
  proof (cases "ms = []")
    case True
    then show ?thesis using v k f by (subst eq) (simp add: rest_def m)
  next
    case False
    then have "parse_members f' (join (map print_member ms) @ CHR ''}'' # r) = Some (ms, r)"
      using Cons f by (auto simp: join_Cons)
    then show ?thesis using v k f False by (subst eq) (simp add: rest_def m)
  qed
qed simp

lemma parse_print:
  "wf_json j \<Longrightarrow> delim r \<Longrightarrow> length (json_print j) \<le> f \<Longrightarrow> parse_value f (json_print j @ r) = Some (j, r)"
proof (induction j arbitrary: f r)
  case (JLit s)
  then obtain f' where f: "f = Suc f'" by (cases f) auto
  with JLit show ?case by (auto simp: is_digit_def code_def parse_lit_def is_ws_def dquote_def)
next
  case (JNum s)
  then obtain f' where f: "f = Suc f'" using valid_num_hd by (cases f) auto
  obtain c t where s: "s = c # t" using JNum valid_num_hd by (cases s) auto
  have "c = CHR ''-'' \<or> is_digit c" using JNum valid_num_hd [of s] s by simp
  moreover from this have "c \<noteq> dquote" "c \<noteq> CHR ''[''" "c \<noteq> CHR ''{''" "\<not> is_ws c"
    by (auto simp: is_digit_def code_def dquote_def is_ws_def)
  ultimately show ?case using parse_num_print [of s r] JNum f s by simp
next
  case (JStr x)
  then obtain f' where f: "f = Suc f'" by (cases f) auto
  then show ?case using vstr_str_body [of x r] JStr by simp
next
  case (JArr xs)
  then obtain f' where f: "f = Suc f'" by (cases f) auto
  show ?case
  proof (cases "xs = []")
    case False
    then obtain x ys where xs: "xs = x # ys" by (cases xs) auto
    have "parse_elems f' (join (map json_print xs) @ CHR '']'' # r) = Some (xs, r)"
      using JArr f False by (intro parse_elems_print) auto
    moreover have "hd (skip_ws (join (map json_print xs) @ CHR '']'' # r)) \<noteq> CHR '']''"
      using JArr.prems(1) xs json_print_hd [of x] json_print_hd_not_close [of x]
      by (simp only: xs join_map_Cons) simp
    ultimately show ?thesis using f by simp
  qed (simp add: f)
next
  case (JObj ms)
  then obtain f' where f: "f = Suc f'" by (cases f) auto
  show ?case
  proof (cases "ms = []")
    case False
    then obtain m ns where ms: "ms = m # ns" by (cases ms) auto
    have "parse_members f' (join (map print_member ms) @ CHR ''}'' # r) = Some (ms, r)"
      using JObj f False unfolding json_print_JObj
      by (intro parse_members_print) (auto intro: snds.intros)
    moreover have "skip_ws (join (map print_member ms) @ CHR ''}'' # r)
        = join (map print_member ms) @ CHR ''}'' # r" "hd (join (map print_member ms) @ CHR ''}'' # r) = dquote"
      by (simp_all only: ms join_map_Cons) (simp_all add: print_member_def)
    ultimately show ?thesis using f by (simp only: json_print_JObj) simp
  qed (simp add: f)
qed

lemma parse_lit_wf: "parse_lit s = Some (j, r) \<Longrightarrow> wf_json j"
  by (auto simp: parse_lit_def split: if_splits)

lemma parse_num_wf: "parse_num s = Some (j, r) \<Longrightarrow> wf_json j"
  by (auto simp: parse_num_def Let_def split: if_splits)

lemma parse_wf:
  "(\<forall>s j r. parse_value f s = Some (j, r) \<longrightarrow> wf_json j)
   \<and> (\<forall>s xs r. parse_elems f s = Some (xs, r) \<longrightarrow> (\<forall>x\<in>set xs. wf_json x))
   \<and> (\<forall>s ms r. parse_members f s = Some (ms, r) \<longrightarrow> (\<forall>m\<in>set ms. vstr (fst m) \<and> wf_json (snd m)))"
proof (induction f)
  case (Suc f)
  have value_ok: "wf_json j" if "parse_value f s = Some (j, r)" for s j r using Suc that by blast
  have elems: "\<forall>x\<in>set xs. wf_json x" if "parse_elems f s = Some (xs, r)" for s xs r
    using Suc that by blast
  have membs: "\<forall>m\<in>set ms. vstr (fst m) \<and> wf_json (snd m)" if "parse_members f s = Some (ms, r)" for s ms r
    using Suc that by blast
  have "wf_json j" if "parse_value (Suc f) s = Some (j, r)" for s j r
    using that
    by (auto split: list.splits if_splits dest!: elems membs parse_lit_wf parse_num_wf str_body_vstr)
  moreover have "\<forall>x\<in>set xs. wf_json x" if "parse_elems (Suc f) s = Some (xs, r)" for s xs r
    using that value_ok elems by (fastforce split: list.splits if_splits option.splits)
  moreover have "\<forall>m\<in>set ms. vstr (fst m) \<and> wf_json (snd m)" if "parse_members (Suc f) s = Some (ms, r)" for s ms r
    using that value_ok membs str_body_vstr by (fastforce split: list.splits if_splits option.splits)
  ultimately show ?case by blast
qed simp

lemma parse_value_wf: "parse_value f s = Some (j, r) \<Longrightarrow> wf_json j"
  using parse_wf by blast

lemma wf_json_escape: "wf_json j \<Longrightarrow> wf_json (json_escape j)"
  by (induction j) (auto intro: vstr_html_escape)

lemma json_depth_escape [simp]: "json_depth (json_escape j) = json_depth j"
proof (induction j)
  case (JArr xs)
  then have "map (json_depth \<circ> json_escape) xs = map json_depth xs" by simp
  then show ?case by (simp del: map_eq_conv)
next
  case (JObj ms)
  then have "map ((\<lambda>m. json_depth (snd m)) \<circ> (\<lambda>m. (html_escape (fst m), json_escape (snd m)))) ms
      = map (\<lambda>m. json_depth (snd m)) ms"
    by (auto intro: snds.intros)
  then show ?case by (simp del: map_eq_conv)
qed simp_all

lemma html_escape_no_sep:
  assumes "\<not> (take 1 r = [CHR 0x80] \<and> (take 1 (drop 1 r) = [CHR 0xA8] \<or> take 1 (drop 1 r) = [CHR 0xA9]))"
  shows "\<not> (take 1 (html_escape r) = [CHR 0x80] \<and>
     (take 1 (drop 1 (html_escape r)) = [CHR 0xA8] \<or> take 1 (drop 1 (html_escape r)) = [CHR 0xA9]))"
proof -
  have hd_esc: "take 1 (html_escape x) = [c] \<Longrightarrow> c \<in> {CHR 0x80, CHR 0xA8, CHR 0xA9} \<Longrightarrow> take 1 x = [c]" for x c
    by (cases x) (auto simp: u_escape_def bslash_def split: if_splits)
  show ?thesis
  proof
    assume a: "take 1 (html_escape r) = [CHR 0x80] \<and>
     (take 1 (drop 1 (html_escape r)) = [CHR 0xA8] \<or> take 1 (drop 1 (html_escape r)) = [CHR 0xA9])"
    then obtain r' where r: "r = CHR 0x80 # r'" using hd_esc [of r] by (cases r) auto
    then have "html_escape r = CHR 0x80 # html_escape r'" by simp
    then show False using a assms r hd_esc [of r'] by auto
  qed
qed

lemma html_escape_idem: "html_escape (html_escape x) = html_escape x"
proof (induction x rule: html_escape.induct)
  case (2 c r)
  have "list_all html_plain hextable" by (simp add: hextable_def html_plain_def)
  then have hex: "list_all html_plain (hex_digits b)" for b
    using high_nibble_bound [of b] low_nibble_bound [of b]
    by (simp add: hex_digits_def list_all_iff)
  have u: "list_all html_plain (u_escape c)"
    using hex by (simp add: u_escape_def bslash_plain html_plain_def bslash_def)
  consider "c \<in> {CHR ''<'', CHR ''>'', CHR 0x26}"
    | "c = CHR 0xE2" "take 1 r = [CHR 0x80]" "take 1 (drop 1 r) = [CHR 0xA8] \<or> take 1 (drop 1 r) = [CHR 0xA9]"
    | "c = CHR 0xE2" "\<not> (take 1 r = [CHR 0x80] \<and> (take 1 (drop 1 r) = [CHR 0xA8] \<or> take 1 (drop 1 r) = [CHR 0xA9]))"
    | "html_plain c" unfolding html_plain_def by blast
  then show ?case
  proof cases
    case 1
    then have "html_escape (c # r) = u_escape c @ html_escape r" by auto
    then show ?thesis using 1 "2.IH"(1) u by (simp only: html_escape_all_plain) auto
  next
    case 2
    define z where "z = [bslash, CHR ''u'', CHR ''2'', CHR ''0'', CHR ''2'',
            if take 1 (drop 1 r) = [CHR 0xA8] then CHR ''8'' else CHR ''9'']"
    have "html_escape (c # r) = z @ html_escape (drop 2 r)" using 2 by (simp add: z_def)
    moreover have "list_all html_plain z" by (simp add: z_def bslash_plain html_plain_def bslash_def)
    ultimately show ?thesis using 2 "2.IH"(2) by (simp only: html_escape_all_plain) auto
  next
    case 3
    then have "html_escape (c # r) = c # html_escape r" by auto
    moreover have "html_escape (c # html_escape r) = c # html_escape (html_escape r)"
      using 3 html_escape_no_sep [of r] by auto
    ultimately show ?thesis using 3 "2.IH"(3) by auto
  next
    case 4
    then show ?thesis using "2.IH"(3) by (auto simp: html_escape_plain html_plain_def simp del: html_escape.simps)
  qed
qed simp

lemma json_escape_idem: "json_escape (json_escape j) = json_escape j"
  by (induction j) (auto simp: html_escape_idem intro: snds.intros)

lemma parse_json_print:
  assumes "wf_json j" "json_depth j \<le> maxNestingDepth"
  shows "parse_json (json_print j) = Some j"
  using parse_print [of j "[]" "Suc (length (json_print j))"] assms
  by (simp add: parse_json_def delim_def skip_ws_def)

lemma json_compact_Inr:
  assumes "json_compact s = Inr t"
  obtains j where "parse_json s = Some j" "t = json_print (json_escape j)" "wf_json j"
    "json_depth j \<le> maxNestingDepth"
  using assms that
  by (auto simp: json_compact_def parse_json_def split: option.splits if_splits dest: parse_value_wf
      simp del: parse_value.simps)

text \<open>Compacting is idempotent: text that has been through the log once is stable from then on.\<close>

lemma json_compact_idem:
  assumes "json_compact s = Inr t"
  shows "json_compact t = Inr t"
proof -
  obtain j where j: "parse_json s = Some j" "t = json_print (json_escape j)" "wf_json j"
    "json_depth j \<le> maxNestingDepth"
    using assms by (rule json_compact_Inr)
  then have "parse_json t = Some (json_escape j)"
    by (simp add: parse_json_print wf_json_escape)
  then show ?thesis by (simp add: json_compact_def json_escape_idem j(2))
qed

end
