(* ===== verification/Json_Struct.thy ===== *)
theory Json_Struct
  imports Json
begin

text \<open>
  How \<open>encoding/json\<close> writes and reads the fields of a struct: string quoting with its UTF-8 and
  HTML rules, unquoting, 64-bit integers, and the walk over the members of an object. Field names
  match exactly first and then case-insensitively (ASCII folding).
\<close>

section \<open>UTF-8\<close>

definition cont :: "char \<Rightarrow> bool" where
  "cont c \<longleftrightarrow> 128 \<le> code c \<and> code c \<le> 191"

text \<open>The length of the valid encoding at the head of the text, 0 if there is none.\<close>

definition utf8_len :: "string \<Rightarrow> nat" where
  "utf8_len s =
     (let n = map code (take 4 s); k = length (takeWhile cont (take 3 (tl s))) in
      if n = [] then 0
      else if hd n < 128 then 1
      else if 194 \<le> hd n \<and> hd n \<le> 223 then (if 1 \<le> k then 2 else 0)
      else if 224 \<le> hd n \<and> hd n \<le> 239 then
        (if 2 \<le> k \<and> (hd n = 224 \<longrightarrow> 160 \<le> n ! 1) \<and> (hd n = 237 \<longrightarrow> n ! 1 \<le> 159) then 3 else 0)
      else if 240 \<le> hd n \<and> hd n \<le> 244 then
        (if 3 \<le> k \<and> (hd n = 240 \<longrightarrow> 144 \<le> n ! 1) \<and> (hd n = 244 \<longrightarrow> n ! 1 \<le> 143) then 4 else 0)
      else 0)"

definition chr :: "nat \<Rightarrow> char" where
  "chr n = char_of n"

definition utf8_encode :: "nat \<Rightarrow> string" where
  "utf8_encode r =
     (if r < 128 then [chr r]
      else if r < 2048 then [chr (192 + r div 64), chr (128 + r mod 64)]
      else if r < 65536 then [chr (224 + r div 4096), chr (128 + r div 64 mod 64), chr (128 + r mod 64)]
      else [chr (240 + r div 262144), chr (128 + r div 4096 mod 64), chr (128 + r div 64 mod 64),
            chr (128 + r mod 64)])"

section \<open>Quoting\<close>

definition quote_ascii :: "char \<Rightarrow> string" where
  "quote_ascii c =
     (if c = dquote \<or> c = bslash then [bslash, c]
      else if c = CHR 0x08 then [bslash, CHR ''b'']
      else if c = CHR 0x0C then [bslash, CHR ''f'']
      else if c = CHR 0x0A then [bslash, CHR ''n'']
      else if c = CHR 0x0D then [bslash, CHR ''r'']
      else if c = CHR 0x09 then [bslash, CHR ''t'']
      else if code c < 32 \<or> c = CHR ''<'' \<or> c = CHR ''>'' \<or> c = CHR 0x26 then u_escape c
      else [c])"

function json_quote :: "string \<Rightarrow> string" where
  "json_quote s =
     (if s = [] then []
      else if code (hd s) < 128 then quote_ascii (hd s) @ json_quote (tl s)
      else if utf8_len s = 0 then bslash # ''ufffd'' @ json_quote (tl s)
      else if take 3 s = [CHR 0xE2, CHR 0x80, CHR 0xA8] then bslash # ''u2028'' @ json_quote (drop 3 s)
      else if take 3 s = [CHR 0xE2, CHR 0x80, CHR 0xA9] then bslash # ''u2029'' @ json_quote (drop 3 s)
      else take (utf8_len s) s @ json_quote (drop (utf8_len s) s))"
  by pat_completeness auto
termination
  by (relation "measure length") auto

section \<open>Unquoting\<close>

definition hex_val :: "char \<Rightarrow> nat" where
  "hex_val c = (if is_digit c then code c - 48 else if 97 \<le> code c then code c - 87 else code c - 55)"

definition hex4 :: "string \<Rightarrow> nat" where
  "hex4 s = foldl (\<lambda>a c. a * 16 + hex_val c) 0 (take 4 s)"

definition is_surrogate :: "nat \<Rightarrow> bool" where
  "is_surrogate r \<longleftrightarrow> 55296 \<le> r \<and> r < 57344"

text \<open>A low surrogate escape right after a high one, giving the joined rune.\<close>

definition surrogate_pair :: "nat \<Rightarrow> string \<Rightarrow> nat option" where
  "surrogate_pair r s =
     (if r < 56320 \<and> take 2 s = [bslash, CHR ''u''] \<and> 6 \<le> length s
         \<and> 56320 \<le> hex4 (drop 2 s) \<and> hex4 (drop 2 s) < 57344
      then Some (65536 + (r - 55296) * 1024 + (hex4 (drop 2 s) - 56320)) else None)"

definition unquote_esc :: "char \<Rightarrow> char" where
  "unquote_esc e =
     (if e = CHR ''b'' then CHR 0x08 else if e = CHR ''f'' then CHR 0x0C
      else if e = CHR ''n'' then CHR 0x0A else if e = CHR ''r'' then CHR 0x0D
      else if e = CHR ''t'' then CHR 0x09 else e)"

function json_unquote :: "string \<Rightarrow> string" where
  "json_unquote s =
     (if s = [] then []
      else if hd s = bslash then
        (if take 1 (tl s) = ''u'' then
           (let r = hex4 (drop 2 s) in
            if is_surrogate r then
              (case surrogate_pair r (drop 6 s) of
                 Some rr \<Rightarrow> utf8_encode rr @ json_unquote (drop 12 s)
               | None \<Rightarrow> utf8_encode 65533 @ json_unquote (drop 6 s))
            else utf8_encode r @ json_unquote (drop 6 s))
         else map unquote_esc (take 1 (tl s)) @ json_unquote (drop 2 s))
      else if code (hd s) < 128 then hd s # json_unquote (tl s)
      else if utf8_len s = 0 then utf8_encode 65533 @ json_unquote (tl s)
      else take (utf8_len s) s @ json_unquote (drop (utf8_len s) s))"
  by pat_completeness auto
termination
  by (relation "measure length") auto

declare json_quote.simps [simp del] json_unquote.simps [simp del]

section \<open>Integers\<close>

fun show_nat :: "nat \<Rightarrow> string" where
  "show_nat n = (if n < 10 then [chr (48 + n)] else show_nat (n div 10) @ [chr (48 + n mod 10)])"

declare show_nat.simps [simp del]

definition show_int :: "int \<Rightarrow> string" where
  "show_int i = (if i < 0 then CHR ''-'' # show_nat (nat (- i)) else show_nat (nat i))"

definition read_nat :: "string \<Rightarrow> nat option" where
  "read_nat s =
     (if s \<noteq> [] \<and> list_all is_digit s then Some (foldl (\<lambda>a c. a * 10 + (code c - 48)) 0 s) else None)"

definition ParseInt64 :: "string \<Rightarrow> int option" where
  "ParseInt64 s =
     (let neg = (s \<noteq> [] \<and> hd s = CHR ''-'')
      in case read_nat (if neg then tl s else s) of
           None \<Rightarrow> None
         | Some n \<Rightarrow> (let i = (if neg then - int n else int n)
                     in if - (2 ^ 63) \<le> i \<and> i < 2 ^ 63 then Some i else None))"

definition ParseUint64 :: "string \<Rightarrow> 64 word option" where
  "ParseUint64 s = (case read_nat s of
      None \<Rightarrow> None | Some n \<Rightarrow> if int n < 2 ^ 64 then Some (of_nat n) else None)"

section \<open>Struct fields\<close>

text \<open>The members of an object with the raw text of their values.\<close>

fun raw_members :: "nat \<Rightarrow> string \<Rightarrow> (string \<times> string) list" where
  "raw_members 0 s = []"
| "raw_members (Suc f) s =
     (case str_body (tl (skip_ws s)) of
        None \<Rightarrow> []
      | Some (k, r1) \<Rightarrow>
          (let r2 = skip_ws (tl (skip_ws r1)) in
           case parse_value (Suc (length r2)) r2 of
             None \<Rightarrow> []
           | Some (v, r3) \<Rightarrow>
               (k, take (length r2 - length r3) r2)
               # (if take 1 (skip_ws r3) = '','' then raw_members f (tl (skip_ws r3)) else [])))"

definition unmarshal_members :: "string \<Rightarrow> (string \<times> string) list result" where
  "unmarshal_members s = (case parse_json s of
      None \<Rightarrow> Inl (ErrOther ''json'')
    | Some j \<Rightarrow> (case j of
         JObj ms \<Rightarrow> Inr (if ms = [] then [] else raw_members (length s) (tl (skip_ws s)))
       | JLit l \<Rightarrow> (if l = ''null'' then Inr [] else Inl (ErrOther ''json''))
       | _ \<Rightarrow> Inl (ErrOther ''json'')))"

definition fold_char :: "char \<Rightarrow> char" where
  "fold_char c = (if 65 \<le> code c \<and> code c \<le> 90 then chr (code c + 32) else c)"

definition match_field :: "string list \<Rightarrow> string \<Rightarrow> string option" where
  "match_field names raw_key =
     (let k = json_unquote raw_key
      in if k \<in> set names then Some k
         else find (\<lambda>n. map fold_char n = map fold_char k) names)"

text \<open>Decoding one field value over its current value; \<open>null\<close> leaves it as it is.\<close>

definition field_string :: "string \<Rightarrow> string \<Rightarrow> string result" where
  "field_string raw old = (case parse_json raw of
      Some (JStr x) \<Rightarrow> Inr (json_unquote x)
    | Some (JLit l) \<Rightarrow> if l = ''null'' then Inr old else Inl (ErrOther ''json'')
    | _ \<Rightarrow> Inl (ErrOther ''json''))"

definition field_number :: "(string \<Rightarrow> 'a option) \<Rightarrow> string \<Rightarrow> 'a \<Rightarrow> 'a result" where
  "field_number conv raw old = (case parse_json raw of
      Some (JNum t) \<Rightarrow> (case conv t of Some n \<Rightarrow> Inr n | None \<Rightarrow> Inl (ErrOther ''json''))
    | Some (JLit l) \<Rightarrow> if l = ''null'' then Inr old else Inl (ErrOther ''json'')
    | _ \<Rightarrow> Inl (ErrOther ''json''))"

text \<open>Go decodes every member and reports the first error at the end.\<close>

fun fold_fields :: "(string \<Rightarrow> string \<Rightarrow> 'r \<Rightarrow> 'r result) \<Rightarrow> string list \<Rightarrow> (string \<times> string) list
    \<Rightarrow> 'r \<Rightarrow> 'r result" where
  "fold_fields step names [] r = Inr r"
| "fold_fields step names ((k, raw) # ms) r =
     (case match_field names k of
        None \<Rightarrow> fold_fields step names ms r
      | Some n \<Rightarrow> (case step n raw r of
           Inl e \<Rightarrow> Inl e
         | Inr r' \<Rightarrow> fold_fields step names ms r'))"

section \<open>Facts\<close>

text \<open>The strings the program itself serialises (names, identifiers, orderings) contain only
  characters JSON copies unchanged.\<close>

definition plain_char :: "char \<Rightarrow> bool" where
  "plain_char c \<longleftrightarrow> 32 \<le> code c \<and> code c < 127 \<and> c \<noteq> dquote \<and> c \<noteq> bslash \<and> html_plain c"

definition plain :: "string \<Rightarrow> bool" where
  "plain s \<longleftrightarrow> list_all plain_char s"

lemma plain_simps: "plain []" "plain (c # s) \<longleftrightarrow> plain_char c \<and> plain s"
  "plain (s @ t) \<longleftrightarrow> plain s \<and> plain t"
  by (auto simp: plain_def)

lemma quote_ascii_plain: "plain_char c \<Longrightarrow> quote_ascii c = [c]"
proof -
  assume p: "plain_char c"
  then have ge: "32 \<le> code c" and ne: "c \<noteq> dquote" "c \<noteq> bslash" "html_plain c"
    by (auto simp: plain_char_def)
  have "c \<noteq> CHR 0x08" "c \<noteq> CHR 0x0C" "c \<noteq> CHR 0x0A" "c \<noteq> CHR 0x0D" "c \<noteq> CHR 0x09"
    using ge by (auto simp: code_def)
  then show ?thesis using ge ne by (simp add: quote_ascii_def html_plain_def)
qed

lemma json_quote_plain: "plain s \<Longrightarrow> json_quote s = s"
proof (induction s)
  case (Cons c s)
  then show ?case
    by (subst json_quote.simps) (auto simp: quote_ascii_plain plain_char_def plain_simps)
qed (simp add: json_quote.simps)

lemma json_unquote_plain: "plain s \<Longrightarrow> json_unquote s = s"
proof (induction s)
  case (Cons c s)
  then show ?case by (subst json_unquote.simps) (auto simp: plain_char_def plain_simps)
qed (simp add: json_unquote.simps)

lemma vstr_plain: "plain s \<Longrightarrow> vstr s"
proof (induction s)
  case (Cons c s)
  then have "vstr ([c] @ s)"
    by (intro vstr_item is_item_single) (auto simp: plain_char_def plain_simps)
  then show ?case by simp
qed (simp add: vstr_Nil)

lemma code_chr [simp]: "n < 256 \<Longrightarrow> code (chr n) = n"
  by (simp add: code_def chr_def)

lemma is_digit_chr [simp]: "n < 10 \<Longrightarrow> is_digit (chr (48 + n))"
  by (simp add: is_digit_def)

lemma show_nat_digits: "show_nat n \<noteq> [] \<and> list_all is_digit (show_nat n)"
proof (induction n rule: show_nat.induct)
  case (1 n)
  then show ?case by (subst show_nat.simps) (auto simp: show_nat.simps [of n])
qed

lemma foldl_digits: "foldl (\<lambda>a c. a * 10 + (code c - 48)) 0 (show_nat n) = n"
proof (induction n rule: show_nat.induct)
  case (1 n)
  then show ?case by (subst show_nat.simps) auto
qed

lemma read_show_nat [simp]: "read_nat (show_nat n) = Some n"
  using show_nat_digits [of n] by (simp add: read_nat_def foldl_digits)

lemma code_zero: "code (CHR ''0'') = 48"
  by (simp add: code_def)

lemma chr_zero: "chr 48 = CHR ''0''"
  using char_of_char [of "CHR ''0''", where 'a = nat] by (simp add: chr_def)

lemma show_nat_hd_zero: "0 < n \<Longrightarrow> hd (show_nat n) \<noteq> CHR ''0''"
proof (induction n rule: show_nat.induct)
  case (1 n)
  show ?case
  proof (cases "n < 10")
    case True
    have "chr (48 + n) \<noteq> CHR ''0''"
    proof
      assume "chr (48 + n) = CHR ''0''"
      then have "code (chr (48 + n)) = 48" by (simp only: code_zero)
      then show False using True "1.prems" by simp
    qed
    then show ?thesis using True by (subst show_nat.simps) auto
  next
    case False
    then show ?thesis using 1 show_nat_digits [of "n div 10"] by (subst show_nat.simps) (auto simp: hd_append)
  qed
qed

lemma digit_not_minus: "is_digit c \<Longrightarrow> c \<noteq> CHR ''-''"
  by (auto simp: is_digit_def code_def)

lemma show_nat_not_minus: "hd (show_nat n) \<noteq> CHR ''-''"
  using show_nat_digits [of n] digit_not_minus by (cases "show_nat n") auto

lemma num_int_show_nat: "num_int (show_nat n) = Some []"
proof (cases "n = 0")
  case True
  then show ?thesis by (simp add: num_int_def show_nat.simps chr_zero)
next
  case False
  then show ?thesis
    using show_nat_digits [of n] show_nat_hd_zero [of n] show_nat_not_minus [of n]
    by (cases "show_nat n") (auto simp: num_int_def digits1_def list_all_iff)
qed

lemma valid_num_show_nat: "valid_num (show_nat n)"
  by (simp add: valid_num_def num_int_show_nat num_frac_def num_exp_def)

lemma valid_num_show_int: "valid_num (show_int i)"
proof (cases "i < 0")
  case True
  then have "num_int (show_int i) = num_int (show_nat (nat (- i)))"
    using show_nat_not_minus [of "nat (- i)"] by (simp add: show_int_def num_int_def)
  then show ?thesis by (simp add: valid_num_def num_int_show_nat num_frac_def num_exp_def)
next
  case False
  then show ?thesis by (simp add: show_int_def valid_num_show_nat)
qed

definition int64 :: "int \<Rightarrow> bool" where
  "int64 i \<longleftrightarrow> - (2 ^ 63) \<le> i \<and> i < 2 ^ 63"

lemma ParseInt64_show [simp]: "int64 i \<Longrightarrow> ParseInt64 (show_int i) = Some i"
  using show_nat_not_minus [of "nat i"] show_nat_digits [of "nat i"]
  by (auto simp: ParseInt64_def show_int_def int64_def Let_def)

lemma ParseUint64_show [simp]: "ParseUint64 (show_nat (unat w)) = Some w"
  using unsigned_less [where w = w and 'a = int] by (simp add: ParseUint64_def)

lemma raw_members_print:
  assumes "\<forall>m\<in>set ms. vstr (fst m) \<and> wf_json (snd m)" "ms \<noteq> []" "length ms \<le> f"
  shows "raw_members f (join (map print_member ms) @ CHR ''}'' # r)
    = map (\<lambda>m. (fst m, json_print (snd m))) ms"
  using assms
proof (induction ms arbitrary: f)
  case (Cons m ms)
  then obtain f' where f: "f = Suc f'" by (cases f) auto
  obtain k v where m: "m = (k, v)" by (cases m)
  define rest where "rest = (if ms = [] then [] else CHR '','' # join (map print_member ms)) @ CHR ''}'' # r"
  have eq: "join (map print_member (m # ms)) @ CHR ''}'' # r
      = dquote # k @ dquote # CHR '':'' # json_print v @ rest"
    by (simp only: join_map_Cons rest_def) (simp add: print_member_def m)
  have "delim rest" by (auto simp: rest_def delim_def)
  then have v: "parse_value (Suc (length (json_print v @ rest))) (json_print v @ rest) = Some (v, rest)"
    using Cons.prems m by (intro parse_print) auto
  have k: "str_body (k @ dquote # CHR '':'' # json_print v @ rest) = Some (k, CHR '':'' # json_print v @ rest)"
    using Cons.prems m by (intro vstr_str_body) simp
  have wf: "wf_json v" using Cons.prems m by simp
  show ?case
  proof (cases "ms = []")
    case True
    then show ?thesis using v k f wf
      by (subst eq) (simp add: rest_def m Let_def del: parse_value.simps)
  next
    case False
    then have "raw_members f' (join (map print_member ms) @ CHR ''}'' # r)
        = map (\<lambda>m. (fst m, json_print (snd m))) ms"
      using Cons f by auto
    then show ?thesis using v k f False wf
      by (subst eq) (simp add: rest_def m Let_def del: parse_value.simps)
  qed
qed simp

lemma length_join_print: "length ms \<le> length (join (map print_member ms))"
  by (induction ms) (auto simp: join_Cons print_member_def)

lemma unmarshal_members_print:
  assumes "wf_json (JObj ms)" "json_depth (JObj ms) \<le> maxNestingDepth" "ms \<noteq> []"
  shows "unmarshal_members (json_print (JObj ms)) = Inr (map (\<lambda>m. (fst m, json_print (snd m))) ms)"
  using parse_json_print [OF assms(1,2)] raw_members_print [of ms "length (json_print (JObj ms))" "[]"]
    length_join_print [of ms] assms
  unfolding unmarshal_members_def json_print_JObj by simp

lemma field_string_plain: "plain s \<Longrightarrow> field_string (json_print (JStr s)) old = Inr s"
  using parse_json_print [of "JStr s"]
  by (simp add: field_string_def vstr_plain json_unquote_plain maxNestingDepth_def)

lemma field_number_print: "valid_num t \<Longrightarrow> conv t = Some n \<Longrightarrow> field_number conv (json_print (JNum t)) old = Inr n"
  using parse_json_print [of "JNum t"] by (simp add: field_number_def maxNestingDepth_def)

lemma match_field_exact: "plain k \<Longrightarrow> k \<in> set names \<Longrightarrow> match_field names k = Some k"
  by (simp add: match_field_def json_unquote_plain)

end
