(* ===== verification/Frames.thy ===== *)
theory Frames
  imports Json_Struct Message
begin

text \<open>
  \<open>internal/storage/record.go\<close>: the four record types of the log, their JSON payloads, the framing
  \<open>[uint32 length][uint8 type][payload][uint32 CRC-32C]\<close> and the 16-byte file header.
\<close>

section \<open>Records\<close>

definition MaxRecordSize :: nat where
  "MaxRecordSize = 8 * 2 ^ 20"

definition lengthSize :: nat where
  "lengthSize = 4"

definition typeSize :: nat where
  "typeSize = 1"

definition crcSize :: nat where
  "crcSize = 4"

definition frameOverhead :: nat where
  "frameOverhead = lengthSize + typeSize + crcSize"

definition fileHeaderSize :: nat where
  "fileHeaderSize = 16"

definition formatVersion :: "32 word" where
  "formatVersion = 1"

definition magic :: bytes where
  "magic = bytes_of ''QMXLOG'' @ [0, 0]"

type_synonym RecordType = byte

definition TypeInvalid :: RecordType where
  "TypeInvalid = 0"

definition TypeHeader :: RecordType where
  "TypeHeader = 1"

definition TypeEnqueue :: RecordType where
  "TypeEnqueue = 2"

definition TypeAck :: RecordType where
  "TypeAck = 3"

definition TypeNack :: RecordType where
  "TypeNack = 4"

definition valid_type :: "RecordType \<Rightarrow> bool" where
  "valid_type t \<longleftrightarrow> TypeHeader \<le> t \<and> t \<le> TypeNack"

definition RecordType_String :: "RecordType \<Rightarrow> string" where
  "RecordType_String t =
     (if t = TypeHeader then ''HEADER'' else if t = TypeEnqueue then ''ENQUEUE''
      else if t = TypeAck then ''ACK'' else if t = TypeNack then ''NACK''
      else ''INVALID('' @ show_nat (unat t) @ '')'')"

record Header =
  h_Name :: string
  h_Ordering :: string
  h_CreatedAt :: int
  h_NextSeq :: "64 word"
  h_TotalEnqueued :: "64 word"
  h_TotalAcked :: "64 word"

record Enqueue =
  e_ID :: string
  e_Seq :: "64 word"
  e_Priority :: int
  e_CreatedAt :: int
  e_AvailableAt :: int
  e_Body :: RawMessage

record Ack =
  a_ID :: string

record Nack =
  n_ID :: string
  n_AvailableAt :: int

datatype Record = RHeader Header | REnqueue Enqueue | RAck Ack | RNack Nack

fun recordType :: "Record \<Rightarrow> RecordType" where
  "recordType (RHeader _) = TypeHeader"
| "recordType (REnqueue _) = TypeEnqueue"
| "recordType (RAck _) = TypeAck"
| "recordType (RNack _) = TypeNack"

section \<open>Payloads\<close>

definition jstr :: "string \<Rightarrow> json" where
  "jstr s = JStr (json_quote s)"

definition jint :: "int \<Rightarrow> json" where
  "jint i = JNum (show_int i)"

definition juint :: "64 word \<Rightarrow> json" where
  "juint w = JNum (show_nat (unat w))"

fun record_fields :: "Record \<Rightarrow> (string \<times> json) list result" where
  "record_fields (RHeader h) = Inr
     [(''name'', jstr (h_Name h)), (''ordering'', jstr (h_Ordering h)),
      (''created_at'', jint (h_CreatedAt h)), (''next_seq'', juint (h_NextSeq h)),
      (''total_enqueued'', juint (h_TotalEnqueued h)), (''total_acked'', juint (h_TotalAcked h))]"
| "record_fields (REnqueue e) = (case parse_json (e_Body e) of
      None \<Rightarrow> Inl (ErrOther ''marshal'')
    | Some j \<Rightarrow> Inr
     [(''id'', jstr (e_ID e)), (''seq'', juint (e_Seq e)), (''priority'', jint (e_Priority e)),
      (''created_at'', jint (e_CreatedAt e)), (''available_at'', jint (e_AvailableAt e)),
      (''body'', json_escape j)])"
| "record_fields (RAck a) = Inr [(''id'', jstr (a_ID a))]"
| "record_fields (RNack n) = Inr [(''id'', jstr (n_ID n)), (''available_at'', jint (n_AvailableAt n))]"

definition json_Marshal :: "Record \<Rightarrow> bytes result" where
  "json_Marshal rec = (case record_fields rec of
      Inl e \<Rightarrow> Inl e | Inr ms \<Rightarrow> Inr (bytes_of (json_print (JObj ms))))"

definition encodeFrame :: "Record \<Rightarrow> bytes result" where
  "encodeFrame rec =
     (if (case rec of REnqueue e \<Rightarrow> e_Body e = [] | _ \<Rightarrow> False) then Inl (ErrOther ''empty body'')
      else case json_Marshal rec of
        Inl e \<Rightarrow> Inl e
      | Inr payload \<Rightarrow>
          if length payload = 0 then Inl (ErrOther ''empty payload'')
          else if length payload > MaxRecordSize then Inl (ErrOther ''payload too large'')
          else (let body = PutUint32 (of_nat (length payload)) @ [recordType rec] @ payload
                in Inr (body @ PutUint32 (crc32_Checksum body))))"

definition upd_field :: "('a result) \<Rightarrow> ('a \<Rightarrow> 'r) \<Rightarrow> 'r result" where
  "upd_field res upd = (case res of Inl e \<Rightarrow> Inl e | Inr x \<Rightarrow> Inr (upd x))"

definition header_field :: "string \<Rightarrow> string \<Rightarrow> Header \<Rightarrow> Header result" where
  "header_field n raw r =
     (if n = ''name'' then upd_field (field_string raw (h_Name r)) (\<lambda>x. r\<lparr>h_Name := x\<rparr>)
      else if n = ''ordering'' then upd_field (field_string raw (h_Ordering r)) (\<lambda>x. r\<lparr>h_Ordering := x\<rparr>)
      else if n = ''created_at'' then upd_field (field_number ParseInt64 raw (h_CreatedAt r)) (\<lambda>x. r\<lparr>h_CreatedAt := x\<rparr>)
      else if n = ''next_seq'' then upd_field (field_number ParseUint64 raw (h_NextSeq r)) (\<lambda>x. r\<lparr>h_NextSeq := x\<rparr>)
      else if n = ''total_enqueued'' then upd_field (field_number ParseUint64 raw (h_TotalEnqueued r)) (\<lambda>x. r\<lparr>h_TotalEnqueued := x\<rparr>)
      else upd_field (field_number ParseUint64 raw (h_TotalAcked r)) (\<lambda>x. r\<lparr>h_TotalAcked := x\<rparr>))"

definition enqueue_field :: "string \<Rightarrow> string \<Rightarrow> Enqueue \<Rightarrow> Enqueue result" where
  "enqueue_field n raw r =
     (if n = ''id'' then upd_field (field_string raw (e_ID r)) (\<lambda>x. r\<lparr>e_ID := x\<rparr>)
      else if n = ''seq'' then upd_field (field_number ParseUint64 raw (e_Seq r)) (\<lambda>x. r\<lparr>e_Seq := x\<rparr>)
      else if n = ''priority'' then upd_field (field_number ParseInt64 raw (e_Priority r)) (\<lambda>x. r\<lparr>e_Priority := x\<rparr>)
      else if n = ''created_at'' then upd_field (field_number ParseInt64 raw (e_CreatedAt r)) (\<lambda>x. r\<lparr>e_CreatedAt := x\<rparr>)
      else if n = ''available_at'' then upd_field (field_number ParseInt64 raw (e_AvailableAt r)) (\<lambda>x. r\<lparr>e_AvailableAt := x\<rparr>)
      else Inr (r\<lparr>e_Body := raw\<rparr>))"

definition ack_field :: "string \<Rightarrow> string \<Rightarrow> Ack \<Rightarrow> Ack result" where
  "ack_field n raw r = upd_field (field_string raw (a_ID r)) (\<lambda>x. r\<lparr>a_ID := x\<rparr>)"

definition nack_field :: "string \<Rightarrow> string \<Rightarrow> Nack \<Rightarrow> Nack result" where
  "nack_field n raw r =
     (if n = ''id'' then upd_field (field_string raw (n_ID r)) (\<lambda>x. r\<lparr>n_ID := x\<rparr>)
      else upd_field (field_number ParseInt64 raw (n_AvailableAt r)) (\<lambda>x. r\<lparr>n_AvailableAt := x\<rparr>))"

definition json_Unmarshal :: "(string \<Rightarrow> string \<Rightarrow> 'r \<Rightarrow> 'r result) \<Rightarrow> string list \<Rightarrow> 'r \<Rightarrow> bytes \<Rightarrow> 'r result" where
  "json_Unmarshal step names zero payload = (case unmarshal_members (string_of payload) of
      Inl e \<Rightarrow> Inl e | Inr ms \<Rightarrow> fold_fields step names ms zero)"

definition zero_header :: Header where
  "zero_header = \<lparr>h_Name = '''', h_Ordering = '''', h_CreatedAt = 0, h_NextSeq = 0,
     h_TotalEnqueued = 0, h_TotalAcked = 0\<rparr>"

definition zero_enqueue :: Enqueue where
  "zero_enqueue = \<lparr>e_ID = '''', e_Seq = 0, e_Priority = 0, e_CreatedAt = 0, e_AvailableAt = 0, e_Body = ''''\<rparr>"

definition decodePayload :: "RecordType \<Rightarrow> bytes \<Rightarrow> Record result" where
  "decodePayload t payload =
     (if t = TypeHeader then map_sum id RHeader
        (json_Unmarshal header_field [''name'', ''ordering'', ''created_at'', ''next_seq'', ''total_enqueued'', ''total_acked''] zero_header payload)
      else if t = TypeEnqueue then map_sum id REnqueue
        (json_Unmarshal enqueue_field [''id'', ''seq'', ''priority'', ''created_at'', ''available_at'', ''body''] zero_enqueue payload)
      else if t = TypeAck then map_sum id RAck
        (json_Unmarshal ack_field [''id''] \<lparr>a_ID = ''''\<rparr> payload)
      else if t = TypeNack then map_sum id RNack
        (json_Unmarshal nack_field [''id'', ''available_at''] \<lparr>n_ID = '''', n_AvailableAt = 0\<rparr> payload)
      else Inl (ErrOther ''unknown record type''))"

section \<open>File header\<close>

definition encodeFileHeader :: bytes where
  "encodeFileHeader = magic @ PutUint32 formatVersion @ [0, 0, 0, 0]"

definition checkFileHeader :: "bytes \<Rightarrow> goerror option" where
  "checkFileHeader b =
     (if length b < fileHeaderSize then Some (ErrOther ''short file header'')
      else if take 8 b \<noteq> magic then Some (ErrOther ''bad magic'')
      else if Uint32 (take 4 (drop 8 b)) \<noteq> formatVersion then Some (ErrOther ''format version'')
      else None)"

section \<open>Facts\<close>

lemma string_of_bytes_of [simp]: "string_of (bytes_of s) = s"
proof -
  have "char_of (unat (byte_of_char c)) = c" for c
  proof -
    have "byte_of_char c = of_nat (of_char c)"
      unfolding byte_of_char_def by (rule of_nat_of_char [symmetric])
    then have "unat (byte_of_char c) = of_char c"
      using nat_of_char_less_256 [of c] by (simp only: unat_of_nat) simp
    then show ?thesis by simp
  qed
  then show ?thesis by (simp add: string_of_def bytes_of_def map_idI comp_def)
qed

text \<open>Records whose strings are plain and whose integers fit their Go types; every record the
  engine appends is of this form.\<close>

fun rec_ok :: "Record \<Rightarrow> bool" where
  "rec_ok (RHeader h) \<longleftrightarrow> plain (h_Name h) \<and> plain (h_Ordering h) \<and> int64 (h_CreatedAt h)"
| "rec_ok (REnqueue e) \<longleftrightarrow> plain (e_ID e) \<and> int64 (e_Priority e) \<and> int64 (e_CreatedAt e)
     \<and> int64 (e_AvailableAt e)
     \<and> (case parse_json (e_Body e) of None \<Rightarrow> False | Some j \<Rightarrow> json_depth j < maxNestingDepth)"
| "rec_ok (RAck a) \<longleftrightarrow> plain (a_ID a)"
| "rec_ok (RNack n) \<longleftrightarrow> plain (n_ID n) \<and> int64 (n_AvailableAt n)"

text \<open>What reading a record back gives: the body in its compacted, escaped form.\<close>

definition compact_body :: "RawMessage \<Rightarrow> RawMessage" where
  "compact_body b = (case json_compact b of Inl _ \<Rightarrow> b | Inr t \<Rightarrow> t)"

fun canon :: "Record \<Rightarrow> Record" where
  "canon (REnqueue e) = REnqueue (e\<lparr>e_Body := compact_body (e_Body e)\<rparr>)"
| "canon r = r"

lemma compact_body_idem [simp]: "compact_body (compact_body b) = compact_body b"
  by (auto simp: compact_body_def json_compact_idem split: sum.splits)

lemma canon_idem [simp]: "canon (canon r) = canon r"
  by (cases r) auto

lemma wf_jstr: "plain s \<Longrightarrow> wf_json (jstr s)"
  by (simp add: jstr_def json_quote_plain vstr_plain)

lemma wf_jint: "wf_json (jint i)"
  by (simp add: jint_def valid_num_show_int)

lemma wf_juint: "wf_json (juint w)"
  by (simp add: juint_def valid_num_show_nat)

lemma depth_j [simp]: "json_depth (jstr s) = 0" "json_depth (jint i) = 0" "json_depth (juint w) = 0"
  by (simp_all add: jstr_def jint_def juint_def)

lemma field_jstr: "plain s \<Longrightarrow> field_string (json_print (jstr s)) old = Inr s"
  using field_string_plain [of s old] by (simp add: jstr_def json_quote_plain)

lemma field_jint: "int64 i \<Longrightarrow> field_number ParseInt64 (json_print (jint i)) old = Inr i"
  unfolding jint_def by (rule field_number_print) (simp_all add: valid_num_show_int)

lemma field_juint: "field_number ParseUint64 (json_print (juint w)) old = Inr w"
  unfolding juint_def by (rule field_number_print) (simp_all add: valid_num_show_nat)

lemmas field_roundtrip = field_jstr field_jint field_juint upd_field_def

lemma plain_char_lower: "97 \<le> code c \<and> code c \<le> 122 \<or> c = CHR ''_'' \<Longrightarrow> plain_char c"
  by (auto simp: plain_char_def html_plain_def code_def dquote_def bslash_def)

lemma plain_names [simp]: "plain ''name''" "plain ''ordering''" "plain ''created_at''" "plain ''next_seq''"
  "plain ''total_enqueued''" "plain ''total_acked''" "plain ''id''" "plain ''seq''" "plain ''priority''"
  "plain ''available_at''" "plain ''body''"
  by (simp_all add: plain_simps plain_char_lower code_def)

lemma fold_fields_exact:
  "plain k \<Longrightarrow> k \<in> set names \<Longrightarrow>
   fold_fields step names ((k, raw) # ms) r =
     (case step k raw r of Inl e \<Rightarrow> Inl e | Inr r' \<Rightarrow> fold_fields step names ms r')"
  by (simp add: match_field_exact)

lemma json_Unmarshal_print:
  assumes "wf_json (JObj ms)" "json_depth (JObj ms) \<le> maxNestingDepth" "ms \<noteq> []"
  shows "json_Unmarshal step names z (bytes_of (json_print (JObj ms)))
    = fold_fields step names (map (\<lambda>m. (fst m, json_print (snd m))) ms) z"
  using unmarshal_members_print [OF assms] by (simp add: json_Unmarshal_def)

lemma record_fields_wf:
  assumes "rec_ok r" "record_fields r = Inr ms"
  shows "wf_json (JObj ms)" "json_depth (JObj ms) \<le> maxNestingDepth" "ms \<noteq> []"
proof -
  have wf: "wf_json j \<and> json_depth j \<le> maxNestingDepth" if "parse_json b = Some j" for b j
    using that by (auto simp: parse_json_def split: option.splits if_splits dest: parse_value_wf
        simp del: parse_value.simps)
  show "wf_json (JObj ms)"
    using assms by (cases r) (auto simp: wf_jstr wf_jint wf_juint vstr_plain wf_json_escape
        split: option.splits intro!: wf_json_escape dest: wf)
  show "json_depth (JObj ms) \<le> maxNestingDepth"
    using assms by (cases r) (auto simp: maxNestingDepth_def split: option.splits)
  show "ms \<noteq> []" using assms by (cases r) (auto split: option.splits)
qed

lemma decodePayload_Marshal:
  assumes "rec_ok r" "json_Marshal r = Inr payload"
  shows "decodePayload (recordType r) payload = Inr (canon r)"
proof -
  from assms(2) obtain ms where ms: "record_fields r = Inr ms" "payload = bytes_of (json_print (JObj ms))"
    by (auto simp: json_Marshal_def split: sum.splits)
  note un = json_Unmarshal_print [OF record_fields_wf [OF assms(1) ms(1)], folded ms(2)]
  note types = TypeHeader_def TypeEnqueue_def TypeAck_def TypeNack_def
  show ?thesis
  proof (cases r)
    case (RHeader h)
    then show ?thesis using assms(1) ms(1)
      by (auto simp: decodePayload_def types un fold_fields_exact header_field_def field_roundtrip
          simp del: fold_fields.simps(2))
  next
    case (REnqueue e)
    then obtain j where j: "parse_json (e_Body e) = Some j"
      using assms(1) by (auto split: option.splits)
    then have "compact_body (e_Body e) = json_print (json_escape j)"
      by (simp add: compact_body_def json_compact_def)
    then show ?thesis using assms(1) ms(1) j REnqueue
      by (auto simp: decodePayload_def types un fold_fields_exact enqueue_field_def field_roundtrip
          simp del: fold_fields.simps(2))
  next
    case (RAck a)
    then show ?thesis using assms(1) ms(1)
      by (auto simp: decodePayload_def types un fold_fields_exact ack_field_def field_roundtrip
          simp del: fold_fields.simps(2))
  next
    case (RNack n)
    then show ?thesis using assms(1) ms(1)
      by (auto simp: decodePayload_def types un fold_fields_exact nack_field_def field_roundtrip
          simp del: fold_fields.simps(2))
  qed
qed

lemma length_encodeFileHeader [simp]: "length encodeFileHeader = fileHeaderSize"
  by (simp add: encodeFileHeader_def magic_def bytes_of_def fileHeaderSize_def)

lemma checkFileHeader_encode [simp]: "checkFileHeader encodeFileHeader = None"
proof -
  have "take 8 encodeFileHeader = magic" "drop 8 encodeFileHeader = PutUint32 formatVersion @ [0, 0, 0, 0]"
    by (simp_all add: encodeFileHeader_def magic_def bytes_of_def)
  then show ?thesis by (simp add: checkFileHeader_def)
qed

definition frame_body :: "RecordType \<Rightarrow> bytes \<Rightarrow> bytes" where
  "frame_body t payload = PutUint32 (of_nat (length payload)) @ [t] @ payload"

definition frame_of :: "RecordType \<Rightarrow> bytes \<Rightarrow> bytes" where
  "frame_of t payload = frame_body t payload @ PutUint32 (crc32_Checksum (frame_body t payload))"

lemma length_frame_of [simp, wire_simps]: "length (frame_of t payload) = frameOverhead + length payload"
  by (simp add: frame_of_def frame_body_def frameOverhead_def lengthSize_def typeSize_def crcSize_def)

lemma encodeFrame_Inr:
  assumes "encodeFrame r = Inr fr"
  obtains payload where "json_Marshal r = Inr payload" "0 < length payload"
    "length payload \<le> MaxRecordSize" "fr = frame_of (recordType r) payload"
  using assms that
  by (auto simp: encodeFrame_def frame_of_def frame_body_def Let_def split: if_splits sum.splits)

lemma valid_recordType [simp]: "valid_type (recordType r)"
  by (cases r) (simp_all add: valid_type_def TypeHeader_def TypeEnqueue_def TypeAck_def TypeNack_def)

lemma unat_frame_length:
  "n \<le> MaxRecordSize \<Longrightarrow> unat (of_nat n :: 32 word) = n"
  by (simp add: unat_of_nat MaxRecordSize_def)

end
