(* ===== verification/Storage_Log.thy ===== *)
theory Storage_Log
  imports Disk Frames
begin

text \<open>
  \<open>internal/storage/log.go\<close>: the append-only log file, its fsynced append with rollback, creation,
  closing and removal. All paths are names inside the data directory. The \<open>writeAt\<close> and \<open>sync\<close> test
  seams of the struct are \<open>nil\<close> in the program and not modelled; write and sync failures come from
  the disk's fault list instead.
\<close>

definition logExt :: string where
  "logExt = ''.log''"

definition tmpExt :: string where
  "tmpExt = ''.log.tmp''"

record Log =
  l_f :: "nat option"
  l_path :: string
  l_size :: nat
  l_records :: nat
  l_broken :: "goerror option"

definition syncDir :: "disk \<Rightarrow> goerror option \<times> disk" where
  "syncDir d0 = (case DirOpen d0 of
      (Some e, d1) \<Rightarrow> (Some e, d1)
    | (None, d1) \<Rightarrow> (case DirSync d1 of
        (err, d2) \<Rightarrow> (case FClose 0 d2 of
          (cerr, d3) \<Rightarrow> (if err = None then cerr else err, d3))))"

definition rollback :: "nat \<Rightarrow> goerror \<Rightarrow> Log \<Rightarrow> disk \<Rightarrow> goerror \<times> Log \<times> disk" where
  "rollback to cause l d0 = (case FTruncate (the (l_f l)) to d0 of
      (Some _, d1) \<Rightarrow> (ErrLogBroken, l\<lparr>l_broken := Some ErrLogBroken\<rparr>, d1)
    | (None, d1) \<Rightarrow> (case FSync (the (l_f l)) d1 of
        (Some _, d2) \<Rightarrow> (ErrLogBroken, l\<lparr>l_broken := Some ErrLogBroken\<rparr>, d2)
      | (None, d2) \<Rightarrow> (cause, l, d2)))"

definition io_ErrShortWrite :: goerror where
  "io_ErrShortWrite = ErrOther ''short write''"

definition Log_Append :: "Record \<Rightarrow> Log \<Rightarrow> disk \<Rightarrow> goerror option \<times> Log \<times> disk" where
  "Log_Append rec l d0 =
     (case l_broken l of Some e \<Rightarrow> (Some e, l, d0) | None \<Rightarrow>
      case l_f l of None \<Rightarrow> (Some ErrClosed, l, d0) | Some f \<Rightarrow>
      case encodeFrame rec of Inl e \<Rightarrow> (Some e, l, d0) | Inr frame \<Rightarrow>
      (let at = l_size l in
       case WriteAt f frame at d0 of ((n, werr), d1) \<Rightarrow>
         (let err = (if werr = None \<and> n \<noteq> length frame then Some io_ErrShortWrite else werr) in
          case err of
            Some e \<Rightarrow> (case rollback at e l d1 of (e', l', d2) \<Rightarrow> (Some e', l', d2))
          | None \<Rightarrow> (case FSync f d1 of
               (Some e, d2) \<Rightarrow> (case rollback at e l d2 of (e', l', d3) \<Rightarrow> (Some e', l', d3))
             | (None, d2) \<Rightarrow>
                 (None, l\<lparr>l_size := at + length frame, l_records := l_records l + 1\<rparr>, d2)))))"

definition Log_Records :: "Log \<Rightarrow> nat" where
  "Log_Records l = l_records l"

definition Log_Close :: "Log \<Rightarrow> disk \<Rightarrow> goerror option \<times> Log \<times> disk" where
  "Log_Close l d0 = (case l_f l of
      None \<Rightarrow> (None, l, d0)
    | Some f \<Rightarrow> (case FSync f d0 of
        (err, d1) \<Rightarrow> (case FClose f d1 of
          (cerr, d2) \<Rightarrow> (if err = None then cerr else err, l\<lparr>l_f := None\<rparr>, d2))))"

definition discard :: "Log \<Rightarrow> disk \<Rightarrow> disk" where
  "discard l d = snd (os_Remove (l_path l) (snd (FClose (the (l_f l)) d)))"

definition Create :: "string \<Rightarrow> Header \<Rightarrow> disk \<Rightarrow> Log result \<times> disk" where
  "Create name hdr d0 =
     (case OpenExcl (name @ logExt) d0 of
        (Inl e, d1) \<Rightarrow> (Inl (if e = os_ErrExist then ErrExists else e), d1)
      | (Inr f, d1) \<Rightarrow>
          (let l0 = \<lparr>l_f = Some f, l_path = name @ logExt, l_size = 0, l_records = 0, l_broken = None\<rparr> in
           case WriteAt f encodeFileHeader 0 d1 of
             ((_, Some e), d2) \<Rightarrow> (Inl e, discard l0 d2)
           | ((_, None), d2) \<Rightarrow>
               (case Log_Append (RHeader hdr) (l0\<lparr>l_size := fileHeaderSize\<rparr>) d2 of
                  (Some e, l1, d3) \<Rightarrow> (Inl e, discard l1 d3)
                | (None, l1, d3) \<Rightarrow>
                    (case syncDir d3 of
                       (Some e, d4) \<Rightarrow> (Inl e, discard l1 d4)
                     | (None, d4) \<Rightarrow> (Inr l1, d4)))))"

definition Remove :: "string \<Rightarrow> disk \<Rightarrow> goerror option \<times> disk" where
  "Remove name d0 = (case os_Remove (name @ logExt) d0 of
      (Some e, d1) \<Rightarrow> (Some e, d1)
    | (None, d1) \<Rightarrow> syncDir d1)"

definition EnsureDir :: "disk \<Rightarrow> goerror option \<times> disk" where
  "EnsureDir d0 = (case os_MkdirAll d0 of
      (Some e, d1) \<Rightarrow> (Some e, d1)
    | (None, d1) \<Rightarrow> syncDir d1)"

definition has_suffix :: "string \<Rightarrow> string \<Rightarrow> bool" where
  "has_suffix s suf \<longleftrightarrow> length suf \<le> length s \<and> drop (length s - length suf) s = suf"

definition trim_suffix :: "string \<Rightarrow> string \<Rightarrow> string" where
  "trim_suffix s suf = (if has_suffix s suf then take (length s - length suf) s else s)"

definition ListLogs :: "disk \<Rightarrow> string list result \<times> disk" where
  "ListLogs d0 = (case os_ReadDir d0 of
      (Inl e, d1) \<Rightarrow> (Inl e, d1)
    | (Inr entries, d1) \<Rightarrow>
        (Inr (map (\<lambda>e. trim_suffix (fst e) logExt)
                (filter (\<lambda>e. \<not> (snd e = DDir \<or> \<not> has_suffix (fst e) logExt)) entries)), d1))"

fun clean_entries :: "(string \<times> dirent) list \<Rightarrow> bool \<Rightarrow> disk \<Rightarrow> bool result \<times> disk" where
  "clean_entries [] removed d = (Inr removed, d)"
| "clean_entries (e # es) removed d =
     (if snd e = DDir \<or> \<not> has_suffix (fst e) tmpExt then clean_entries es removed d
      else case os_Remove (fst e) d of
        (Some err, d1) \<Rightarrow> (Inl err, d1)
      | (None, d1) \<Rightarrow> clean_entries es True d1)"

definition CleanTemps :: "disk \<Rightarrow> goerror option \<times> disk" where
  "CleanTemps d0 = (case os_ReadDir d0 of
      (Inl e, d1) \<Rightarrow> (Some e, d1)
    | (Inr entries, d1) \<Rightarrow> (case clean_entries entries False d1 of
        (Inl e, d2) \<Rightarrow> (Some e, d2)
      | (Inr removed, d2) \<Rightarrow> if removed then syncDir d2 else (None, d2)))"

section \<open>The log invariant\<close>

text \<open>The bytes of a record, and of a whole log.\<close>

definition frame :: "Record \<Rightarrow> bytes" where
  "frame r = (case encodeFrame r of Inl _ \<Rightarrow> [] | Inr fr \<Rightarrow> fr)"

definition encodable :: "Record \<Rightarrow> bool" where
  "encodable r \<longleftrightarrow> (case encodeFrame r of Inl _ \<Rightarrow> False | Inr _ \<Rightarrow> True)"

definition log_image :: "Record list \<Rightarrow> bytes" where
  "log_image rs = encodeFileHeader @ concat (map frame rs)"

text \<open>
  An open log on a disk holds the records \<open>rs\<close>: the name leads to the inode the handle has open,
  whose content, current and durable, is exactly the image of \<open>rs\<close>, and the cached size and record
  count agree with it.
\<close>

definition log_holds :: "Record list \<Rightarrow> Log \<Rightarrow> disk \<Rightarrow> bool" where
  "log_holds rs l d \<longleftrightarrow> (case l_f l of None \<Rightarrow> False | Some f \<Rightarrow>
     l_broken l = None \<and> lookup_file (l_path l) d = Some f
     \<and> content d f = log_image rs \<and> synced d f = log_image rs
     \<and> l_size l = length (log_image rs) \<and> l_records l = length rs \<and> list_all encodable rs)"

text \<open>A log that refuses writes: its durable content is still the image of \<open>rs\<close>, and its current
  content is that image, possibly with the beginning of a frame no caller was told about.\<close>

definition log_broken :: "Record list \<Rightarrow> Record \<Rightarrow> Log \<Rightarrow> disk \<Rightarrow> bool" where
  "log_broken rs r l d \<longleftrightarrow> (case l_f l of None \<Rightarrow> False | Some f \<Rightarrow>
     l_broken l = Some ErrLogBroken \<and> lookup_file (l_path l) d = Some f
     \<and> (\<exists>k \<le> length (frame r). content d f = log_image rs @ take k (frame r))
     \<and> synced d f = log_image rs \<and> l_records l = length rs \<and> list_all encodable rs)"

lemma log_image_snoc [simp]: "log_image (rs @ [r]) = log_image rs @ frame r"
  by (simp add: log_image_def)

lemma frame_Inr [simp]: "encodeFrame r = Inr fr \<Longrightarrow> frame r = fr \<and> encodable r"
  by (simp add: frame_def encodable_def)

lemma overwrite_end [simp]: "n = length c \<Longrightarrow> overwrite c n bs = c @ bs"
  by simp

lemmas call_defs = WriteAt_def FSync_def FTruncate_def FClose_def DirOpen_def DirSync_def
  os_Remove_def os_Rename_def OpenExcl_def OpenRdwr_def OpenTrunc_def FStat_def

lemma lookup_file_cong: "dents d' = dents d \<Longrightarrow> lookup_file n d' = lookup_file n d"
  by (simp add: lookup_file_def)

lemma rollback_cases:
  assumes "rollback at e l d = (e', l', d')" "l_f l = Some f" "content d f = img @ ext" "at = length img"
    "synced d f = img"
  shows "dents d' = dents d \<and> synced d' f = img \<and> l_f l' = Some f \<and> l_path l' = l_path l
    \<and> l_size l' = l_size l \<and> l_records l' = l_records l
    \<and> (l' = l \<and> e' = e \<and> content d' f = img
       \<or> l_broken l' = Some ErrLogBroken \<and> e' = ErrLogBroken \<and> (content d' f = img \<or> content d' f = img @ ext))"
  using assms by (auto simp: rollback_def FTruncate_def FSync_def split: prod.splits option.splits
      dest!: next_fault_effect)

lemma WriteAt_end:
  assumes "WriteAt f p at d = ((n, werr), d')" "content d f = c" "at = length c"
  shows "dents d' = dents d \<and> synced d' = synced d \<and> (case werr of
      None \<Rightarrow> n = length p \<and> content d' f = c @ p
    | Some _ \<Rightarrow> \<exists>k \<le> length p. content d' f = c @ take k p)"
proof -
  have "\<exists>k' \<le> length p. take k p = take k' p" for k
    by (rule exI [of _ "min k (length p)"]) (simp add: min_def)
  then show ?thesis using assms
    by (auto simp: WriteAt_def split: prod.splits option.splits dest!: next_fault_effect)
qed

lemma FSync_effect:
  assumes "FSync f d = (err, d')"
  shows "dents d' = dents d \<and> content d' = content d
    \<and> synced d' = (if err = None then (synced d)(f := content d f) else synced d)"
  using assms by (auto simp: FSync_def split: prod.splits option.splits dest!: next_fault_effect)

text \<open>Whatever made an append fail, the rollback leaves the log as it was or refuses all writes.\<close>

lemma append_rolled_back:
  assumes holds: "log_holds rs l d" and f: "l_f l = Some f"
    and d1: "dents d1 = dents d" "synced d1 f = synced d f"
      "k \<le> length (frame r)" "content d1 f = log_image rs @ take k (frame r)"
    and rb: "rollback (l_size l) e l d1 = (e', l', d')"
  shows "l' = l \<and> e' = e \<and> log_holds rs l' d' \<or> e' = ErrLogBroken \<and> log_broken rs r l' d'"
proof -
  have "l_size l = length (log_image rs)" "synced d1 f = log_image rs"
    using holds f d1 by (auto simp: log_holds_def)
  from rollback_cases [OF rb f d1(4) this] show ?thesis
    using holds f d1 by (auto simp: log_holds_def log_broken_def lookup_file_def)
qed

text \<open>A successful append makes everything before it durable too, synced or not.\<close>

lemma Log_Append_ok:
  assumes app: "Log_Append r l d = (None, l', d')"
    and l: "l_f l = Some f" "lookup_file (l_path l) d = Some f" "content d f = log_image rs"
      "l_size l = length (log_image rs)" "l_records l = length rs" "list_all encodable rs"
  shows "log_holds (rs @ [r]) l' d' \<and> l_f l' = Some f \<and> l_path l' = l_path l"
proof -
  obtain fr n d1 where w: "l_broken l = None" "encodeFrame r = Inr fr"
      "WriteAt f fr (l_size l) d = ((n, None), d1)"
      "FSync f d1 = (None, d')" "l' = l\<lparr>l_size := l_size l + length fr, l_records := l_records l + 1\<rparr>"
    using app l by (auto simp: Log_Append_def Let_def split: option.splits sum.splits prod.splits if_splits)
  then show ?thesis using WriteAt_end [OF w(3) l(3,4)] FSync_effect [OF w(4)] l
    by (auto simp: log_holds_def lookup_file_def)
qed

lemma Log_Append_cases:
  assumes holds: "log_holds rs l d" and app: "Log_Append r l d = (err, l', d')"
  shows "case err of None \<Rightarrow> log_holds (rs @ [r]) l' d'
    | Some e \<Rightarrow> l' = l \<and> log_holds rs l' d' \<or> e = ErrLogBroken \<and> log_broken rs r l' d'"
proof -
  obtain f where f: "l_f l = Some f" using holds by (auto simp: log_holds_def split: option.splits)
  note h = holds [unfolded log_holds_def f option.case]
  note unf = Log_Append_def f h Let_def
  show ?thesis
  proof (cases "encodeFrame r")
    case (Inl e)
    then show ?thesis using app holds f h by (auto simp: Log_Append_def)
  next
    case (Inr fr)
    obtain n werr d1 where w: "WriteAt f fr (l_size l) d = ((n, werr), d1)" by (metis prod_cases3 surj_pair)
    have w': "dents d1 = dents d" "synced d1 = synced d" and wk: "case werr of
      None \<Rightarrow> n = length fr \<and> content d1 f = log_image rs @ fr
    | Some _ \<Rightarrow> \<exists>k \<le> length fr. content d1 f = log_image rs @ take k fr"
      using WriteAt_end [OF w] h by blast+
    show ?thesis
    proof (cases werr)
      case (Some e)
      then obtain k where "k \<le> length fr" "content d1 f = log_image rs @ take k fr" using wk by auto
      then show ?thesis using append_rolled_back [OF holds f w'(1), of k r e] app w w' Inr f h Some
        by (auto simp: Log_Append_def split: prod.splits)
    next
      case None
      obtain serr d2 where s: "FSync f d1 = (serr, d2)" by force
      note s' = FSync_effect [OF s]
      show ?thesis
      proof (cases serr)
        case None': None
        then show ?thesis using Log_Append_ok [of r l d l' d' f rs] app w None wk s h f Inr
          by (auto simp: Log_Append_def)
      next
        case (Some e)
        then show ?thesis using append_rolled_back [OF holds f, of d2 "length fr" r e] app w None wk s s' w' Inr f h
          by (auto simp: Log_Append_def split: prod.splits)
      qed
    qed
  qed
qed


text \<open>Appending touches no file but the log's own, and no directory entry.\<close>

definition only_file :: "nat \<Rightarrow> disk \<Rightarrow> disk \<Rightarrow> bool" where
  "only_file f d d' \<longleftrightarrow> dents d' = dents d \<and> synced_dents d' = synced_dents d \<and> next_ino d' = next_ino d
     \<and> (\<forall>g. g \<noteq> f \<longrightarrow> content d' g = content d g \<and> synced d' g = synced d g)"

lemma only_file_trans: "only_file f d d1 \<Longrightarrow> only_file f d1 d2 \<Longrightarrow> only_file f d d2"
  by (simp add: only_file_def)

lemma only_file_calls:
  "WriteAt f p at d = (x, d') \<Longrightarrow> only_file f d d'"
  "FSync f d = (y, d') \<Longrightarrow> only_file f d d'"
  "FTruncate f n d = (y, d') \<Longrightarrow> only_file f d d'"
  "FClose g d = (y, d') \<Longrightarrow> only_file f d d'"
  by (auto simp: only_file_def WriteAt_def FSync_def FTruncate_def FClose_def
      split: prod.splits option.splits dest!: next_fault_effect)

lemma only_file_rollback: "rollback at e l d = (x, l', d') \<Longrightarrow> only_file (the (l_f l)) d d'"
  by (auto simp: rollback_def split: prod.splits option.splits
      dest!: only_file_calls intro: only_file_trans)

lemma only_file_Append:
  assumes "Log_Append r l d = (err, l', d')" "l_f l = Some f"
  shows "only_file f d d'"
proof -
  have "only_file f d d" by (simp add: only_file_def)
  then show ?thesis using assms
    by (auto simp: Log_Append_def Let_def split: prod.splits option.splits sum.splits if_splits
        dest!: only_file_calls only_file_rollback intro: only_file_trans)
qed

lemma log_holds_other:
  "only_file f d d' \<Longrightarrow> log_holds rs l d \<Longrightarrow> l_f l \<noteq> Some f \<Longrightarrow> log_holds rs l d'"
  by (auto simp: log_holds_def only_file_def lookup_file_def split: option.splits)

section \<open>Creation, closing and removal\<close>

lemma syncDir_effect:
  assumes "syncDir d = (err, d')"
  shows "dents d' = dents d \<and> content d' = content d \<and> synced d' = synced d \<and> next_ino d' = next_ino d
    \<and> (synced_dents d' = dents d \<or> err \<noteq> None \<and> synced_dents d' = synced_dents d)"
  using assms by (auto simp: syncDir_def DirOpen_def DirSync_def FClose_def
      split: prod.splits option.splits if_splits dest!: next_fault_effect)

lemma log_image_header: "log_image [] = encodeFileHeader"
  by (simp add: log_image_def)

text \<open>A created log holds its header record, and its directory entry is durable.\<close>

lemma Create_holds:
  assumes "Create name hdr d = (Inr l, d')"
  shows "log_holds [RHeader hdr] l d' \<and> l_path l = name @ logExt \<and> map_of (dents d) (name @ logExt) = None
    \<and> synced_dents d' = dents d' \<and> l_f l = Some (next_ino d)
    \<and> dents d' = set_dent (name @ logExt) (DFile (next_ino d)) (dents d)
    \<and> (\<forall>g. g \<noteq> next_ino d \<longrightarrow> content d' g = content d g \<and> synced d' g = synced d g)"
proof -
  let ?f = "next_ino d" and ?n = "name @ logExt"
  let ?l = "\<lparr>l_f = Some ?f, l_path = ?n, l_size = 0, l_records = 0, l_broken = None\<rparr>"
  obtain d1 where o: "OpenExcl ?n d = (Inr ?f, d1)" and d1: "map_of (dents d) ?n = None"
      "dents d1 = set_dent ?n (DFile ?f) (dents d)" "content d1 = (content d)(?f := [])"
      "synced d1 = (synced d)(?f := [])"
    using assms by (auto simp: Create_def OpenExcl_def new_file_def split: prod.splits option.splits sum.splits if_splits
      dest!: next_fault_effect)
  obtain d2 n where w: "WriteAt ?f encodeFileHeader 0 d1 = ((n, None), d2)"
    using assms o by (auto simp: Create_def Let_def split: prod.splits option.splits)
  note w' = WriteAt_end [OF w, of "[]"] only_file_calls(1) [OF w]
  obtain l3 d3 where a: "Log_Append (RHeader hdr) (?l\<lparr>l_size := fileHeaderSize\<rparr>) d2 = (None, l3, d3)"
    using assms o w by (auto simp: Create_def Let_def split: prod.splits option.splits)
  obtain s: "syncDir d3 = (None, d')" and l3: "l3 = l"
    using assms o w a by (auto simp: Create_def Let_def split: prod.splits option.splits)
  have "log_holds ([] @ [RHeader hdr]) l3 d3 \<and> l_f l3 = Some ?f \<and> l_path l3 = ?n"
    using Log_Append_ok [OF a, of ?f "[]"] w' d1
    by (simp add: log_image_header lookup_file_def only_file_def map_of_set_dent)
  then show ?thesis using w' d1 syncDir_effect [OF s] only_file_Append [OF a] unfolding l3
    by (auto simp: log_holds_def lookup_file_def only_file_def)
qed


lemma Create_exists:
  assumes "map_of (dents d) (name @ logExt) \<noteq> None" "faults d = []"
  shows "Create name hdr d = (Inl ErrExists, d)"
  using assms by (simp add: Create_def OpenExcl_def next_fault_def)

lemma Log_Close_effect:
  assumes "Log_Close l d = (err, l', d')"
  shows "l_f l' = None \<and> dents d' = dents d \<and> content d' = content d \<and> l_path l' = l_path l"
  using assms by (auto simp: Log_Close_def FSync_def FClose_def split: prod.splits option.splits if_splits
      dest!: next_fault_effect)

lemma Remove_effect:
  assumes "Remove name d = (None, d')"
  shows "map_of (dents d) (name @ logExt) \<noteq> None \<and> dents d' = del_dent (name @ logExt) (dents d)
    \<and> synced_dents d' = dents d' \<and> content d' = content d"
  using assms by (auto simp: Remove_def os_Remove_def split: prod.splits option.splits if_splits
      dest!: next_fault_effect syncDir_effect)

lemma Log_Append_closed: "l_f l = None \<Longrightarrow> Log_Append r l d = (Some (case l_broken l of None \<Rightarrow> ErrClosed | Some e \<Rightarrow> e), l, d)"
  by (simp add: Log_Append_def split: option.splits)

section \<open>Directory listing and stray temporaries\<close>

lemma has_suffix_append: "has_suffix s suf \<longleftrightarrow> (\<exists>p. s = p @ suf)"
proof
  assume "has_suffix s suf"
  then show "\<exists>p. s = p @ suf"
    by (metis append_take_drop_id has_suffix_def)
next
  assume "\<exists>p. s = p @ suf"
  then show "has_suffix s suf" by (auto simp: has_suffix_def)
qed

lemma trim_suffix_append [simp]: "trim_suffix (p @ suf) suf = p"
  by (simp add: trim_suffix_def has_suffix_def)

text \<open>The listed names are exactly the files \<open><name>.log\<close>.\<close>

lemma ListLogs_names:
  assumes "ListLogs d = (Inr names, d')"
  shows "name \<in> set names \<longleftrightarrow> (\<exists>i. (name @ logExt, DFile i) \<in> set (dents d))"
proof -
  have "names = map (\<lambda>e. trim_suffix (fst e) logExt)
      (filter (\<lambda>e. \<not> (snd e = DDir \<or> \<not> has_suffix (fst e) logExt)) (sort_key fst (dents d)))"
    using assms by (auto simp: ListLogs_def os_ReadDir_def split: prod.splits option.splits
        dest!: next_fault_effect)
  then have "name \<in> set names \<longleftrightarrow>
      (\<exists>e \<in> set (dents d). snd e \<noteq> DDir \<and> has_suffix (fst e) logExt \<and> trim_suffix (fst e) logExt = name)"
    by auto
  also have "\<dots> \<longleftrightarrow> (\<exists>e \<in> set (dents d). snd e \<noteq> DDir \<and> fst e = name @ logExt)"
    by (auto simp: has_suffix_append)
  also have "\<dots> \<longleftrightarrow> (\<exists>i. (name @ logExt, DFile i) \<in> set (dents d))"
    by (metis dirent.exhaust dirent.distinct(1) fst_conv snd_conv surj_pair)
  finally show ?thesis .
qed

lemma clean_entries_effect:
  assumes "clean_entries es removed d = (Inr r, d')"
  shows "content d' = content d \<and> synced d' = synced d \<and> synced_dents d' = synced_dents d
    \<and> dents d' = filter (\<lambda>x. \<not> (\<exists>e \<in> set es. snd e \<noteq> DDir \<and> has_suffix (fst e) tmpExt \<and> fst x = fst e)) (dents d)
    \<and> (\<not> r \<longrightarrow> dents d' = dents d)"
  using assms
proof (induction es removed d rule: clean_entries.induct)
  case (1 removed d)
  then show ?case by simp
next
  case (2 e es removed d)
  show ?case
  proof (cases "snd e = DDir \<or> \<not> has_suffix (fst e) tmpExt")
    case True
    then show ?thesis using 2 by (auto intro!: filter_cong)
  next
    case False
    then obtain d1 where rm: "os_Remove (fst e) d = (None, d1)" "clean_entries es True d1 = (Inr r, d')"
      using "2.prems" by (auto split: prod.splits option.splits)
    then have "dents d1 = del_dent (fst e) (dents d)" "content d1 = content d" "synced d1 = synced d"
      "synced_dents d1 = synced_dents d"
      by (auto simp: os_Remove_def split: prod.splits option.splits if_splits dest!: next_fault_effect)
    moreover have "r"
      using rm(2) by (induction es True d1 rule: clean_entries.induct)
        (auto split: if_splits prod.splits option.splits)
    ultimately show ?thesis using 2(2) [OF False rm(1) [symmetric] refl rm(2)] False
      by (auto simp: del_dent_def intro!: filter_cong)
  qed
qed

text \<open>After \<open>CleanTemps\<close> succeeds no temporary is left, durably, and every other entry is kept.\<close>

lemma CleanTemps_effect:
  assumes "CleanTemps d = (None, d')"
  shows "content d' = content d \<and> synced d' = synced d
    \<and> (dents d' = dents d \<or> synced_dents d' = dents d')
    \<and> (x \<in> set (dents d') \<longleftrightarrow> x \<in> set (dents d) \<and> \<not> (has_suffix (fst x) tmpExt \<and> (\<exists>i. (fst x, DFile i) \<in> set (dents d))))"
proof -
  obtain es d1 where "os_ReadDir d = (Inr es, d1)" using assms
    by (auto simp: CleanTemps_def split: prod.splits sum.splits)
  then have es: "set es = set (dents d)" "dents d1 = dents d" "content d1 = content d" "synced d1 = synced d"
    by (auto simp: os_ReadDir_def split: prod.splits option.splits dest!: next_fault_effect)
  obtain r d2 where c: "clean_entries es False d1 = (Inr r, d2)" "(if r then syncDir d2 else (None, d2)) = (None, d')"
    using assms \<open>os_ReadDir d = (Inr es, d1)\<close> by (auto simp: CleanTemps_def split: prod.splits sum.splits)
  have d': "dents d' = dents d2" "content d' = content d2" "synced d' = synced d2" "r \<Longrightarrow> synced_dents d' = dents d'"
    using c(2) syncDir_effect by (auto split: if_splits)
  have "(\<exists>e \<in> set (dents d). snd e \<noteq> DDir \<and> has_suffix (fst e) tmpExt \<and> n = fst e)
      \<longleftrightarrow> has_suffix n tmpExt \<and> (\<exists>i. (n, DFile i) \<in> set (dents d))" for n
    by (metis dirent.exhaust dirent.distinct(1) fst_conv snd_conv surj_pair)
  then have "x \<in> set (dents d2) \<longleftrightarrow>
      x \<in> set (dents d) \<and> \<not> (has_suffix (fst x) tmpExt \<and> (\<exists>i. (fst x, DFile i) \<in> set (dents d)))"
    using clean_entries_effect [OF c(1)] es by simp
  then show ?thesis using clean_entries_effect [OF c(1)] es d' by (cases r) metis+
qed

end
