(* ===== verification/Storage_Recovery.thy ===== *)
theory Storage_Recovery
  imports Storage_Log
begin

text \<open>
  \<open>internal/storage/recovery.go\<close>: scanning the frames of a log, telling a torn tail from corruption,
  and \<open>Open\<close>, which replays every record into the caller's \<open>apply\<close> and truncates a torn tail away.

  A buffered reader over the file is the bytes it will still deliver and whether it then reports an
  I/O error instead of the end of the file; \<open>Open\<close> takes both from the disk (\<open>Fail k\<close> lets \<open>k\<close> bytes
  through). The caller's closure is a function on the state it captures. Reasons and paths carried
  by the error values are message text and left out; the offsets are kept.
\<close>

section \<open>Reading\<close>

record reader =
  r_rest :: bytes
  r_fails :: bool

datatype read_err = EOF | UnexpectedEOF | ReadFailed

definition io_ReadFull :: "nat \<Rightarrow> reader \<Rightarrow> (read_err + bytes) \<times> reader" where
  "io_ReadFull n r =
     (if n \<le> length (r_rest r) then (Inr (take n (r_rest r)), r\<lparr>r_rest := drop n (r_rest r)\<rparr>)
      else (Inl (if r_fails r then ReadFailed else if r_rest r = [] then EOF else UnexpectedEOF),
            r\<lparr>r_rest := []\<rparr>))"

function restIsZero :: "reader \<Rightarrow> bool" where
  "restIsZero r =
     (let buf = take 4096 (r_rest r) in
      if \<exists>b \<in> set buf. b \<noteq> 0 then False
      else if buf = [] then \<not> r_fails r
      else restIsZero (r\<lparr>r_rest := drop 4096 (r_rest r)\<rparr>))"
  by pat_completeness auto

termination
  by (relation "measure (\<lambda>r. length (r_rest r))") auto

declare restIsZero.simps [simp del]

section \<open>Scanning\<close>

record scanner =
  s_r :: reader
  s_offset :: nat
  s_size :: nat

datatype scan_err = Scan_EOF | TornTail nat | Corrupt nat

definition scanner_next :: "scanner \<Rightarrow> (scan_err + RecordType \<times> bytes) \<times> scanner" where
  "scanner_next s =
     (case io_ReadFull lengthSize (s_r s) of
        (Inl EOF, r1) \<Rightarrow> (Inl Scan_EOF, s\<lparr>s_r := r1\<rparr>)
      | (Inl _, r1) \<Rightarrow> (Inl (TornTail (s_offset s)), s\<lparr>s_r := r1\<rparr>)
      | (Inr lenBuf, r1) \<Rightarrow>
          (let payloadLen = unat (Uint32 lenBuf);
               remaining = int (s_size s) - int (s_offset s) in
           if payloadLen < 1 \<or> payloadLen > MaxRecordSize then
             if payloadLen = 0 \<and> restIsZero r1 then (Inl (TornTail (s_offset s)), s\<lparr>s_r := r1\<rparr>)
             else if remaining < int (frameOverhead + 1) then (Inl (TornTail (s_offset s)), s\<lparr>s_r := r1\<rparr>)
             else (Inl (Corrupt (s_offset s)), s\<lparr>s_r := r1\<rparr>)
           else
             (let frameSize = frameOverhead + payloadLen in
              if s_offset s + frameSize > s_size s then (Inl (TornTail (s_offset s)), s\<lparr>s_r := r1\<rparr>)
              else case io_ReadFull (typeSize + payloadLen + crcSize) r1 of
                (Inl _, r2) \<Rightarrow> (Inl (TornTail (s_offset s)), s\<lparr>s_r := r2\<rparr>)
              | (Inr rest, r2) \<Rightarrow>
                  (let recType = rest ! 0;
                       payload = take payloadLen (drop typeSize rest);
                       want = Uint32 (drop (typeSize + payloadLen) rest);
                       crc = crc32_Update (crc32_Update 0 lenBuf) (take (typeSize + payloadLen) rest);
                       atEOF = (s_offset s + frameSize = s_size s);
                       damage = (if atEOF then TornTail (s_offset s) else Corrupt (s_offset s)) in
                   if crc \<noteq> want then (Inl damage, s\<lparr>s_r := r2\<rparr>)
                   else if \<not> valid_type recType then (Inl damage, s\<lparr>s_r := r2\<rparr>)
                   else (Inr (recType, payload), s\<lparr>s_r := r2, s_offset := s_offset s + frameSize\<rparr>)))))"

lemma scanner_next_consumes:
  assumes "scanner_next s = (Inr x, s')"
  shows "length (r_rest (s_r s')) < length (r_rest (s_r s))"
  using assms unfolding scanner_next_def
  by (auto simp: io_ReadFull_def Let_def lengthSize_def typeSize_def crcSize_def
      split: if_splits)

section \<open>Replay\<close>

text \<open>The loop of \<open>Open\<close>: the number of records, the captured state, and the offset of a torn tail.\<close>

function scan_loop ::
  "(Record \<Rightarrow> 'st \<Rightarrow> 'st result) \<Rightarrow> scanner \<Rightarrow> nat \<Rightarrow> 'st \<Rightarrow> (nat \<times> 'st \<times> nat option) result" where
  "scan_loop apply s records st =
     (case scanner_next s of
        (Inl Scan_EOF, _) \<Rightarrow> Inr (records, st, None)
      | (Inl (TornTail off), _) \<Rightarrow> Inr (records, st, Some off)
      | (Inl (Corrupt off), _) \<Rightarrow> Inl (CorruptError off)
      | (Inr (recType, payload), s') \<Rightarrow>
          (case decodePayload recType payload of
             Inl _ \<Rightarrow> Inl (CorruptError (s_offset s))
           | Inr rec \<Rightarrow>
               if records = 0 \<and> recType \<noteq> TypeHeader then Inl (CorruptError (s_offset s))
               else case apply rec st of
                 Inl e \<Rightarrow> Inl e
               | Inr st' \<Rightarrow> scan_loop apply s' (records + 1) st'))"
  by pat_completeness auto

termination
  by (relation "measure (\<lambda>(_, s, _). length (r_rest (s_r s)))") (auto dest!: sym [of _ "scanner_next _"] scanner_next_consumes)

declare scan_loop.simps [simp del]

definition truncate :: "nat \<Rightarrow> nat \<Rightarrow> disk \<Rightarrow> goerror option \<times> disk" where
  "truncate f at d0 = (case FTruncate f at d0 of
      (Some e, d1) \<Rightarrow> (Some e, d1)
    | (None, d1) \<Rightarrow> (case FSync f d1 of
        (Some e, d2) \<Rightarrow> (Some e, d2)
      | (None, d2) \<Rightarrow> syncDir d2))"

text \<open>The bytes a sequential reader of inode \<open>i\<close> delivers from an offset on.\<close>

definition file_reader :: "nat \<Rightarrow> nat \<Rightarrow> disk \<Rightarrow> reader \<times> disk" where
  "file_reader i off d0 = (case next_fault d0 of
      (None, d) \<Rightarrow> (\<lparr>r_rest = drop off (content d i), r_fails = False\<rparr>, d)
    | (Some k, d) \<Rightarrow> (\<lparr>r_rest = take k (drop off (content d i)), r_fails = True\<rparr>, d))"

text \<open>The deferred close of the failure paths.\<close>

definition close_fail :: "nat \<Rightarrow> goerror \<Rightarrow> disk \<Rightarrow> 'a result \<times> disk" where
  "close_fail f e d = (Inl e, snd (FClose f d))"

definition Open ::
  "string \<Rightarrow> (Record \<Rightarrow> 'st \<Rightarrow> 'st result) \<Rightarrow> 'st \<Rightarrow> disk \<Rightarrow> (Log \<times> 'st) result \<times> disk" where
  "Open name apply st0 d0 =
     (case OpenRdwr (name @ logExt) d0 of (Inl e, d1) \<Rightarrow> (Inl e, d1) | (Inr f, d1) \<Rightarrow>
      case FStat f d1 of (Inl e, d2) \<Rightarrow> close_fail f e d2 | (Inr sz, d2) \<Rightarrow>
      if sz < fileHeaderSize then close_fail f ErrIncompleteLog d2 else
      case file_reader f 0 d2 of (hr, d3) \<Rightarrow>
      case io_ReadFull fileHeaderSize hr of (Inl _, _) \<Rightarrow> close_fail f io_error d3 | (Inr hdr, _) \<Rightarrow>
      case checkFileHeader hdr of Some e \<Rightarrow> close_fail f e d3 | None \<Rightarrow>
      case file_reader f fileHeaderSize d3 of (r, d4) \<Rightarrow>
      case scan_loop apply \<lparr>s_r = r, s_offset = fileHeaderSize, s_size = sz\<rparr> 0 st0 of
        Inl e \<Rightarrow> close_fail f e d4
      | Inr (records, st, torn) \<Rightarrow>
          (case (case torn of None \<Rightarrow> (None, d4) | Some off \<Rightarrow> truncate f off d4) of
             (Some e, d5) \<Rightarrow> close_fail f e d5
           | (None, d5) \<Rightarrow>
               if records = 0 then close_fail f ErrIncompleteLog d5
               else (Inr (\<lparr>l_f = Some f, l_path = name @ logExt,
                           l_size = (case torn of None \<Rightarrow> sz | Some off \<Rightarrow> off),
                           l_records = records, l_broken = None\<rparr>, st), d5)))"

section \<open>What the scanner sees\<close>

lemma restIsZero_iff: "restIsZero r \<longleftrightarrow> list_all (\<lambda>b. b = 0) (r_rest r) \<and> \<not> r_fails r"
proof (induction r rule: restIsZero.induct)
  case (1 r)
  have split: "list_all (\<lambda>b. b = 0) (r_rest r) \<longleftrightarrow>
      list_all (\<lambda>b. b = 0) (take 4096 (r_rest r)) \<and> list_all (\<lambda>b. b = 0) (drop 4096 (r_rest r))"
    by (metis append_take_drop_id list_all_append)
  show ?case
  proof (cases "(\<exists>b \<in> set (take 4096 (r_rest r)). b \<noteq> 0) \<or> take 4096 (r_rest r) = []")
    case True
    then show ?thesis by (subst restIsZero.simps) (auto simp: Let_def list_all_iff dest: in_set_takeD)
  next
    case False
    then have "restIsZero (r\<lparr>r_rest := drop 4096 (r_rest r)\<rparr>) \<longleftrightarrow>
        list_all (\<lambda>b. b = 0) (drop 4096 (r_rest r)) \<and> \<not> r_fails r"
      using 1 [OF refl] by auto
    then show ?thesis using False split by (subst restIsZero.simps) (auto simp: Let_def list_all_iff)
  qed
qed

text \<open>A scanner at offset \<open>off\<close> of a readable file with the bytes \<open>bs\<close> left.\<close>

definition scan_at :: "bytes \<Rightarrow> nat \<Rightarrow> scanner" where
  "scan_at bs off = \<lparr>s_r = \<lparr>r_rest = bs, r_fails = False\<rparr>, s_offset = off, s_size = off + length bs\<rparr>"

definition payload_ok :: "bytes \<Rightarrow> bool" where
  "payload_ok p \<longleftrightarrow> 1 \<le> length p \<and> length p \<le> MaxRecordSize"

lemmas size_defs = lengthSize_def typeSize_def crcSize_def frameOverhead_def

text \<open>The same for a reader that may fail further on, in a file that is longer than what it delivers.\<close>

definition scan_st :: "bytes \<Rightarrow> bool \<Rightarrow> nat \<Rightarrow> nat \<Rightarrow> scanner" where
  "scan_st bs fails off sz = \<lparr>s_r = \<lparr>r_rest = bs, r_fails = fails\<rparr>, s_offset = off, s_size = sz\<rparr>"

lemma scan_at_st: "scan_at bs off = scan_st bs False off (off + length bs)"
  by (simp add: scan_at_def scan_st_def)

text \<open>A region that has the length prefix of a payload of \<open>n\<close> bytes and is long enough for it.\<close>

lemma scanner_next_region_st:
  assumes n: "1 \<le> n" "n \<le> MaxRecordSize" and len: "length body = typeSize + n" "length ck = crcSize"
    and sz: "off + frameOverhead + n \<le> sz"
  shows "scanner_next (scan_st (PutUint32 (of_nat n) @ body @ ck @ rest) fails off sz) =
    (let damage = (if off + frameOverhead + n = sz then TornTail off else Corrupt off);
         t = body ! 0; sc = scan_st rest fails (off + frameOverhead + n) sz in
     if crc32_Checksum (PutUint32 (of_nat n) @ body) \<noteq> Uint32 ck \<or> \<not> valid_type t
     then (Inl damage, sc\<lparr>s_offset := off\<rparr>)
     else (Inr (t, drop typeSize body), sc))"
proof -
  have u: "unat (of_nat n :: 32 word) = n" using n unat_frame_length by blast
  have b0: "(body @ ck @ rest) ! 0 = body ! 0" "body \<noteq> []" using len by (auto simp: nth_append typeSize_def)
  have d: "drop typeSize body = take n (drop typeSize body)" using len by simp
  show ?thesis
    unfolding scanner_next_def scan_st_def io_ReadFull_def
    using n len u b0 d sz by (auto simp: Let_def size_defs nth_append crc32_Checksum_def)
qed

lemma scanner_next_region:
  assumes "1 \<le> n" "n \<le> MaxRecordSize" "length body = typeSize + n" "length ck = crcSize"
  shows "scanner_next (scan_at (PutUint32 (of_nat n) @ body @ ck @ rest) off) =
    (let damage = (if rest = [] then TornTail off else Corrupt off);
         t = body ! 0; sc = scan_at rest (off + frameOverhead + n) in
     if crc32_Checksum (PutUint32 (of_nat n) @ body) \<noteq> Uint32 ck \<or> \<not> valid_type t
     then (Inl damage, sc\<lparr>s_offset := off\<rparr>)
     else (Inr (t, drop typeSize body), sc))"
proof -
  have "scan_at (PutUint32 (of_nat n) @ body @ ck @ rest) off =
      scan_st (PutUint32 (of_nat n) @ body @ ck @ rest) False off (off + frameOverhead + n + length rest)"
    using assms by (simp add: scan_at_st size_defs add.assoc)
  then show ?thesis
    using scanner_next_region_st [OF assms, of off "off + frameOverhead + n + length rest" rest False]
    by (simp only:) (simp add: scan_at_st Let_def)
qed

lemma scanner_next_frame_st:
  assumes "payload_ok p" "valid_type t" "off + length (frame_of t p) \<le> sz"
  shows "scanner_next (scan_st (frame_of t p @ rest) fails off sz) =
    (Inr (t, p), scan_st rest fails (off + length (frame_of t p)) sz)"
  using assms scanner_next_region_st [of "length p" "t # p" "PutUint32 (crc32_Checksum (frame_body t p))" off sz rest fails]
  by (simp add: payload_ok_def frame_of_def frame_body_def size_defs Let_def add.assoc)

lemma scanner_next_frame:
  assumes "payload_ok p" "valid_type t"
  shows "scanner_next (scan_at (frame_of t p @ rest) off) = (Inr (t, p), scan_at rest (off + length (frame_of t p)))"
  using assms scanner_next_region [of "length p" "t # p" "PutUint32 (crc32_Checksum (frame_body t p))" rest off]
  by (simp add: payload_ok_def frame_of_def frame_body_def size_defs Let_def add.assoc)


lemma scanner_next_eof: "scanner_next (scan_at [] off) = (Inl Scan_EOF, scan_at [] off)"
  by (simp add: scanner_next_def scan_at_def io_ReadFull_def lengthSize_def)

text \<open>
  What a crash in the middle of an append can leave after the last acknowledged frame: a proper
  prefix of the frame, zero fill, or a region of the frame's length whose checksum does not match.
\<close>

definition torn_prefix :: "bytes \<Rightarrow> RecordType \<Rightarrow> bytes \<Rightarrow> bool" where
  "torn_prefix bs t p \<longleftrightarrow> payload_ok p \<and> (\<exists>k. 0 < k \<and> k < length (frame_of t p) \<and> bs = take k (frame_of t p))"

definition torn_zeros :: "bytes \<Rightarrow> bool" where
  "torn_zeros bs \<longleftrightarrow> bs \<noteq> [] \<and> list_all (\<lambda>b. b = 0) bs"

definition torn_region :: "bytes \<Rightarrow> bool" where
  "torn_region bs \<longleftrightarrow> (let n = unat (Uint32 bs) in 1 \<le> n \<and> n \<le> MaxRecordSize \<and> length bs = frameOverhead + n
     \<and> crc32_Checksum (take (lengthSize + typeSize + n) bs) \<noteq> Uint32 (drop (lengthSize + typeSize + n) bs))"

definition torn_tail :: "bytes \<Rightarrow> bool" where
  "torn_tail bs \<longleftrightarrow> (\<exists>t p. torn_prefix bs t p) \<or> torn_zeros bs \<or> torn_region bs"

lemma scanner_next_short:
  assumes "bs \<noteq> []" "length bs < lengthSize"
  shows "fst (scanner_next (scan_at bs off)) = Inl (TornTail off)"
  using assms by (auto simp: scanner_next_def scan_at_def io_ReadFull_def)

lemma scanner_next_past_end:
  assumes "1 \<le> n" "n \<le> MaxRecordSize" "length body < typeSize + n + crcSize"
  shows "fst (scanner_next (scan_at (PutUint32 (of_nat n) @ body) off)) = Inl (TornTail off)"
  using assms unat_frame_length [OF assms(2)]
  by (auto simp: scanner_next_def scan_at_def io_ReadFull_def Let_def size_defs)

lemma scanner_next_torn_prefix:
  assumes "torn_prefix bs t p"
  shows "fst (scanner_next (scan_at bs off)) = Inl (TornTail off)"
proof -
  obtain k where k: "payload_ok p" "0 < k" "k < length (frame_of t p)" "bs = take k (frame_of t p)"
    using assms by (auto simp: torn_prefix_def)
  show ?thesis
  proof (cases "k < lengthSize")
    case True
    moreover have "length bs = k" using k by simp
    ultimately show ?thesis using k(2) by (intro scanner_next_short) auto
  next
    case False
    then have "bs = PutUint32 (of_nat (length p)) @
        take (k - lengthSize) (t # p @ PutUint32 (crc32_Checksum (frame_body t p)))"
      using k by (simp add: frame_of_def frame_body_def lengthSize_def)
    then show ?thesis using k False
      by (simp only:) (rule scanner_next_past_end, auto simp: payload_ok_def size_defs)
  qed
qed

lemma scanner_next_zeros:
  assumes "torn_zeros bs"
  shows "fst (scanner_next (scan_at bs off)) = Inl (TornTail off)"
proof (cases "length bs < lengthSize")
  case True
  then show ?thesis using assms by (auto simp: torn_zeros_def scanner_next_short)
next
  case False
  have z: "list_all (\<lambda>b. b = 0) (take n bs)" "list_all (\<lambda>b. b = 0) (drop n bs)" for n
    using assms by (auto simp: torn_zeros_def list_all_iff dest: in_set_takeD in_set_dropD)
  obtain b0 b1 b2 b3 where "take 4 bs = [b0, b1, b2, b3]"
    using False by (cases bs rule: Uint32.cases) (auto simp: lengthSize_def)
  then have "Uint32 (take 4 bs) = 0" using z(1) [of 4] by simp
  then show ?thesis using False z(2) [of 4]
    by (simp add: scanner_next_def scan_at_def io_ReadFull_def Let_def lengthSize_def restIsZero_iff)
qed

lemma scanner_next_torn_region:
  assumes "torn_region bs"
  shows "fst (scanner_next (scan_at bs off)) = Inl (TornTail off)"
proof -
  define n where "n = unat (Uint32 bs)"
  have n: "1 \<le> n" "n \<le> MaxRecordSize" "length bs = frameOverhead + n"
    and crc: "crc32_Checksum (take (lengthSize + typeSize + n) bs) \<noteq> Uint32 (drop (lengthSize + typeSize + n) bs)"
    using assms by (auto simp: torn_region_def n_def Let_def)
  let ?body = "take (typeSize + n) (drop lengthSize bs)" and ?ck = "drop (lengthSize + typeSize + n) bs"
  have "length bs \<ge> 4" using n by (simp add: size_defs)
  then have "Uint32 (take 4 bs) = Uint32 bs" by (cases bs rule: Uint32.cases) auto
  then have p: "PutUint32 (of_nat n) = take lengthSize bs"
    using PutUint32_Uint32 [of "take 4 bs"] n \<open>length bs \<ge> 4\<close> by (simp add: lengthSize_def n_def)
  have bs: "bs = PutUint32 (of_nat n) @ ?body @ ?ck @ []"
    using n unfolding p by (metis add.assoc append.right_neutral append_take_drop_id drop_drop add.commute)
  have "PutUint32 (of_nat n) @ ?body = take (lengthSize + typeSize + n) bs"
    unfolding p by (simp add: take_add add.assoc)
  then show ?thesis
    using scanner_next_region [OF n(1,2), of ?body ?ck "[]" off] crc n bs
    by (simp add: size_defs Let_def)
qed

lemma scanner_next_torn:
  "torn_tail bs \<Longrightarrow> fst (scanner_next (scan_at bs off)) = Inl (TornTail off)"
  by (auto simp: torn_tail_def scanner_next_torn_prefix scanner_next_zeros scanner_next_torn_region)

section \<open>Replay of whole logs\<close>

fun replay :: "(Record \<Rightarrow> 'st \<Rightarrow> 'st result) \<Rightarrow> Record list \<Rightarrow> 'st \<Rightarrow> 'st result" where
  "replay ap [] st = Inr st"
| "replay ap (r # rs) st = (case ap r st of Inl e \<Rightarrow> Inl e | Inr st' \<Rightarrow> replay ap rs st')"

text \<open>Logs the engine writes: every record encodes and reads back, and the first is a header.\<close>

fun is_header :: "Record \<Rightarrow> bool" where
  "is_header (RHeader _) \<longleftrightarrow> True"
| "is_header _ \<longleftrightarrow> False"

definition log_wf :: "Record list \<Rightarrow> bool" where
  "log_wf rs \<longleftrightarrow> list_all rec_ok rs \<and> list_all encodable rs \<and> rs \<noteq> [] \<and> is_header (hd rs)"

lemma recordType_header [simp]: "recordType r = TypeHeader \<longleftrightarrow> is_header r"
  by (cases r) (simp_all add: TypeHeader_def TypeEnqueue_def TypeAck_def TypeNack_def)

lemma frame_encodable:
  assumes "encodable r" "rec_ok r"
  obtains p where "frame r = frame_of (recordType r) p" "payload_ok p"
    "decodePayload (recordType r) p = Inr (canon r)"
proof -
  obtain fr where fr: "encodeFrame r = Inr fr" using assms(1) by (auto simp: encodable_def split: sum.splits)
  from fr show ?thesis
  proof (rule encodeFrame_Inr)
    fix p
    assume "json_Marshal r = Inr p" "0 < length p" "length p \<le> MaxRecordSize" "fr = frame_of (recordType r) p"
    then show ?thesis using that [of p] fr decodePayload_Marshal [OF assms(2)] by (auto simp: payload_ok_def Suc_le_eq)
  qed
qed

lemma scan_loop_frame:
  assumes "encodable r" "rec_ok r" "n = 0 \<longrightarrow> is_header r" "off + length (frame r) \<le> sz"
  shows "scan_loop ap (scan_st (frame r @ rest) fails off sz) n st =
    (case ap (canon r) st of Inl e \<Rightarrow> Inl e
     | Inr st' \<Rightarrow> scan_loop ap (scan_st rest fails (off + length (frame r)) sz) (n + 1) st')"
proof -
  obtain p where p: "frame r = frame_of (recordType r) p" "payload_ok p"
    "decodePayload (recordType r) p = Inr (canon r)"
    using assms frame_encodable by blast
  show ?thesis
    using p assms scanner_next_frame_st [OF p(2) valid_recordType, of off r sz rest fails]
    by (subst scan_loop.simps) (auto split: sum.splits)
qed

lemma scan_loop_frames_st:
  assumes "list_all encodable rs" "list_all rec_ok rs" "n = 0 \<longrightarrow> rs \<noteq> [] \<longrightarrow> is_header (hd rs)"
    "off + length (concat (map frame rs)) \<le> sz"
  shows "scan_loop ap (scan_st (concat (map frame rs) @ rest) fails off sz) n st =
    (case replay ap (map canon rs) st of Inl e \<Rightarrow> Inl e
     | Inr st' \<Rightarrow> scan_loop ap (scan_st rest fails (off + length (concat (map frame rs))) sz) (n + length rs) st')"
  using assms
proof (induction rs arbitrary: n st off)
  case (Cons r rs)
  then show ?case
    using scan_loop_frame [of r n off sz ap "concat (map frame rs) @ rest" fails st]
    by (simp add: add.assoc split: sum.splits)
qed simp

lemma scan_loop_frames:
  assumes "list_all encodable rs" "list_all rec_ok rs" "n = 0 \<longrightarrow> rs \<noteq> [] \<longrightarrow> is_header (hd rs)"
  shows "scan_loop ap (scan_at (concat (map frame rs) @ rest) off) n st =
    (case replay ap (map canon rs) st of Inl e \<Rightarrow> Inl e
     | Inr st' \<Rightarrow> scan_loop ap (scan_at rest (off + length (concat (map frame rs)))) (n + length rs) st')"
  using scan_loop_frames_st [OF assms, of off "off + length (concat (map frame rs) @ rest)" ap rest False st]
  by (auto simp: scan_at_st add.assoc split: sum.splits)

lemma scan_loop_eof: "scan_loop ap (scan_at [] off) n st = Inr (n, st, None)"
  by (subst scan_loop.simps) (simp add: scanner_next_eof)

lemma scan_loop_torn: "torn_tail bs \<Longrightarrow> scan_loop ap (scan_at bs off) n st = Inr (n, st, Some off)"
  using scanner_next_torn [of bs off]
  by (subst scan_loop.simps) (auto split: prod.splits)

text \<open>A stable disk: no call will fail.\<close>

definition reliable :: "disk \<Rightarrow> bool" where
  "reliable d \<longleftrightarrow> faults d = []"

lemma next_fault_reliable [simp]: "reliable d \<Longrightarrow> next_fault d = (None, d)"
  by (simp add: reliable_def next_fault_def)

lemma reliable_upd [simp]: "reliable (d\<lparr>content := c\<rparr>) = reliable d" "reliable (d\<lparr>synced := c\<rparr>) = reliable d"
  "reliable (d\<lparr>dents := x\<rparr>) = reliable d" "reliable (d\<lparr>synced_dents := x\<rparr>) = reliable d"
  by (simp_all add: reliable_def)

text \<open>The file \<open><name>.log\<close> exists with the given content.\<close>

definition file_is :: "string \<Rightarrow> nat \<Rightarrow> bytes \<Rightarrow> disk \<Rightarrow> bool" where
  "file_is name f bs d \<longleftrightarrow> map_of (dents d) (name @ logExt) = Some (DFile f) \<and> content d f = bs"

text \<open>The disk after a torn tail at \<open>off\<close> has been cut off, durably.\<close>

definition cut :: "nat \<Rightarrow> nat \<Rightarrow> disk \<Rightarrow> disk" where
  "cut f off d = (let c = take off (content d f) @ replicate (off - length (content d f)) 0 in
     d\<lparr>content := (content d)(f := c), synced := (synced d)(f := c), synced_dents := dents d\<rparr>)"

lemma truncate_reliable: "reliable d \<Longrightarrow> truncate f off d = (None, cut f off d)"
  by (simp add: truncate_def FTruncate_def FSync_def syncDir_def DirOpen_def DirSync_def FClose_def cut_def Let_def)

lemma reliable_cut [simp]: "reliable (cut f off d) = reliable d"
  by (simp add: cut_def Let_def)

lemma Open_scan:
  assumes d: "reliable d" and f: "file_is name f (encodeFileHeader @ bs) d"
  shows "Open name ap st d =
    (case scan_loop ap (scan_at bs fileHeaderSize) 0 st of
       Inl e \<Rightarrow> (Inl e, d)
     | Inr (records, st', torn) \<Rightarrow>
         (let d' = (case torn of None \<Rightarrow> d | Some off \<Rightarrow> cut f off d) in
          if records = 0 then (Inl ErrIncompleteLog, d')
          else (Inr (\<lparr>l_f = Some f, l_path = name @ logExt,
               l_size = (case torn of None \<Rightarrow> fileHeaderSize + length bs | Some off \<Rightarrow> off),
               l_records = records, l_broken = None\<rparr>, st'), d')))"
  using d f
  by (simp add: Open_def OpenRdwr_def FStat_def file_is_def file_reader_def io_ReadFull_def close_fail_def
        FClose_def scan_at_def Let_def truncate_reliable split: sum.splits option.splits prod.splits)

text \<open>The state an intact log is replayed into, and the log handle that results.\<close>

definition reopened :: "string \<Rightarrow> nat \<Rightarrow> Record list \<Rightarrow> Log" where
  "reopened name f rs = \<lparr>l_f = Some f, l_path = name @ logExt, l_size = length (log_image rs),
     l_records = length rs, l_broken = None\<rparr>"

lemma log_image_length: "length (log_image rs) = fileHeaderSize + length (concat (map frame rs))"
  by (simp add: log_image_def)

lemma Open_intact:
  assumes "reliable d" "file_is name f (log_image rs) d" "log_wf rs"
  shows "Open name ap st d = (case replay ap (map canon rs) st of
      Inl e \<Rightarrow> (Inl e, d) | Inr st' \<Rightarrow> (Inr (reopened name f rs, st'), d))"
  using assms Open_scan [of d name f "concat (map frame rs)" ap st]
    scan_loop_frames [of rs 0 ap "[]" fileHeaderSize st]
  by (simp add: log_wf_def scan_loop_eof reopened_def log_image_def split: sum.splits)

lemma Open_torn:
  assumes "reliable d" "file_is name f (log_image rs @ tail) d" "log_wf rs" "torn_tail tail"
  shows "Open name ap st d = (case replay ap (map canon rs) st of
      Inl e \<Rightarrow> (Inl e, d) | Inr st' \<Rightarrow> (Inr (reopened name f rs, st'), cut f (length (log_image rs)) d))"
  using assms Open_scan [of d name f "concat (map frame rs) @ tail" ap st]
    scan_loop_frames [of rs 0 ap tail fileHeaderSize st]
  by (simp add: log_wf_def scan_loop_torn reopened_def log_image_def split: sum.splits)

lemma reopened_holds:
  assumes "file_is name f (log_image rs @ tail) d" "log_wf rs"
  shows "log_holds rs (reopened name f rs) (cut f (length (log_image rs)) d)"
  using assms by (simp add: log_holds_def reopened_def file_is_def cut_def Let_def log_wf_def lookup_file_def)


section \<open>Damage before the tail\<close>

lemma crc32_Checksum_update:
  assumes "j < length x" "w \<noteq> x ! j"
  shows "crc32_Checksum (x[j := w]) \<noteq> crc32_Checksum x"
proof
  assume "crc32_Checksum (x[j := w]) = crc32_Checksum x"
  then have "crc32_Checksum (take j x @ w # drop (Suc j) x) = crc32_Checksum (take j x @ x ! j # drop (Suc j) x)"
    using assms(1) by (simp add: upd_conv_take_nth_drop flip: id_take_nth_drop)
  then show False using assms(2) by (auto dest: crc32_Checksum_single_byte)
qed

lemma Uint32_update:
  assumes "j < 4" "length ck = 4" "w \<noteq> ck ! j"
  shows "Uint32 (ck[j := w]) \<noteq> Uint32 ck"
  using assms by (metis PutUint32_Uint32 length_list_update nth_list_update_eq)

text \<open>Any single changed byte of a frame, the length prefix apart, is noticed; what follows decides
  whether it is taken for a torn tail.\<close>

lemma scanner_next_flipped:
  assumes "payload_ok p" "k < length (frame_of t p)" "lengthSize \<le> k" "w \<noteq> frame_of t p ! k"
  shows "fst (scanner_next (scan_at ((frame_of t p)[k := w] @ rest) off))
    = Inl (if rest = [] then TornTail off else Corrupt off)"
proof -
  define body where "body = t # p"
  define ck where "ck = PutUint32 (crc32_Checksum (frame_body t p))"
  define L where "L = PutUint32 (of_nat (length p))"
  have n: "1 \<le> length p" "length p \<le> MaxRecordSize" using assms(1) by (auto simp: payload_ok_def)
  have fr: "frame_of t p = L @ body @ ck" "frame_body t p = L @ body" "Uint32 ck = crc32_Checksum (L @ body)"
    and len: "length L = 4" "length ck = 4" "length body = 1 + length p"
    by (simp_all add: frame_of_def frame_body_def body_def ck_def L_def)
  note region = scanner_next_region [OF n, folded L_def]
  show ?thesis
  proof (cases "k < lengthSize + typeSize + length p")
    case True
    then have eq: "(frame_of t p)[k := w] = L @ body[k - lengthSize := w] @ ck"
        "L @ body[k - lengthSize := w] = (L @ body)[k := w]"
      using assms len unfolding fr by (auto simp: list_update_append lengthSize_def typeSize_def)
    have "w \<noteq> (L @ body) ! k" "k < length (L @ body)"
      using assms(4) True fr len by (auto simp: nth_append lengthSize_def typeSize_def split: if_splits)
    from crc32_Checksum_update [OF this(2,1)] show ?thesis
      using region [of "body[k - lengthSize := w]" ck rest off] eq fr(3) len by (simp add: size_defs Let_def)
  next
    case False
    let ?j = "k - (lengthSize + typeSize + length p)"
    have eq: "(frame_of t p)[k := w] = L @ body @ ck[?j := w]"
      using assms False len unfolding fr by (auto simp: list_update_append size_defs)
    have "w \<noteq> ck ! ?j" "?j < 4"
      using assms False fr len by (auto simp: nth_append size_defs split: if_splits)
    then show ?thesis
      using region [of body "ck[?j := w]" rest off] eq fr len Uint32_update [of ?j ck w]
      by (simp add: size_defs Let_def)
  qed
qed


lemma scan_loop_corrupt:
  "fst (scanner_next s) = Inl (Corrupt off) \<Longrightarrow> scan_loop ap s n st = Inl (CorruptError off)"
  by (subst scan_loop.simps) (auto split: prod.splits)

lemma log_image_append: "log_image (rs @ rs') = log_image rs @ concat (map frame rs')"
  by (simp add: log_image_def)

lemma frame_nonempty: "encodable r \<Longrightarrow> frame r \<noteq> []"
  by (auto simp: encodable_def frame_def frame_of_def frame_body_def split: sum.splits elim!: encodeFrame_Inr)

lemma Open_flipped:
  assumes "reliable d" "log_wf (rs @ r # rs')" "rs' \<noteq> []"
    and k: "lengthSize \<le> k" "k < length (frame r)" "w \<noteq> frame r ! k"
    and f: "file_is name f ((log_image (rs @ r # rs'))[length (log_image rs) + k := w]) d"
    and replayed: "replay ap (map canon rs) st = Inr st'"
  shows "Open name ap st d = (Inl (CorruptError (length (log_image rs))), d)"
proof -
  have wf: "list_all encodable rs" "list_all rec_ok rs" "rs \<noteq> [] \<longrightarrow> is_header (hd rs)" "encodable r" "rec_ok r"
    using assms(2) by (auto simp: log_wf_def hd_append split: if_splits)
  obtain p where p: "frame r = frame_of (recordType r) p" "payload_ok p"
    using frame_encodable [OF wf(4,5)] by blast
  have ne: "concat (map frame rs') \<noteq> []"
    using assms(2,3) by (cases rs') (auto simp: log_wf_def frame_nonempty)
  have "(log_image (rs @ r # rs'))[length (log_image rs) + k := w] =
      encodeFileHeader @ concat (map frame rs) @ (frame r)[k := w] @ concat (map frame rs')"
    using k(2) by (simp add: log_image_append list_update_append) (simp add: log_image_def)
  then have "file_is name f (encodeFileHeader @ concat (map frame rs) @ (frame r)[k := w] @ concat (map frame rs')) d"
    using f by simp
  note scan = Open_scan [OF assms(1) this, of ap st]
  let ?off = "length (log_image rs)" and ?bs = "(frame r)[k := w] @ concat (map frame rs')"
  have "fst (scanner_next (scan_at ?bs ?off)) = Inl (Corrupt ?off)"
    using scanner_next_flipped [OF p(2) k(2,1,3) [unfolded p(1)], of "concat (map frame rs')" ?off] ne p(1) by simp
  then have "scan_loop ap (scan_at ?bs ?off) (length rs) st' = Inl (CorruptError ?off)"
    by (rule scan_loop_corrupt)
  then have "scan_loop ap (scan_at (concat (map frame rs) @ ?bs) fileHeaderSize) 0 st = Inl (CorruptError ?off)"
    using scan_loop_frames [OF wf(1,2), of 0 ap ?bs fileHeaderSize st] wf(3) replayed
    unfolding log_image_length by simp
  then show ?thesis using scan by simp
qed

section \<open>Damage the scanner takes for a torn tail\<close>

text \<open>
  A length prefix that has been damaged to a larger admissible value, so that the frame seems to
  run past the end of the file, counts as a torn tail wherever it stands: the acknowledged records
  behind it are cut off.
\<close>

lemma Open_long_length:
  assumes "reliable d" "log_wf rs" "1 \<le> n" "n \<le> MaxRecordSize" "length body < typeSize + n + crcSize"
    and "file_is name f (log_image rs @ PutUint32 (of_nat n) @ body) d"
    and "replay ap (map canon rs) st = Inr st'"
  shows "Open name ap st d = (Inr (reopened name f rs, st'), cut f (length (log_image rs)) d)"
proof -
  have "scan_loop ap (scan_at (PutUint32 (of_nat n) @ body) off) m st' = Inr (m, st', Some off)" for off m
    using scanner_next_past_end [OF assms(3,4,5), of off] by (subst scan_loop.simps) (auto split: prod.splits)
  then show ?thesis
    using assms Open_scan [of d name f "concat (map frame rs) @ PutUint32 (of_nat n) @ body" ap st]
      scan_loop_frames [of rs 0 ap "PutUint32 (of_nat n) @ body" fileHeaderSize st]
    by (simp add: log_wf_def reopened_def log_image_def)
qed

text \<open>
  So does a read error: if reading stops with an I/O error at a frame boundary, everything behind
  it is cut off, although the file is intact.
\<close>

lemma Open_read_error:
  assumes "faults d = [Ok, Ok, Ok, Fail (length (concat (map frame rs)))]"
    and "log_wf rs" "file_is name f (log_image (rs @ rs')) d" "replay ap (map canon rs) st = Inr st'"
  shows "Open name ap st d = (Inr (reopened name f rs, st'), cut f (length (log_image rs)) (d\<lparr>faults := []\<rparr>))"
proof -
  let ?sz = "length (log_image (rs @ rs'))" and ?n = "length (concat (map frame rs))"
  have "scanner_next (scan_st [] True off ?sz) = (Inl (TornTail off), scan_st [] True off ?sz)" for off
    by (simp add: scanner_next_def scan_st_def io_ReadFull_def lengthSize_def)
  then have "scan_loop ap (scan_st [] True off ?sz) m st' = Inr (m, st', Some off)" for off m
    by (subst scan_loop.simps) simp
  then have loop: "scan_loop ap (scan_st (concat (map frame rs)) True fileHeaderSize ?sz) 0 st
      = Inr (length rs, st', Some (length (log_image rs)))"
    using assms(2,4) scan_loop_frames_st [of rs 0 fileHeaderSize ?sz ap "[]" True st]
    by (simp add: log_wf_def log_image_def)
  have nf: "next_fault d = (None, d\<lparr>faults := [Ok, Ok, Fail ?n]\<rparr>)"
    "next_fault (d\<lparr>faults := [Ok, Ok, Fail ?n]\<rparr>) = (None, d\<lparr>faults := [Ok, Fail ?n]\<rparr>)"
    "next_fault (d\<lparr>faults := [Ok, Fail ?n]\<rparr>) = (None, d\<lparr>faults := [Fail ?n]\<rparr>)"
    "next_fault (d\<lparr>faults := [Fail ?n]\<rparr>) = (Some ?n, d\<lparr>faults := []\<rparr>)"
    using assms(1) by (simp_all add: next_fault_def)
  have img: "content d f = encodeFileHeader @ concat (map frame rs) @ concat (map frame rs')"
    "map_of (dents d) (name @ logExt) = Some (DFile f)"
    using assms(3) by (simp_all add: file_is_def log_image_def)
  have "reliable (d\<lparr>faults := []\<rparr>)" by (simp add: reliable_def)
  then show ?thesis using loop assms(2) img
    by (simp add: Open_def OpenRdwr_def FStat_def file_reader_def io_ReadFull_def nf
        truncate_reliable reopened_def scan_st_def log_wf_def log_image_def)
qed

end
