(* ===== verification/Storage_Compaction.thy ===== *)
theory Storage_Compaction
  imports Storage_Recovery
begin

text \<open>
  \<open>internal/storage/compaction.go\<close>: replacing a log by a header and the live messages, with the
  rename of a fully written temporary as the commit point.
\<close>

definition cleanup :: "nat \<Rightarrow> string \<Rightarrow> disk \<Rightarrow> disk" where
  "cleanup tmp tmpPath d = snd (os_Remove tmpPath (snd (FClose tmp d)))"

fun encode_frames :: "Enqueue list \<Rightarrow> bytes \<Rightarrow> bytes result" where
  "encode_frames [] buf = Inr buf"
| "encode_frames (e # es) buf = (case encodeFrame (REnqueue e) of
      Inl err \<Rightarrow> Inl err
    | Inr fr \<Rightarrow> encode_frames es (buf @ fr))"

definition build_replacement :: "Header \<Rightarrow> Enqueue list \<Rightarrow> bytes result" where
  "build_replacement hdr live = (case encodeFrame (RHeader hdr) of
      Inl e \<Rightarrow> Inl e
    | Inr hdrFrame \<Rightarrow> encode_frames live (encodeFileHeader @ hdrFrame))"

text \<open>Steps 1 to 3: write, flush and close the temporary.\<close>

definition write_replacement :: "Header \<Rightarrow> Enqueue list \<Rightarrow> disk \<Rightarrow> bytes result \<times> disk" where
  "write_replacement hdr live d0 =
     (let tmpPath = h_Name hdr @ tmpExt in
      case OpenTrunc tmpPath d0 of (Inl e, d1) \<Rightarrow> (Inl e, d1) | (Inr tmp, d1) \<Rightarrow>
      (case build_replacement hdr live of Inl e \<Rightarrow> (Inl e, cleanup tmp tmpPath d1) | Inr buf \<Rightarrow>
      (case WriteAt tmp buf 0 d1 of ((_, werr), d2) \<Rightarrow>
      (case werr of Some e \<Rightarrow> (Inl e, cleanup tmp tmpPath d2) | None \<Rightarrow>
      (case FSync tmp d2 of (Some e, d3) \<Rightarrow> (Inl e, cleanup tmp tmpPath d3) | (None, d3) \<Rightarrow>
      (case FClose tmp d3 of (Some e, d4) \<Rightarrow> (Inl e, snd (os_Remove tmpPath d4)) | (None, d4) \<Rightarrow>
       (Inr buf, d4)))))))"

text \<open>Steps 4 to 6: rename, flush the directory, adopt the new file.\<close>

definition commit_replacement :: "Header \<Rightarrow> Enqueue list \<Rightarrow> bytes \<Rightarrow> Log \<Rightarrow> disk \<Rightarrow> goerror option \<times> Log \<times> disk" where
  "commit_replacement hdr live buf l d4 =
     (let tmpPath = h_Name hdr @ tmpExt in
      case os_Rename tmpPath (l_path l) d4 of
        (Some e, d5) \<Rightarrow> (Some e, l, snd (os_Remove tmpPath d5))
      | (None, d5) \<Rightarrow>
      (case syncDir d5 of (Some e, d6) \<Rightarrow> (Some e, l, d6) | (None, d6) \<Rightarrow>
      (case OpenRdwr (l_path l) d6 of
        (Inl e, d7) \<Rightarrow> (Some ErrLogBroken, l\<lparr>l_broken := Some ErrLogBroken\<rparr>, d7)
      | (Inr replacement, d7) \<Rightarrow>
          (None, l\<lparr>l_f := Some replacement, l_size := length buf, l_records := 1 + length live\<rparr>,
           snd (FClose (the (l_f l)) d7)))))"

definition Compact :: "Header \<Rightarrow> Enqueue list \<Rightarrow> Log \<Rightarrow> disk \<Rightarrow> goerror option \<times> Log \<times> disk" where
  "Compact hdr live l d0 =
     (case l_broken l of Some e \<Rightarrow> (Some e, l, d0) | None \<Rightarrow>
      (case l_f l of None \<Rightarrow> (Some ErrClosed, l, d0) | Some _ \<Rightarrow>
      (case write_replacement hdr live d0 of
         (Inl e, d4) \<Rightarrow> (Some e, l, d4)
       | (Inr buf, d4) \<Rightarrow> commit_replacement hdr live buf l d4)))"

section \<open>Facts\<close>

definition compacted :: "Header \<Rightarrow> Enqueue list \<Rightarrow> Record list" where
  "compacted hdr live = RHeader hdr # map REnqueue live"

lemma encode_frames_Inr:
  "encode_frames es buf = Inr out \<longleftrightarrow>
     list_all (\<lambda>e. encodable (REnqueue e)) es \<and> out = buf @ concat (map (\<lambda>e. frame (REnqueue e)) es)"
  by (induction es arbitrary: buf) (auto simp: encodable_def frame_def split: sum.splits)

lemma build_replacement_Inr:
  "build_replacement hdr live = Inr buf \<longleftrightarrow>
     list_all encodable (compacted hdr live) \<and> buf = log_image (compacted hdr live)"
  by (auto simp: build_replacement_def encode_frames_Inr compacted_def log_image_def encodable_def frame_def
      list_all_iff comp_def split: sum.splits)

text \<open>Every file has one name, and new inodes are fresh.\<close>

definition disk_ok :: "disk \<Rightarrow> bool" where
  "disk_ok d \<longleftrightarrow> (\<forall>n i. map_of (dents d) n = Some (DFile i) \<longrightarrow> i < next_ino d)
     \<and> (\<forall>n m i. map_of (dents d) n = Some (DFile i) \<and> map_of (dents d) m = Some (DFile i) \<longrightarrow> n = m)"

text \<open>Nothing but the file named \<open>p\<close> has been touched.\<close>

definition only_name :: "string \<Rightarrow> disk \<Rightarrow> disk \<Rightarrow> bool" where
  "only_name p d d' \<longleftrightarrow> disk_ok d'
     \<and> (\<forall>m. m \<noteq> p \<longrightarrow> map_of (dents d') m = map_of (dents d) m
         \<and> (\<forall>g. map_of (dents d) m = Some (DFile g) \<longrightarrow> content d' g = content d g \<and> synced d' g = synced d g))"

lemma only_name_trans: "only_name p d d1 \<Longrightarrow> only_name p d1 d2 \<Longrightarrow> only_name p d d2"
  by (simp add: only_name_def)

lemma only_name_refl: "disk_ok d \<Longrightarrow> only_name p d d"
  by (simp add: only_name_def)

lemma only_name_OpenTrunc:
  assumes "OpenTrunc p d = (res, d')" "disk_ok d"
  shows "only_name p d d' \<and> (case res of Inl _ \<Rightarrow> True | Inr i \<Rightarrow>
    map_of (dents d') p = Some (DFile i) \<and> content d' i = [])"
  using assms
  by (fastforce simp: OpenTrunc_def only_name_def disk_ok_def new_file_def disk_simps
      split: prod.splits option.splits dirent.splits if_splits dest!: next_fault_effect intro: less_SucI)

lemma only_name_file:
  assumes "map_of (dents d) p = Some (DFile i)" "disk_ok d" "only_file i d d'"
  shows "only_name p d d' \<and> map_of (dents d') p = Some (DFile i)"
  using assms unfolding only_name_def only_file_def disk_ok_def by metis

lemma only_name_Remove:
  assumes "os_Remove p d = (res, d')" "disk_ok d"
  shows "only_name p d d'"
  using assms by (auto simp: os_Remove_def only_name_def disk_ok_def disk_simps
      split: prod.splits option.splits if_splits dest!: next_fault_effect)

lemma only_name_FClose: "disk_ok d \<Longrightarrow> only_name p d (snd (FClose i d))"
  by (auto simp: FClose_def only_name_def disk_ok_def
      split: prod.splits option.splits dest!: next_fault_effect)

lemma only_name_cleanup: "disk_ok d \<Longrightarrow> only_name p d (cleanup i p d)"
  unfolding cleanup_def
  by (metis only_name_FClose only_name_Remove only_name_trans only_name_def prod.collapse)

lemma only_name_ok: "only_name p d d' \<Longrightarrow> disk_ok d'"
  by (simp add: only_name_def)

text \<open>Writing the temporary touches nothing else; if it succeeds the temporary is complete and durable.\<close>

lemma write_replacement_only:
  assumes wr: "write_replacement hdr live d = (res, d')" and ok: "disk_ok d"
  shows "only_name (h_Name hdr @ tmpExt) d d'"
proof -
  let ?p = "h_Name hdr @ tmpExt"
  obtain r1 d1 where o: "OpenTrunc ?p d = (r1, d1)" by force
  note on1 = only_name_OpenTrunc [OF o ok]
  show ?thesis
  proof (cases "\<exists>i buf. r1 = Inr i \<and> build_replacement hdr live = Inr buf")
    case False
    then show ?thesis using wr o on1 only_name_trans [OF _ only_name_cleanup, of ?p d d1] only_name_ok
      by (auto simp: write_replacement_def Let_def split: sum.splits)
  next
    case True
    then obtain i buf where r1: "r1 = Inr i" and buf: "build_replacement hdr live = Inr buf" by blast
    obtain n werr d2 where w: "WriteAt i buf 0 d1 = ((n, werr), d2)" by (metis prod_cases3 surj_pair)
    obtain serr d3 where s: "FSync i d2 = (serr, d3)" by force
    obtain cerr d4 where c: "FClose i d3 = (cerr, d4)" by force
    have n2: "only_name ?p d1 d2 \<and> map_of (dents d2) ?p = Some (DFile i)"
      using only_name_file [OF _ _ only_file_calls(1) [OF w]] on1 only_name_ok r1 by force
    have n3: "only_name ?p d2 d3"
      using only_name_file [OF _ _ only_file_calls(2) [OF s]] n2 only_name_ok by blast
    have n4: "only_name ?p d3 d4" using only_name_FClose [OF only_name_ok [OF n3], of ?p i] c by simp
    have n: "only_name ?p d d1" "only_name ?p d d2" "only_name ?p d d3" "only_name ?p d d4"
      using on1 n2 n3 n4 by (blast intro: only_name_trans)+
    have "only_name ?p d (cleanup i ?p d2)" "only_name ?p d (cleanup i ?p d3)" "only_name ?p d (snd (os_Remove ?p d4))"
      using n by (blast intro: only_name_trans only_name_cleanup only_name_Remove prod.collapse [symmetric] only_name_ok)+
    then show ?thesis using wr o r1 buf w s c n
      by (auto simp: write_replacement_def Let_def split: option.splits)
  qed
qed

lemma write_replacement_complete:
  assumes wr: "write_replacement hdr live d = (Inr buf, d')" and ok: "disk_ok d"
  shows "buf = log_image (compacted hdr live) \<and> list_all encodable (compacted hdr live)
    \<and> (\<exists>i. map_of (dents d') (h_Name hdr @ tmpExt) = Some (DFile i) \<and> content d' i = buf \<and> synced d' i = buf)"
proof -
  let ?p = "h_Name hdr @ tmpExt"
  obtain i d1 n d2 d3 where st: "OpenTrunc ?p d = (Inr i, d1)" "build_replacement hdr live = Inr buf"
      "WriteAt i buf 0 d1 = ((n, None), d2)" "FSync i d2 = (None, d3)" "FClose i d3 = (None, d')"
    using wr by (auto simp: write_replacement_def Let_def split: option.splits sum.splits prod.splits)
  have "map_of (dents d1) ?p = Some (DFile i)" "content d1 i = []"
    using only_name_OpenTrunc [OF st(1) ok] by auto
  moreover have "dents d' = dents d3 \<and> content d' = content d3 \<and> synced d' = synced d3"
    using st(5) by (auto simp: FClose_def split: prod.splits option.splits dest!: next_fault_effect)
  ultimately show ?thesis
    using WriteAt_end [OF st(3)] FSync_effect [OF st(4)] st(2) by (simp add: build_replacement_Inr)
qed


text \<open>
  After a compaction whose directory sync failed the name already leads to the compacted file,
  while the handle still has the replaced, nameless file open, and the log is not marked broken.
\<close>

definition log_stale :: "Record list \<Rightarrow> Record list \<Rightarrow> Log \<Rightarrow> disk \<Rightarrow> bool" where
  "log_stale rs rs' l d \<longleftrightarrow> (case l_f l of None \<Rightarrow> False | Some f \<Rightarrow>
     l_broken l = None \<and> content d f = log_image rs \<and> l_size l = length (log_image rs)
     \<and> (\<exists>g. lookup_file (l_path l) d = Some g \<and> g \<noteq> f \<and> content d g = log_image rs' \<and> synced d g = log_image rs'))"

definition log_replaced :: "Record list \<Rightarrow> Log \<Rightarrow> disk \<Rightarrow> bool" where
  "log_replaced rs' l d \<longleftrightarrow> l_broken l = Some ErrLogBroken
     \<and> (\<exists>g. lookup_file (l_path l) d = Some g \<and> content d g = log_image rs' \<and> synced d g = log_image rs')"

lemma log_holds_only_name:
  assumes "only_name p d d'" "log_holds rs l d" "l_path l \<noteq> p"
  shows "log_holds rs l d'"
  using assms by (auto simp: log_holds_def only_name_def lookup_file_def split: option.splits dirent.splits)

lemma tmp_not_log [simp]: "logExt \<noteq> tmpExt" "tmpExt \<noteq> logExt"
  by (simp_all add: logExt_def tmpExt_def)

lemma os_Rename_ok:
  assumes "os_Rename a b d = (None, d')" "disk_ok d" "map_of (dents d) a = Some e" "a \<noteq> b"
  shows "disk_ok d' \<and> map_of (dents d') b = Some e \<and> content d' = content d \<and> synced d' = synced d
    \<and> (\<forall>m. m \<noteq> b \<longrightarrow> map_of (dents d') m = (if m = a then None else map_of (dents d) m))"
  using assms by (auto simp: os_Rename_def disk_ok_def disk_simps
      split: prod.splits option.splits if_splits dest!: next_fault_effect)

lemma commit_replacement_cases:
  assumes cm: "commit_replacement hdr live buf l d = (err, l', d')" and ok: "disk_ok d"
    and l: "log_holds rs l d" "l_path l = h_Name hdr @ logExt"
    and tmp: "map_of (dents d) (h_Name hdr @ tmpExt) = Some (DFile i)" "content d i = buf" "synced d i = buf"
    and buf: "buf = log_image (compacted hdr live)" "list_all encodable (compacted hdr live)"
  shows "case err of None \<Rightarrow> log_holds (compacted hdr live) l' d' \<and> l_path l' = l_path l
    | Some e \<Rightarrow> l' = l \<and> log_holds rs l d' \<or> l' = l \<and> log_stale rs (compacted hdr live) l d'
        \<or> e = ErrLogBroken \<and> log_replaced (compacted hdr live) l' d'"
proof -
  let ?t = "h_Name hdr @ tmpExt"
  obtain f where f: "l_f l = Some f" using l by (auto simp: log_holds_def split: option.splits)
  have h: "lookup_file (l_path l) d = Some f" "content d f = log_image rs" "l_broken l = None"
      "l_size l = length (log_image rs)"
    using l f by (auto simp: log_holds_def)
  then have "i \<noteq> f" using ok tmp l(2) unfolding disk_ok_def lookup_file_def
    by (auto split: option.splits dirent.splits) (metis same_append_eq tmp_not_log(1))
  obtain rerr d5 where r: "os_Rename ?t (l_path l) d = (rerr, d5)" by force
  show ?thesis
  proof (cases rerr)
    case (Some e)
    have "disk_ok d5 \<and> only_name ?t d d5" using r Some ok
      by (auto simp: os_Rename_def only_name_def disk_ok_def split: prod.splits option.splits dest!: next_fault_effect)
    then have "only_name ?t d (snd (os_Remove ?t d5))"
      using only_name_Remove [of ?t d5] by (metis only_name_trans prod.collapse)
    then show ?thesis using cm r Some l log_holds_only_name [of ?t d _ rs l] by (auto simp: commit_replacement_def Let_def)
  next
    case None
    then have d5: "disk_ok d5" "map_of (dents d5) (l_path l) = Some (DFile i)" "content d5 = content d" "synced d5 = synced d"
      using os_Rename_ok [of ?t "l_path l" d d5 "DFile i"] r ok tmp l(2) by auto
    obtain serr d6 where s: "syncDir d5 = (serr, d6)" by force
    obtain ores d7 where o: "OpenRdwr (l_path l) d6 = (ores, d7)" by force
    have d7: "dents d7 = dents d6 \<and> content d7 = content d6 \<and> synced d7 = synced d6"
      using o by (auto simp: OpenRdwr_def split: prod.splits option.splits dirent.splits dest!: next_fault_effect)
    obtain cerr d8 where c: "FClose f d7 = (cerr, d8)" by force
    have d8: "dents d8 = dents d7 \<and> content d8 = content d7 \<and> synced d8 = synced d7"
      using c by (auto simp: FClose_def split: prod.splits option.splits dest!: next_fault_effect)
    have og: "ores = Inr g \<Longrightarrow> g = i" for g
      using o d5 syncDir_effect [OF s] by (auto simp: OpenRdwr_def split: prod.splits option.splits dest!: next_fault_effect)
    show ?thesis
      using cm r None s o c d5 d7 d8 h f og syncDir_effect [OF s] tmp buf \<open>i \<noteq> f\<close>
      by (auto simp: commit_replacement_def Let_def lookup_file_def log_holds_def log_stale_def log_replaced_def compacted_def
          split: option.splits sum.splits)
  qed
qed

lemma Compact_cases:
  assumes cm: "Compact hdr live l d = (err, l', d')" and ok: "disk_ok d"
    and l: "log_holds rs l d" "l_path l = h_Name hdr @ logExt"
  shows "case err of None \<Rightarrow> log_holds (compacted hdr live) l' d' \<and> l_path l' = l_path l
    | Some e \<Rightarrow> l' = l \<and> log_holds rs l d' \<or> l' = l \<and> log_stale rs (compacted hdr live) l d'
        \<or> e = ErrLogBroken \<and> log_replaced (compacted hdr live) l' d'"
proof -
  obtain res d4 where w: "write_replacement hdr live d = (res, d4)" by force
  note only = write_replacement_only [OF w ok]
  have holds4: "log_holds rs l d4" using log_holds_only_name [OF only l(1)] l(2) by simp
  obtain f where "l_f l = Some f" "l_broken l = None" using l by (auto simp: log_holds_def split: option.splits)
  then show ?thesis
  proof (cases res)
    case (Inl e)
    then show ?thesis using cm w holds4 \<open>l_f l = Some f\<close> \<open>l_broken l = None\<close> by (auto simp: Compact_def)
  next
    case (Inr buf)
    with write_replacement_complete [OF w [unfolded Inr] ok] obtain i where
      i: "map_of (dents d4) (h_Name hdr @ tmpExt) = Some (DFile i)" "content d4 i = buf" "synced d4 i = buf"
      and buf: "buf = log_image (compacted hdr live)" "list_all encodable (compacted hdr live)" by auto
    have "commit_replacement hdr live buf l d4 = (err, l', d')"
      using cm w Inr \<open>l_f l = Some f\<close> \<open>l_broken l = None\<close> by (simp add: Compact_def)
    from commit_replacement_cases [OF this only_name_ok [OF only] holds4 l(2) i buf] show ?thesis .
  qed
qed

section \<open>A failed directory sync\<close>

text \<open>The rename succeeds and the sync of the directory fails: the compaction reports the error
  and leaves the log stale.\<close>

lemma Compact_sync_failure:
  assumes l: "log_holds rs l d" "l_path l = h_Name hdr @ logExt" and ok: "disk_ok d"
    and enc: "list_all encodable (compacted hdr live)"
    and tmp: "map_of (dents d) (h_Name hdr @ tmpExt) = None"
    and f: "faults d = [Ok, Ok, Ok, Ok, Ok, Ok, Fail 0]"
  shows "\<exists>d'. Compact hdr live l d = (Some io_error, l, d') \<and> log_stale rs (compacted hdr live) l d' \<and> reliable d'"
proof -
  let ?buf = "log_image (compacted hdr live)"
  obtain h where h: "l_f l = Some h" "l_broken l = None" "lookup_file (l_path l) d = Some h" "content d h = log_image rs"
      "l_size l = length (log_image rs)" using l by (auto simp: log_holds_def split: option.splits)
  then have fresh: "h \<noteq> next_ino d" using ok by (auto simp: disk_ok_def lookup_file_def split: option.splits dirent.splits)
  have b: "build_replacement hdr live = Inr ?buf" using enc by (simp add: build_replacement_Inr)
  define e where "e = d\<lparr>faults := []\<rparr>"
  have d: "d = e\<lparr>faults := [Ok, Ok, Ok, Ok, Ok, Ok, Fail 0]\<rparr>" using f by (simp add: e_def)
  have ow: "overwrite [] 0 x = x" for x by (simp add: overwrite_def)
  define d4 where "d4 = e\<lparr>dents := set_dent (h_Name hdr @ tmpExt) (DFile (next_ino e)) (dents e),
     content := (content e)(next_ino e := ?buf), synced := (synced e)(next_ino e := ?buf),
     next_ino := Suc (next_ino e)\<rparr>"
  have w: "write_replacement hdr live d = (Inr ?buf, d4\<lparr>faults := [Ok, Ok, Fail 0]\<rparr>)"
    using tmp b unfolding d
    by (simp add: write_replacement_def OpenTrunc_def WriteAt_def FSync_def FClose_def new_file_def next_fault_def ow d4_def Let_def)
  define d6 where "d6 = d4\<lparr>dents := set_dent (l_path l) (DFile (next_ino e)) (del_dent (h_Name hdr @ tmpExt) (dents d4)), faults := []\<rparr>"
  have r: "commit_replacement hdr live ?buf l (d4\<lparr>faults := [Ok, Ok, Fail 0]\<rparr>) = (Some io_error, l, d6)"
    by (simp add: commit_replacement_def os_Rename_def syncDir_def DirOpen_def DirSync_def FClose_def Let_def
        next_fault_def d4_def d6_def disk_simps)
  have "log_stale rs (compacted hdr live) l d6"
    using h fresh unfolding d6_def d4_def e_def by (simp add: log_stale_def lookup_file_def disk_simps)
  moreover have "reliable d6" by (simp add: d6_def reliable_def)
  ultimately show ?thesis using w r h by (simp add: Compact_def)
qed

text \<open>From then on appends are acknowledged and written to the nameless file.\<close>

lemma Append_stale:
  assumes "log_stale rs rs' l d" "reliable d" "encodable r"
  shows "\<exists>l' d' g. Log_Append r l d = (None, l', d') \<and> lookup_file (l_path l) d' = Some g
    \<and> content d' g = log_image rs'"
proof -
  obtain fr where fr: "encodeFrame r = Inr fr" using assms(3) by (auto simp: encodable_def split: sum.splits)
  obtain f g where f: "l_f l = Some f" "l_broken l = None" "content d f = log_image rs" "l_size l = length (log_image rs)"
      and g: "lookup_file (l_path l) d = Some g" "g \<noteq> f" "content d g = log_image rs'"
    using assms(1) by (auto simp: log_stale_def split: option.splits)
  let ?d = "d\<lparr>content := (content d)(f := log_image rs @ fr), synced := (synced d)(f := log_image rs @ fr)\<rparr>"
  have "\<exists>l'. Log_Append r l d = (None, l', ?d)"
    using f fr assms(2) by (simp add: Log_Append_def WriteAt_def FSync_def)
  moreover have "lookup_file (l_path l) ?d = Some g" "content ?d g = log_image rs'"
    using g by (simp_all add: lookup_file_def)
  ultimately show ?thesis by blast
qed

section \<open>Effects on the rest of the directory\<close>

lemma disk_ok_cong: "dents d' = dents d \<Longrightarrow> next_ino d' = next_ino d \<Longrightarrow> disk_ok d' = disk_ok d"
  by (simp add: disk_ok_def)

lemma os_Rename_disk_ok:
  assumes "os_Rename a b d = (err, d')" "disk_ok d"
  shows "disk_ok d'"
proof (cases err)
  case None
  then obtain e where "map_of (dents d) a = Some e" "a = b \<or> a \<noteq> b"
    using assms(1) by (auto simp: os_Rename_def split: prod.splits option.splits dest!: next_fault_effect)
  then show ?thesis using assms None
    by (auto simp: os_Rename_def disk_ok_def disk_simps split: prod.splits option.splits if_splits dest!: next_fault_effect)
next
  case (Some e)
  then show ?thesis using assms
    by (auto simp: os_Rename_def disk_ok_def split: prod.splits option.splits dest!: next_fault_effect)
qed

lemma commit_replacement_disk_ok:
  assumes "commit_replacement hdr live buf l d = (err, l', d')" "disk_ok d"
  shows "disk_ok d'"
proof -
  let ?t = "h_Name hdr @ tmpExt"
  obtain rerr d5 where r: "os_Rename ?t (l_path l) d = (rerr, d5)" by force
  have ok5: "disk_ok d5" by (rule os_Rename_disk_ok [OF r assms(2)])
  obtain serr d6 where s: "syncDir d5 = (serr, d6)" by force
  have ok6: "disk_ok d6" using syncDir_effect [OF s] ok5 by (simp add: disk_ok_cong [of d6 d5])
  obtain ores d7 where o: "OpenRdwr (l_path l) d6 = (ores, d7)" by force
  have "dents d7 = dents d6 \<and> next_ino d7 = next_ino d6"
    using o by (auto simp: OpenRdwr_def split: prod.splits option.splits dirent.splits dest!: next_fault_effect)
  then have ok7: "disk_ok d7" using ok6 by (simp add: disk_ok_cong [of d7 d6])
  have "disk_ok (snd (os_Remove ?t d5))" "disk_ok (snd (FClose i d7))" for i
    using only_name_Remove [of ?t d5] only_name_FClose [OF ok7] ok5 by (metis prod.collapse only_name_ok)+
  then show ?thesis using assms(1) r s o ok6 ok7
    by (auto simp: commit_replacement_def Let_def split: option.splits sum.splits)
qed

lemma Compact_disk_ok:
  assumes "Compact hdr live l d = (err, l', d')" "disk_ok d"
  shows "disk_ok d'"
proof -
  obtain res d4 where w: "write_replacement hdr live d = (res, d4)" by force
  have "disk_ok d4" by (rule only_name_ok [OF write_replacement_only [OF w assms(2)]])
  then show ?thesis using assms w commit_replacement_disk_ok
    by (auto simp: Compact_def split: option.splits sum.splits)
qed

end
