(* ===== verification/Queue_Model.thy ===== *)
theory Queue_Model
  imports Msg_Heap Storage_Compaction
begin

text \<open>
  \<open>internal/queue/queue.go\<close>, \<open>compaction.go\<close> and the data part of \<open>scheduler.go\<close>: the state of one
  queue and every operation on it, each as one atomic step (the code holds \<open>mu\<close> throughout).

  What the environment decides is an argument: the clock reading \<open>now\<close>, the random bytes \<open>rnd\<close> and the
  operations of the log (\<open>logStore\<close>), which act on a log handle \<open>'l\<close> and on the world \<open>'w\<close> it lives
  in; \<open>storage_log\<close> is the instance of the program, a log on the disk. Messages are addresses into
  the queue's store, so that aliasing between heaps and the in-flight map is explicit. \<open>None\<close> as
  the outcome of an operation is a run-time panic. A Go map is an association list; the code only
  iterates over one to collect or push all entries.
\<close>

section \<open>State\<close>

record ('l, 'w) logStore =
  ls_Append :: "Record \<Rightarrow> 'l \<Rightarrow> 'w \<Rightarrow> goerror option \<times> 'l \<times> 'w"
  ls_Records :: "'l \<Rightarrow> nat"
  ls_Compact :: "Header \<Rightarrow> Enqueue list \<Rightarrow> 'l \<Rightarrow> 'w \<Rightarrow> goerror option \<times> 'l \<times> 'w"
  ls_Close :: "'l \<Rightarrow> 'w \<Rightarrow> goerror option \<times> 'l \<times> 'w"

definition storage_log :: "(Log, disk) logStore" where
  "storage_log = \<lparr>ls_Append = Log_Append, ls_Records = Log_Records, ls_Compact = Compact, ls_Close = Log_Close\<rparr>"

record Stats =
  st_Ready :: nat
  st_Delayed :: nat
  st_InFlight :: nat
  st_TotalEnqueued :: "64 word"
  st_TotalAcked :: "64 word"

record Config =
  c_Name :: string
  c_Ordering :: Ordering
  c_CreatedAt :: Time

text \<open>
  \<open>q_parked\<close> are the goroutines waiting on the condition variable. A channel that has not been made is
  \<open>None\<close>; \<open>q_kick\<close> then says whether its one slot is full, \<open>q_done\<close> whether it is closed. \<open>q_store\<close>
  and \<open>q_next\<close> are the heap the messages are allocated in.
\<close>

record 'l Queue =
  q_name :: string
  q_ordering :: Ordering
  q_createdAt :: Time
  q_ready :: msgHeap
  q_delayed :: msgHeap
  q_expiry :: msgHeap
  q_inflight :: "(string \<times> addr) list"
  q_nextSeq :: "64 word"
  q_enqueued :: "64 word"
  q_acked :: "64 word"
  q_log :: 'l
  q_closed :: bool
  q_compactThreshold :: int
  q_kick :: "bool option"
  q_done :: "bool option"
  q_parked :: "nat list"
  q_store :: store
  q_next :: addr

datatype which = Ready | Delayed | Expiry

fun q_heap :: "which \<Rightarrow> 'l Queue \<Rightarrow> msgHeap" where
  "q_heap Ready q = q_ready q"
| "q_heap Delayed q = q_delayed q"
| "q_heap Expiry q = q_expiry q"

fun set_heap :: "which \<Rightarrow> heap_state \<Rightarrow> 'l Queue \<Rightarrow> 'l Queue" where
  "set_heap Ready hs q = q\<lparr>q_ready := fst hs, q_store := snd hs\<rparr>"
| "set_heap Delayed hs q = q\<lparr>q_delayed := fst hs, q_store := snd hs\<rparr>"
| "set_heap Expiry hs q = q\<lparr>q_expiry := fst hs, q_store := snd hs\<rparr>"

text \<open>\<open>heap.Push\<close>, \<open>heap.Pop\<close> and \<open>heap.Remove\<close> on one of the queue's heaps.\<close>

definition push :: "which \<Rightarrow> addr \<Rightarrow> 'l Queue \<Rightarrow> 'l Queue" where
  "push w a q = set_heap w (heap_Push a (q_heap w q, q_store q)) q"

definition pop :: "which \<Rightarrow> 'l Queue \<Rightarrow> (addr \<times> 'l Queue) option" where
  "pop w q = (case heap_Pop (q_heap w q, q_store q) of
      None \<Rightarrow> None | Some (a, hs) \<Rightarrow> Some (a, set_heap w hs q))"

definition remove :: "which \<Rightarrow> int \<Rightarrow> 'l Queue \<Rightarrow> (addr \<times> 'l Queue) option" where
  "remove w i q = (case heap_Remove i (q_heap w q, q_store q) of
      None \<Rightarrow> None | Some (a, hs) \<Rightarrow> Some (a, set_heap w hs q))"

definition modify :: "addr \<Rightarrow> (Message \<Rightarrow> Message) \<Rightarrow> 'l Queue \<Rightarrow> 'l Queue" where
  "modify a f q = q\<lparr>q_store := (q_store q)(a := f (q_store q a))\<rparr>"

definition allocate :: "Message \<Rightarrow> 'l Queue \<Rightarrow> addr \<times> 'l Queue" where
  "allocate m q = (q_next q, q\<lparr>q_store := (q_store q)(q_next q := m), q_next := q_next q + 1\<rparr>)"

definition map_delete :: "'k \<Rightarrow> ('k \<times> 'v) list \<Rightarrow> ('k \<times> 'v) list" where
  "map_delete k xs = filter (\<lambda>x. fst x \<noteq> k) xs"

definition map_insert :: "'k \<Rightarrow> 'v \<Rightarrow> ('k \<times> 'v) list \<Rightarrow> ('k \<times> 'v) list" where
  "map_insert k v xs = map_delete k xs @ [(k, v)]"

section \<open>Names, construction, signalling\<close>

definition is_alnum :: "char \<Rightarrow> bool" where
  "is_alnum c \<longleftrightarrow> (let n = (of_char c :: nat) in 48 \<le> n \<and> n \<le> 57 \<or> 65 \<le> n \<and> n \<le> 90 \<or> 97 \<le> n \<and> n \<le> 122)"

definition name_char :: "char \<Rightarrow> bool" where
  "name_char c \<longleftrightarrow> is_alnum c \<or> c = CHR ''_'' \<or> c = CHR ''-''"

definition ValidateName :: "string \<Rightarrow> goerror option" where
  "ValidateName name =
     (if name \<noteq> [] \<and> is_alnum (hd name) \<and> list_all name_char (tl name) \<and> length (tl name) \<le> 63 then None
      else Some (ErrOther ''queue name''))"

definition newQueue :: "Config \<Rightarrow> 'l \<Rightarrow> 64 word \<Rightarrow> 64 word \<Rightarrow> 64 word \<Rightarrow> 'l Queue" where
  "newQueue cfg st nextSeq enqueued acked =
     \<lparr>q_name = c_Name cfg, q_ordering = c_Ordering cfg, q_createdAt = c_CreatedAt cfg,
      q_ready = newReadyHeap (c_Ordering cfg), q_delayed = newDelayedHeap, q_expiry = newExpiryHeap,
      q_inflight = [], q_nextSeq = nextSeq, q_enqueued = enqueued, q_acked = acked,
      q_log = st, q_closed = False, q_compactThreshold = 0, q_kick = None, q_done = None, q_parked = [],
      q_store = (\<lambda>_. \<lparr>ID = '''', Seq = 0, Priority = 0, Body = '''', CreatedAt = zero_time, AvailableAt = zero_time,
        MState = StateNone, ReceiveCount = 0, Receipt = '''', Deadline = zero_time, m_index = 0\<rparr>),
      q_next = 0\<rparr>"

text \<open>The goroutine \<open>start\<close> launches is the scheduler of the step relation; here the channels are made.\<close>

definition start :: "'l Queue \<Rightarrow> 'l Queue" where
  "start q = q\<lparr>q_kick := Some False, q_done := Some False\<rparr>"

definition Broadcast :: "'l Queue \<Rightarrow> 'l Queue" where
  "Broadcast q = q\<lparr>q_parked := []\<rparr>"

definition wakeScheduler :: "'l Queue \<Rightarrow> 'l Queue" where
  "wakeScheduler q = (case q_kick q of None \<Rightarrow> q | Some _ \<Rightarrow> q\<lparr>q_kick := Some True\<rparr>)"

definition Queue_Config :: "'l Queue \<Rightarrow> Config" where
  "Queue_Config q = \<lparr>c_Name = q_name q, c_Ordering = q_ordering q, c_CreatedAt = q_createdAt q\<rparr>"

definition Queue_Stats :: "'l Queue \<Rightarrow> Stats" where
  "Queue_Stats q = \<lparr>st_Ready = heap_Len (q_ready q), st_Delayed = heap_Len (q_delayed q),
     st_InFlight = length (q_inflight q), st_TotalEnqueued = q_enqueued q, st_TotalAcked = q_acked q\<rparr>"

section \<open>Compaction\<close>

definition liveCount :: "'l Queue \<Rightarrow> nat" where
  "liveCount q = heap_Len (q_ready q) + heap_Len (q_delayed q) + length (q_inflight q)"

definition enqueue_record :: "Message \<Rightarrow> Enqueue" where
  "enqueue_record m = \<lparr>e_ID = ID m, e_Seq = Seq m, e_Priority = Priority m,
     e_CreatedAt = toMillis (CreatedAt m), e_AvailableAt = toMillis (AvailableAt m), e_Body = Body m\<rparr>"

definition live_records :: "'l Queue \<Rightarrow> Enqueue list" where
  "live_records q = map (\<lambda>a. enqueue_record (q_store q a))
     (items (q_ready q) @ items (q_delayed q) @ map snd (q_inflight q))"

definition compact_header :: "'l Queue \<Rightarrow> Header" where
  "compact_header q = \<lparr>h_Name = q_name q, h_Ordering = ordering_string (q_ordering q),
     h_CreatedAt = toMillis (q_createdAt q), h_NextSeq = q_nextSeq q,
     h_TotalEnqueued = q_enqueued q - of_nat (length (live_records q)), h_TotalAcked = q_acked q\<rparr>"

definition compactLocked :: "('l, 'w) logStore \<Rightarrow> 'l Queue \<Rightarrow> 'w \<Rightarrow> goerror option \<times> 'l Queue \<times> 'w" where
  "compactLocked ls q w = (case ls_Compact ls (compact_header q) (live_records q) (q_log q) w of
      (err, l, w') \<Rightarrow> (err, q\<lparr>q_log := l\<rparr>, w'))"

definition maybeCompact :: "('l, 'w) logStore \<Rightarrow> 'l Queue \<Rightarrow> 'w \<Rightarrow> 'l Queue \<times> 'w" where
  "maybeCompact ls q w =
     (if q_compactThreshold q \<le> 0 then (q, w)
      else let records = int (ls_Records ls (q_log q)) in
        if records < q_compactThreshold q \<or> records < 2 * (int (liveCount q) + 1) then (q, w)
        else snd (compactLocked ls q w))"

section \<open>Operations\<close>

definition errNegativeDelay :: goerror where
  "errNegativeDelay = ErrOther ''delay must not be negative''"

text \<open>The end of \<open>Enqueue\<close> and \<open>Nack\<close>: file the message as delayed or ready and wake who may care.\<close>

definition file_message :: "Duration \<Rightarrow> addr \<Rightarrow> 'l Queue \<Rightarrow> 'l Queue" where
  "file_message delay a q =
     Broadcast
       (if delay > 0 then
          (let q1 = push Delayed a (modify a (\<lambda>m. m\<lparr>MState := StateDelayed\<rparr>) q)
           in if peek (q_delayed q1) = Some a then wakeScheduler q1 else q1)
        else push Ready a (modify a (\<lambda>m. m\<lparr>MState := StateReady\<rparr>) q))"

definition new_message :: "string \<Rightarrow> 64 word \<Rightarrow> int \<Rightarrow> RawMessage \<Rightarrow> Time \<Rightarrow> Time \<Rightarrow> Message" where
  "new_message i sq prio body created available =
     \<lparr>ID = i, Seq = sq, Priority = prio, Body = body, CreatedAt = created, AvailableAt = available,
      MState = StateNone, ReceiveCount = 0, Receipt = '''', Deadline = zero_time, m_index = 0\<rparr>"

definition Queue_Enqueue ::
  "('l, 'w) logStore \<Rightarrow> RawMessage \<Rightarrow> int \<Rightarrow> Duration \<Rightarrow> Time \<Rightarrow> bytes option \<Rightarrow> 'l Queue \<Rightarrow> 'w
    \<Rightarrow> string result \<times> 'l Queue \<times> 'w" where
  "Queue_Enqueue ls body priority delay now rnd q w =
     (if length body = 0 then (Inl ErrEmptyBody, q, w)
      else if delay < 0 then (Inl errNegativeDelay, q, w)
      else case newID rnd of Inl e \<Rightarrow> (Inl e, q, w) | Inr i \<Rightarrow>
      (let available = now + delay in
       if q_closed q then (Inl ErrQueueDeleted, q, w)
       else
         let sq = q_nextSeq q;
             rec = REnqueue \<lparr>e_ID = i, e_Seq = sq, e_Priority = priority, e_CreatedAt = toMillis now,
               e_AvailableAt = toMillis available, e_Body = body\<rparr> in
         case ls_Append ls rec (q_log q) w of
           (Some e, l, w1) \<Rightarrow> (Inl e, q\<lparr>q_log := l\<rparr>, w1)
         | (None, l, w1) \<Rightarrow>
             (let q1 = q\<lparr>q_log := l, q_nextSeq := q_nextSeq q + 1, q_enqueued := q_enqueued q + 1\<rparr> in
              case allocate (new_message i sq priority body now available) q1 of (a, q2) \<Rightarrow>
              (case maybeCompact ls (file_message delay a q2) w1 of (q3, w2) \<Rightarrow> (Inr i, q3, w2)))))"

definition popReady ::
  "Duration \<Rightarrow> Time \<Rightarrow> bytes option \<Rightarrow> 'l Queue \<Rightarrow> (Delivery option result \<times> 'l Queue) option" where
  "popReady visibility now rnd q =
     (if heap_Len (q_ready q) = 0 then Some (Inr None, q)
      else case newReceipt rnd of Inl e \<Rightarrow> Some (Inl e, q) | Inr receipt \<Rightarrow>
      (case pop Ready q of None \<Rightarrow> None | Some (a, q1) \<Rightarrow>
       (let q2 = modify a (\<lambda>m. m\<lparr>MState := StateInFlight, ReceiveCount := ReceiveCount m + 1,
                   Receipt := receipt, Deadline := now + visibility\<rparr>) q1;
            q3 = push Expiry a (q2\<lparr>q_inflight := map_insert receipt a (q_inflight q2)\<rparr>);
            q4 = (if peek (q_expiry q3) = Some a then wakeScheduler q3 else q3)
        in Some (Inr (Some (delivery (q_store q4 a))), q4))))"

text \<open>
  One round of the loop in \<open>Receive\<close>: it returns, or parks the goroutine on the condition variable.
  A wait that is not positive never parks. \<open>deadline\<close> is the clock at the call plus \<open>wait\<close>.
\<close>

datatype recv = Return "Delivery option result" | Park

definition receive_round ::
  "nat \<Rightarrow> Duration \<Rightarrow> Duration \<Rightarrow> Time \<Rightarrow> goerror option \<Rightarrow> Time \<Rightarrow> Time \<Rightarrow> bytes option \<Rightarrow> 'l Queue
    \<Rightarrow> (recv \<times> 'l Queue) option" where
  "receive_round g visibility wait deadline ctxErr now1 now2 rnd q =
     (if q_closed q then Some (Return (Inl ErrQueueDeleted), q)
      else case popReady visibility now1 rnd q of
        None \<Rightarrow> None
      | Some (Inl e, q1) \<Rightarrow> Some (Return (Inl e), q1)
      | Some (Inr (Some d), q1) \<Rightarrow> Some (Return (Inr (Some d)), q1)
      | Some (Inr None, q1) \<Rightarrow>
          if wait \<le> 0 \<or> \<not> now2 < deadline then Some (Return (Inr None), q1)
          else (case ctxErr of
              Some e \<Rightarrow> Some (Return (Inl e), q1)
            | None \<Rightarrow> Some (Park, q1\<lparr>q_parked := g # q_parked q1\<rparr>)))"

definition Queue_Ack ::
  "('l, 'w) logStore \<Rightarrow> string \<Rightarrow> 'l Queue \<Rightarrow> 'w \<Rightarrow> (goerror option \<times> 'l Queue \<times> 'w) option" where
  "Queue_Ack ls receipt q w =
     (if q_closed q then Some (Some ErrQueueDeleted, q, w)
      else case map_of (q_inflight q) receipt of None \<Rightarrow> Some (Some ErrReceiptNotFound, q, w) | Some a \<Rightarrow>
      (case ls_Append ls (RAck \<lparr>a_ID = ID (q_store q a)\<rparr>) (q_log q) w of
         (Some e, l, w1) \<Rightarrow> Some (Some e, q\<lparr>q_log := l\<rparr>, w1)
       | (None, l, w1) \<Rightarrow>
           (let q1 = q\<lparr>q_log := l, q_inflight := map_delete receipt (q_inflight q)\<rparr> in
            case remove Expiry (m_index (q_store q1 a)) q1 of None \<Rightarrow> None | Some (_, q2) \<Rightarrow>
              (case maybeCompact ls (q2\<lparr>q_acked := q_acked q2 + 1\<rparr>) w1 of (q3, w2) \<Rightarrow> Some (None, q3, w2)))))"

definition Queue_Nack ::
  "('l, 'w) logStore \<Rightarrow> string \<Rightarrow> Duration \<Rightarrow> Time \<Rightarrow> 'l Queue \<Rightarrow> 'w \<Rightarrow> (goerror option \<times> 'l Queue \<times> 'w) option" where
  "Queue_Nack ls receipt delay now q w =
     (if delay < 0 then Some (Some errNegativeDelay, q, w)
      else if q_closed q then Some (Some ErrQueueDeleted, q, w)
      else case map_of (q_inflight q) receipt of None \<Rightarrow> Some (Some ErrReceiptNotFound, q, w) | Some a \<Rightarrow>
      (let available = now + delay in
       case ls_Append ls (RNack \<lparr>n_ID = ID (q_store q a), n_AvailableAt = toMillis available\<rparr>) (q_log q) w of
         (Some e, l, w1) \<Rightarrow> Some (Some e, q\<lparr>q_log := l\<rparr>, w1)
       | (None, l, w1) \<Rightarrow>
           (let q1 = q\<lparr>q_log := l, q_inflight := map_delete receipt (q_inflight q)\<rparr> in
            case remove Expiry (m_index (q_store q1 a)) q1 of None \<Rightarrow> None | Some (_, q2) \<Rightarrow>
              (let q3 = modify a (\<lambda>m. m\<lparr>Receipt := '''', Deadline := zero_time, AvailableAt := available\<rparr>) q2 in
               case maybeCompact ls (file_message delay a q3) w1 of (q4, w2) \<Rightarrow> Some (None, q4, w2)))))"

section \<open>Due messages\<close>

text \<open>The two loops of \<open>processDue\<close>, each bounded by the length of the heap it empties.\<close>

fun promote :: "nat \<Rightarrow> Time \<Rightarrow> bool \<Rightarrow> 'l Queue \<Rightarrow> (bool \<times> 'l Queue) option" where
  "promote 0 now changed q = Some (changed, q)"
| "promote (Suc n) now changed q =
     (case peek (q_delayed q) of None \<Rightarrow> Some (changed, q) | Some a \<Rightarrow>
      if AvailableAt (q_store q a) > now then Some (changed, q)
      else case pop Delayed q of None \<Rightarrow> None | Some (_, q1) \<Rightarrow>
        promote n now True (push Ready a (modify a (\<lambda>m. m\<lparr>MState := StateReady\<rparr>) q1)))"

fun expire :: "nat \<Rightarrow> Time \<Rightarrow> bool \<Rightarrow> 'l Queue \<Rightarrow> (bool \<times> 'l Queue) option" where
  "expire 0 now changed q = Some (changed, q)"
| "expire (Suc n) now changed q =
     (case peek (q_expiry q) of None \<Rightarrow> Some (changed, q) | Some a \<Rightarrow>
      if Deadline (q_store q a) > now then Some (changed, q)
      else case pop Expiry q of None \<Rightarrow> None | Some (_, q1) \<Rightarrow>
        (let q2 = q1\<lparr>q_inflight := map_delete (Receipt (q_store q1 a)) (q_inflight q1)\<rparr>;
             q3 = modify a (\<lambda>m. m\<lparr>Receipt := '''', Deadline := zero_time, MState := StateReady\<rparr>) q2
         in expire n now True (push Ready a q3)))"

definition next_due :: "'l Queue \<Rightarrow> Time option" where
  "next_due q =
     (let d = map_option (\<lambda>a. AvailableAt (q_store q a)) (peek (q_delayed q)) in
      case peek (q_expiry q) of
        None \<Rightarrow> d
      | Some e \<Rightarrow>
          (case d of
             None \<Rightarrow> Some (Deadline (q_store q e))
           | Some t \<Rightarrow> if Deadline (q_store q e) < t then Some (Deadline (q_store q e)) else d))"

definition processDue :: "Time \<Rightarrow> 'l Queue \<Rightarrow> (Time option \<times> 'l Queue) option" where
  "processDue now q =
     (case promote (heap_Len (q_delayed q)) now False q of None \<Rightarrow> None | Some (c1, q1) \<Rightarrow>
      (case expire (heap_Len (q_expiry q1)) now c1 q1 of None \<Rightarrow> None | Some (c2, q2) \<Rightarrow>
       (let q3 = (if c2 then Broadcast q2 else q2) in Some (next_due q3, q3))))"

section \<open>Closing\<close>

text \<open>
  \<open>Close\<close> releases the lock while it waits for the scheduler to stop: the first critical section marks
  the queue closed and closes \<open>done\<close>, the second compacts and closes the log. Between the two only the
  scheduler can still change the queue.
\<close>

definition Close_begin :: "'l Queue \<Rightarrow> 'l Queue" where
  "Close_begin q = (Broadcast (q\<lparr>q_closed := True\<rparr>))\<lparr>q_done := map_option (\<lambda>_. True) (q_done q)\<rparr>"

definition Close_finish :: "('l, 'w) logStore \<Rightarrow> 'l Queue \<Rightarrow> 'w \<Rightarrow> goerror option \<times> 'l Queue \<times> 'w" where
  "Close_finish ls q w =
     (case (if q_compactThreshold q > 0 then snd (compactLocked ls q w) else (q, w)) of
        (q1, w1) \<Rightarrow> (case ls_Close ls (q_log q1) w1 of (err, l, w2) \<Rightarrow> (err, q1\<lparr>q_log := l\<rparr>, w2)))"

fun run_due :: "Time list \<Rightarrow> 'l Queue \<Rightarrow> 'l Queue option" where
  "run_due [] q = Some q"
| "run_due (t # ts) q = (case processDue t q of None \<Rightarrow> None | Some (_, q1) \<Rightarrow> run_due ts q1)"

definition Queue_Close ::
  "('l, 'w) logStore \<Rightarrow> Time list \<Rightarrow> 'l Queue \<Rightarrow> 'w \<Rightarrow> (goerror option \<times> 'l Queue \<times> 'w) option" where
  "Queue_Close ls ts q w =
     (if q_closed q then Some (None, q, w)
      else map_option (\<lambda>q1. Close_finish ls q1 w) (run_due ts (Close_begin q)))"

section \<open>Creating and recovering a queue\<close>

definition createQueue :: "Config \<Rightarrow> int \<Rightarrow> disk \<Rightarrow> Log Queue result \<times> disk" where
  "createQueue cfg compactThreshold d0 =
     (case ValidateName (c_Name cfg) of Some e \<Rightarrow> (Inl e, d0) | None \<Rightarrow>
      (let hdr = \<lparr>h_Name = c_Name cfg, h_Ordering = ordering_string (c_Ordering cfg),
             h_CreatedAt = toMillis (c_CreatedAt cfg), h_NextSeq = 1, h_TotalEnqueued = 0, h_TotalAcked = 0\<rparr> in
       case Create (c_Name cfg) hdr d0 of
         (Inl e, d1) \<Rightarrow> (Inl e, d1)
       | (Inr l, d1) \<Rightarrow> (Inr (start ((newQueue cfg l 1 0 0)\<lparr>q_compactThreshold := compactThreshold\<rparr>)), d1)))"

text \<open>The variables the replay closure of \<open>openQueue\<close> captures.\<close>

record recovery =
  rv_cfg :: Config
  rv_live :: "(string \<times> Message) list"
  rv_nextSeq :: "64 word"
  rv_enqueued :: "64 word"
  rv_acked :: "64 word"
  rv_seenHdr :: bool

definition recovery_start :: recovery where
  "recovery_start = \<lparr>rv_cfg = \<lparr>c_Name = '''', c_Ordering = FIFO, c_CreatedAt = zero_time\<rparr>, rv_live = [],
     rv_nextSeq = 1, rv_enqueued = 0, rv_acked = 0, rv_seenHdr = False\<rparr>"

fun apply_record :: "Record \<Rightarrow> recovery \<Rightarrow> recovery result" where
  "apply_record (RHeader r) s = (case ParseOrdering (h_Ordering r) of
      Inl e \<Rightarrow> Inl e
    | Inr odr \<Rightarrow> Inr (s\<lparr>rv_cfg := \<lparr>c_Name = h_Name r, c_Ordering = odr, c_CreatedAt = fromMillis (h_CreatedAt r)\<rparr>,
        rv_nextSeq := (if h_NextSeq r > rv_nextSeq s then h_NextSeq r else rv_nextSeq s),
        rv_enqueued := h_TotalEnqueued r, rv_acked := h_TotalAcked r, rv_seenHdr := True\<rparr>))"
| "apply_record (REnqueue r) s = Inr (s\<lparr>
      rv_live := map_insert (e_ID r) (new_message (e_ID r) (e_Seq r) (e_Priority r) (e_Body r)
        (fromMillis (e_CreatedAt r)) (fromMillis (e_AvailableAt r))) (rv_live s),
      rv_nextSeq := (if e_Seq r \<ge> rv_nextSeq s then e_Seq r + 1 else rv_nextSeq s),
      rv_enqueued := rv_enqueued s + 1\<rparr>)"
| "apply_record (RAck r) s = Inr (s\<lparr>rv_live := map_delete (a_ID r) (rv_live s), rv_acked := rv_acked s + 1\<rparr>)"
| "apply_record (RNack r) s = Inr (s\<lparr>rv_live := map (\<lambda>x. if fst x = n_ID r
      then (fst x, (snd x)\<lparr>AvailableAt := fromMillis (n_AvailableAt r)\<rparr>) else x) (rv_live s)\<rparr>)"

definition admit :: "Time \<Rightarrow> Message \<Rightarrow> 'l Queue \<Rightarrow> 'l Queue" where
  "admit now m q = (case allocate m q of (a, q1) \<Rightarrow>
      if AvailableAt m > now then push Delayed a (modify a (\<lambda>m. m\<lparr>MState := StateDelayed\<rparr>) q1)
      else push Ready a (modify a (\<lambda>m. m\<lparr>MState := StateReady\<rparr>) q1))"

definition rebuild :: "recovery \<Rightarrow> 'l \<Rightarrow> int \<Rightarrow> Time \<Rightarrow> 'l Queue" where
  "rebuild s l compactThreshold now =
     start (fold (\<lambda>x. admit now (snd x)) (rv_live s)
       ((newQueue (rv_cfg s) l (rv_nextSeq s) (rv_enqueued s) (rv_acked s))\<lparr>q_compactThreshold := compactThreshold\<rparr>))"

definition openQueue :: "string \<Rightarrow> int \<Rightarrow> Time \<Rightarrow> disk \<Rightarrow> Log Queue result \<times> disk" where
  "openQueue name compactThreshold now d0 =
     (case Open name apply_record recovery_start d0 of
        (Inl e, d1) \<Rightarrow> (Inl e, d1)
      | (Inr (l, s), d1) \<Rightarrow>
          if \<not> rv_seenHdr s then (Inl (ErrOther ''log has no header record''), snd (snd (Log_Close l d1)))
          else if c_Name (rv_cfg s) \<noteq> name then (Inl (ErrOther ''log header names queue''), snd (snd (Log_Close l d1)))
          else (Inr (rebuild s l compactThreshold now), d1))"

end
