(* ===== verification/Queue_Inv.thy ===== *)
theory Queue_Inv
  imports Queue_Model
begin

text \<open>
  The well-formedness invariant of a queue and its preservation by every operation, with the proof
  that no operation panics.

  The heap part says that the three heaps are heaps for their comparators, that a message is in at
  most one of them and carries the state of that heap; the in-flight part ties the receipt map to the
  expiry heap. The effect lemmas for \<open>push\<close>, \<open>pop\<close> and \<open>remove\<close> rest on the \<open>comparator\<close> locale of
  the heap theory through its interpretations.
\<close>

section \<open>Heaps of a queue\<close>

fun cmp :: "Ordering \<Rightarrow> which \<Rightarrow> Message \<Rightarrow> Message \<Rightarrow> bool" where
  "cmp odr Ready = less (newReadyHeap odr)"
| "cmp odr Delayed = less newDelayedHeap"
| "cmp odr Expiry = less newExpiryHeap"

fun state_of :: "which \<Rightarrow> State" where
  "state_of Ready = StateReady"
| "state_of Delayed = StateDelayed"
| "state_of Expiry = StateInFlight"

abbreviation addrs :: "which \<Rightarrow> 'l Queue \<Rightarrow> addr list" where
  "addrs w q \<equiv> items (q_heap w q)"

definition heaps_inv :: "'l Queue \<Rightarrow> bool" where
  "heaps_inv q \<longleftrightarrow> (\<forall>w. less (q_heap w q) = cmp (q_ordering q) w \<and> heap_ok (q_heap w q) (q_store q))
     \<and> (\<forall>w. \<forall>a \<in> set (addrs w q). a < q_next q \<and> MState (q_store q a) = state_of w)
     \<and> (\<forall>w w'. w \<noteq> w' \<longrightarrow> set (addrs w q) \<inter> set (addrs w' q) = {})"

definition unfiled :: "addr \<Rightarrow> 'l Queue \<Rightarrow> bool" where
  "unfiled a q \<longleftrightarrow> a < q_next q \<and> (\<forall>w. a \<notin> set (addrs w q))"

text \<open>A message without its heap position: what the queue promises about it.\<close>

definition core :: "Message \<Rightarrow> Message" where
  "core m = m\<lparr>m_index := 0\<rparr>"

lemma comparator_cmp: "comparator (cmp odr w)"
  by (cases w) (simp_all add: ready.comparator_axioms delayed.comparator_axioms expiry.comparator_axioms)

lemma q_heap_set_heap [simp]: "q_heap w' (set_heap w hs q) = (if w' = w then fst hs else q_heap w' q)"
  by (cases w; cases w') simp_all

lemma set_heap_fields [simp]:
  "q_store (set_heap w hs q) = snd hs" "q_next (set_heap w hs q) = q_next q"
  "q_inflight (set_heap w hs q) = q_inflight q" "q_ordering (set_heap w hs q) = q_ordering q"
  "q_name (set_heap w hs q) = q_name q" "q_createdAt (set_heap w hs q) = q_createdAt q"
  "q_nextSeq (set_heap w hs q) = q_nextSeq q" "q_enqueued (set_heap w hs q) = q_enqueued q"
  "q_acked (set_heap w hs q) = q_acked q" "q_log (set_heap w hs q) = q_log q"
  "q_closed (set_heap w hs q) = q_closed q" "q_compactThreshold (set_heap w hs q) = q_compactThreshold q"
  "q_kick (set_heap w hs q) = q_kick q" "q_done (set_heap w hs q) = q_done q" "q_parked (set_heap w hs q) = q_parked q"
  by (cases w; simp)+

lemma modify_fields [simp]:
  "q_store (modify a f q) = (q_store q)(a := f (q_store q a))" "q_next (modify a f q) = q_next q"
  "q_inflight (modify a f q) = q_inflight q" "q_ordering (modify a f q) = q_ordering q"
  "q_name (modify a f q) = q_name q" "q_createdAt (modify a f q) = q_createdAt q"
  "q_nextSeq (modify a f q) = q_nextSeq q" "q_enqueued (modify a f q) = q_enqueued q"
  "q_acked (modify a f q) = q_acked q" "q_log (modify a f q) = q_log q"
  "q_closed (modify a f q) = q_closed q" "q_compactThreshold (modify a f q) = q_compactThreshold q"
  "q_kick (modify a f q) = q_kick q" "q_done (modify a f q) = q_done q" "q_parked (modify a f q) = q_parked q"
  "q_heap w (modify a f q) = q_heap w q"
  by (simp_all add: modify_def) (cases w; simp)

lemma q_heap_upd [simp]:
  "q_heap w (q\<lparr>q_log := l\<rparr>) = q_heap w q" "q_heap w (q\<lparr>q_nextSeq := s\<rparr>) = q_heap w q"
  "q_heap w (q\<lparr>q_enqueued := s\<rparr>) = q_heap w q" "q_heap w (q\<lparr>q_acked := s\<rparr>) = q_heap w q"
  "q_heap w (q\<lparr>q_inflight := i\<rparr>) = q_heap w q" "q_heap w (q\<lparr>q_closed := b\<rparr>) = q_heap w q"
  "q_heap w (q\<lparr>q_kick := k\<rparr>) = q_heap w q" "q_heap w (q\<lparr>q_done := k\<rparr>) = q_heap w q"
  "q_heap w (q\<lparr>q_parked := p\<rparr>) = q_heap w q" "q_heap w (q\<lparr>q_compactThreshold := c\<rparr>) = q_heap w q"
  "q_heap w (q\<lparr>q_store := st\<rparr>) = q_heap w q" "q_heap w (q\<lparr>q_next := n\<rparr>) = q_heap w q"
  by (cases w; simp)+

lemma same_msg_core: "same_msg m m' \<longleftrightarrow> core m = core m'"
  by (simp add: same_msg_def core_def)

lemma core_fields:
  assumes "core m = core m'"
  shows "ID m = ID m'" "Seq m = Seq m'" "Priority m = Priority m'" "Body m = Body m'" "CreatedAt m = CreatedAt m'"
    "AvailableAt m = AvailableAt m'" "MState m = MState m'" "ReceiveCount m = ReceiveCount m'"
    "Receipt m = Receipt m'" "Deadline m = Deadline m'"
  using assms by (cases m; cases m'; simp add: core_def)+

lemma moves_core: "moves A st st' \<Longrightarrow> core (st' a) = core (st a)"
  by (simp add: moves_def same_msg_core)

lemma moves_other: "moves A st st' \<Longrightarrow> a \<notin> A \<Longrightarrow> st' a = st a"
  by (simp add: moves_def)

text \<open>An operation that only rearranges the heap \<open>w\<close> keeps the other two.\<close>

lemma heaps_inv_set_heap:
  assumes inv: "heaps_inv q" and mv: "moves A (q_store q) st"
    and A: "\<And>w'. w' \<noteq> w \<Longrightarrow> A \<inter> set (addrs w' q) = {}"
    and h: "heap_ok h st" "less h = cmp (q_ordering q) w"
    and new: "\<And>a. a \<in> set (items h) \<Longrightarrow> a < q_next q \<and> MState (q_store q a) = state_of w"
      "\<And>w'. w' \<noteq> w \<Longrightarrow> set (items h) \<inter> set (addrs w' q) = {}"
  shows "heaps_inv (set_heap w (h, st) q)"
  unfolding heaps_inv_def
proof (intro conjI allI impI ballI)
  have st: "MState (st a) = MState (q_store q a)" for a
    using moves_core [OF mv, of a] by (rule core_fields)
  fix w'
  show "less (q_heap w' (set_heap w (h, st) q)) = cmp (q_ordering (set_heap w (h, st) q)) w'"
    using inv h by (simp add: heaps_inv_def)
  show "heap_ok (q_heap w' (set_heap w (h, st) q)) (q_store (set_heap w (h, st) q))"
  proof (cases "w' = w")
    case False
    have "heap_ok (q_heap w' q) st = heap_ok (q_heap w' q) (q_store q)"
      by (rule heap_ok_cong) (use moves_other [OF mv] A [OF False] in blast)
    then show ?thesis using inv False by (simp add: heaps_inv_def)
  qed (use h in simp)
  fix a assume "a \<in> set (addrs w' (set_heap w (h, st) q))"
  then show "a < q_next (set_heap w (h, st) q)" "MState (q_store (set_heap w (h, st) q) a) = state_of w'"
    using new(1) inv st by (auto simp: heaps_inv_def split: if_splits)
next
  fix w1 w2 :: which assume "w1 \<noteq> w2"
  then show "set (addrs w1 (set_heap w (h, st) q)) \<inter> set (addrs w2 (set_heap w (h, st) q)) = {}"
    using new(2) inv unfolding heaps_inv_def by (auto split: if_splits)
qed


lemma push_fields [simp]:
  "q_next (push w a q) = q_next q"
  "q_inflight (push w a q) = q_inflight q" "q_ordering (push w a q) = q_ordering q"
  "q_name (push w a q) = q_name q" "q_createdAt (push w a q) = q_createdAt q"
  "q_nextSeq (push w a q) = q_nextSeq q" "q_enqueued (push w a q) = q_enqueued q"
  "q_acked (push w a q) = q_acked q" "q_log (push w a q) = q_log q"
  "q_closed (push w a q) = q_closed q" "q_compactThreshold (push w a q) = q_compactThreshold q"
  "q_kick (push w a q) = q_kick q" "q_done (push w a q) = q_done q" "q_parked (push w a q) = q_parked q"
  "w' \<noteq> w \<Longrightarrow> q_heap w' (push w a q) = q_heap w' q"
  by (simp_all add: push_def)

lemma push_effect:
  assumes inv: "heaps_inv q" and a: "unfiled a q" "MState (q_store q a) = state_of w"
  shows "heaps_inv (push w a q)" "mset (addrs w (push w a q)) = add_mset a (mset (addrs w q))"
    "core (q_store (push w a q) b) = core (q_store q b)"
proof -
  have pre: "less (q_heap w q) = cmp (q_ordering q) w" "heap_ok (q_heap w q) (q_store q)" "a \<notin> set (addrs w q)"
    using inv a by (simp_all add: heaps_inv_def unfiled_def)
  obtain h' st' where h: "heap_Push a (q_heap w q, q_store q) = (h', st')" "heap_ok h' st'" "less h' = cmp (q_ordering q) w"
      "mset (items h') = add_mset a (mset (addrs w q))" "moves (insert a (set (addrs w q))) (q_store q) st'"
    using comparator.heap_Push_effect [OF comparator_cmp pre] by blast
  have set: "set (items h') = insert a (set (addrs w q))" using arg_cong [OF h(4), of set_mset] by simp
  show "heaps_inv (push w a q)"
    unfolding push_def h(1)
    by (rule heaps_inv_set_heap [OF inv h(5) _ h(2,3)])
      (use inv a in \<open>auto simp: set heaps_inv_def unfiled_def\<close>)
  show "mset (addrs w (push w a q)) = add_mset a (mset (addrs w q))" by (simp add: push_def h)
  show "core (q_store (push w a q) b) = core (q_store q b)" using moves_core [OF h(5)] by (simp add: push_def h)
qed

lemma distinct_removed: "distinct xs \<Longrightarrow> mset xs = add_mset a (mset ys) \<Longrightarrow> a \<notin> set ys \<and> distinct ys"
  using mset_eq_imp_distinct_iff [of xs "a # ys"] by simp

lemma heaps_inv_disjoint: "heaps_inv q \<Longrightarrow> w \<noteq> w' \<Longrightarrow> a \<in> set (addrs w q) \<Longrightarrow> a \<notin> set (addrs w' q)"
  unfolding heaps_inv_def by blast

text \<open>Taking a message out of a heap, from the top or from the middle.\<close>

lemma extract_effect:
  assumes inv: "heaps_inv q" and h: "heap_ok h' st'" "less h' = cmp (q_ordering q) w"
    "mset (addrs w q) = add_mset a (mset (items h'))" "moves (set (addrs w q)) (q_store q) st'"
  shows "heaps_inv (set_heap w (h', st') q) \<and> unfiled a (set_heap w (h', st') q)
    \<and> (\<forall>b. core (st' b) = core (q_store q b))"
proof -
  have set: "set (addrs w q) = insert a (set (items h'))" using arg_cong [OF h(3), of set_mset] by simp
  have "distinct (addrs w q)" using inv by (simp add: heaps_inv_def heap_ok_def)
  from distinct_removed [OF this h(3)] have notin: "a \<notin> set (items h')" by simp
  have mem: "b < q_next q \<and> MState (q_store q b) = state_of w \<and> (w' \<noteq> w \<longrightarrow> b \<notin> set (addrs w' q))"
    if "b \<in> set (addrs w q)" for b w'
    using inv heaps_inv_disjoint [OF inv, of w w' b] that by (auto simp: heaps_inv_def)
  have "heaps_inv (set_heap w (h', st') q)"
    by (rule heaps_inv_set_heap [OF inv h(4) _ h(1,2)]) (use mem set in blast)+
  moreover have "unfiled a (set_heap w (h', st') q)"
    using mem [of a] set notin by (auto simp: unfiled_def)
  ultimately show ?thesis using moves_core [OF h(4)] by simp
qed

lemma pop_effect:
  assumes inv: "heaps_inv q" and ne: "addrs w q \<noteq> []"
  shows "\<exists>hs. pop w q = Some (addrs w q ! 0, set_heap w hs q) \<and> heaps_inv (set_heap w hs q)
    \<and> mset (addrs w q) = add_mset (addrs w q ! 0) (mset (items (fst hs))) \<and> unfiled (addrs w q ! 0) (set_heap w hs q)
    \<and> (\<forall>b. core (snd hs b) = core (q_store q b))"
proof -
  have pre: "less (q_heap w q) = cmp (q_ordering q) w" "heap_ok (q_heap w q) (q_store q)"
    using inv by (simp_all add: heaps_inv_def)
  from comparator.heap_Pop_effect [OF comparator_cmp pre ne] obtain h' st'
    where h: "heap_Pop (q_heap w q, q_store q) = Some (addrs w q ! 0, h', st')" "heap_ok h' st'" "less h' = cmp (q_ordering q) w"
      "mset (addrs w q) = add_mset (addrs w q ! 0) (mset (items h'))" "moves (set (addrs w q)) (q_store q) st'" by blast
  with extract_effect [OF inv h(2-5)] show ?thesis by (intro exI [of _ "(h', st')"]) (simp add: pop_def)
qed

lemma remove_effect:
  assumes inv: "heaps_inv q" and a: "a \<in> set (addrs w q)"
  shows "\<exists>hs. remove w (m_index (q_store q a)) q = Some (a, set_heap w hs q) \<and> heaps_inv (set_heap w hs q)
    \<and> mset (addrs w q) = add_mset a (mset (items (fst hs))) \<and> unfiled a (set_heap w hs q)
    \<and> (\<forall>b. core (snd hs b) = core (q_store q b))"
proof -
  have pre: "less (q_heap w q) = cmp (q_ordering q) w" "heap_ok (q_heap w q) (q_store q)"
    using inv by (simp_all add: heaps_inv_def)
  obtain i where i: "i < length (addrs w q)" "a = addrs w q ! i" using a by (metis in_set_conv_nth)
  then have idx: "m_index (q_store q a) = int i" using pre(2) by (simp add: heap_ok_def indexed_def)
  from comparator.heap_Remove_effect [OF comparator_cmp pre i(1)] i(2) obtain h' st'
    where h: "heap_Remove (int i) (q_heap w q, q_store q) = Some (a, h', st')" "heap_ok h' st'" "less h' = cmp (q_ordering q) w"
      "mset (addrs w q) = add_mset a (mset (items h'))" "moves (set (addrs w q)) (q_store q) st'" by blast
  with extract_effect [OF inv h(2-5)] idx show ?thesis by (intro exI [of _ "(h', st')"]) (simp add: remove_def)
qed

lemma heaps_inv_modify: "heaps_inv q \<Longrightarrow> unfiled a q \<Longrightarrow> heaps_inv (modify a f q)"
proof -
  assume inv: "heaps_inv q" and a: "unfiled a q"
  have "heap_ok (q_heap w q) ((q_store q)(a := f (q_store q a))) = heap_ok (q_heap w q) (q_store q)" for w
    by (rule heap_ok_cong) (use a in \<open>auto simp: unfiled_def\<close>)
  then show ?thesis using inv a unfolding heaps_inv_def unfiled_def by auto
qed

lemma unfiled_upd [simp]: "unfiled b (modify a f q) = unfiled b q"
  by (simp add: unfiled_def)

lemma heaps_inv_fields:
  assumes "\<And>w. q_heap w q' = q_heap w q" "q_ordering q' = q_ordering q" "q_store q' = q_store q" "q_next q' = q_next q"
  shows "heaps_inv q' = heaps_inv q" "unfiled a q' = unfiled a q"
  using assms by (simp_all add: heaps_inv_def unfiled_def)

lemma heaps_inv_upd [simp]:
  "heaps_inv (q\<lparr>q_log := l\<rparr>) = heaps_inv q" "heaps_inv (q\<lparr>q_nextSeq := s\<rparr>) = heaps_inv q"
  "heaps_inv (q\<lparr>q_enqueued := s\<rparr>) = heaps_inv q" "heaps_inv (q\<lparr>q_acked := s\<rparr>) = heaps_inv q"
  "heaps_inv (q\<lparr>q_inflight := i\<rparr>) = heaps_inv q" "heaps_inv (q\<lparr>q_closed := b\<rparr>) = heaps_inv q"
  "heaps_inv (q\<lparr>q_kick := k\<rparr>) = heaps_inv q" "heaps_inv (q\<lparr>q_done := k\<rparr>) = heaps_inv q"
  "heaps_inv (q\<lparr>q_parked := p\<rparr>) = heaps_inv q" "heaps_inv (q\<lparr>q_compactThreshold := c\<rparr>) = heaps_inv q"
  "unfiled a (q\<lparr>q_log := l\<rparr>) = unfiled a q" "unfiled a (q\<lparr>q_inflight := i\<rparr>) = unfiled a q"
  "unfiled a (q\<lparr>q_nextSeq := s\<rparr>) = unfiled a q" "unfiled a (q\<lparr>q_enqueued := s\<rparr>) = unfiled a q"
  "unfiled a (q\<lparr>q_acked := s\<rparr>) = unfiled a q" "unfiled a (q\<lparr>q_parked := p\<rparr>) = unfiled a q"
  by (rule heaps_inv_fields; simp)+

lemma heaps_inv_allocate:
  assumes "heaps_inv q" "allocate m q = (a, q')"
  shows "heaps_inv q' \<and> unfiled a q' \<and> q_store q' a = m \<and> (\<forall>w. q_heap w q' = q_heap w q)
    \<and> a = q_next q \<and> q_store q' = (q_store q)(q_next q := m)"
proof -
  have a: "a = q_next q" "q' = q\<lparr>q_store := (q_store q)(q_next q := m), q_next := q_next q + 1\<rparr>"
    using assms(2) by (auto simp: allocate_def)
  have "q_next q \<notin> set (addrs w q)" for w using assms(1) by (auto simp: heaps_inv_def)
  then have "heap_ok (q_heap w q) ((q_store q)(q_next q := m)) = heap_ok (q_heap w q) (q_store q)" for w
    by (intro heap_ok_cong) auto
  then show ?thesis using assms(1) \<open>\<And>w. q_next q \<notin> set (addrs w q)\<close> unfolding a
    by (fastforce simp: heaps_inv_def unfiled_def)
qed

declare q_heap.simps [simp del] set_heap.simps [simp del]

lemma q_heap_fold: "q_ready q = q_heap Ready q" "q_delayed q = q_heap Delayed q" "q_expiry q = q_heap Expiry q"
  by (simp_all add: q_heap.simps)

section \<open>The contents of a heap\<close>

definition view :: "'l Queue \<Rightarrow> which \<Rightarrow> Message multiset" where
  "view q w = image_mset (\<lambda>a. core (q_store q a)) (mset (addrs w q))"

lemma view_cong:
  assumes "\<And>w. q_heap w q' = q_heap w q" "\<And>w a. a \<in> set (addrs w q) \<Longrightarrow> core (q_store q' a) = core (q_store q a)"
  shows "view q' = view q"
  using assms by (auto simp: view_def fun_eq_iff intro!: image_mset_cong)

lemma view_upd [simp]:
  "view (q\<lparr>q_log := l\<rparr>) = view q" "view (q\<lparr>q_nextSeq := s\<rparr>) = view q" "view (q\<lparr>q_enqueued := s\<rparr>) = view q"
  "view (q\<lparr>q_acked := s\<rparr>) = view q" "view (q\<lparr>q_inflight := i\<rparr>) = view q" "view (q\<lparr>q_closed := b\<rparr>) = view q"
  "view (q\<lparr>q_kick := k\<rparr>) = view q" "view (q\<lparr>q_done := k\<rparr>) = view q" "view (q\<lparr>q_parked := p\<rparr>) = view q"
  "view (q\<lparr>q_compactThreshold := c\<rparr>) = view q"
  by (rule view_cong; simp)+

lemma view_modify: "unfiled a q \<Longrightarrow> view (modify a f q) = view q"
  by (rule view_cong) (auto simp: unfiled_def)

lemma view_push:
  assumes "heaps_inv q" "unfiled a q" "MState (q_store q a) = state_of w"
  shows "view (push w a q) = (view q)(w := add_mset (core (q_store q a)) (view q w))"
proof
  fix w'
  show "view (push w a q) w' = ((view q)(w := add_mset (core (q_store q a)) (view q w))) w'"
    using push_effect [OF assms] by (cases "w' = w") (simp_all add: view_def)
qed

lemma view_set_heap:
  assumes "mset (addrs w q) = add_mset a (mset (items (fst hs)))" "\<And>b. core (snd hs b) = core (q_store q b)"
  shows "view q w = add_mset (core (q_store q a)) (view (set_heap w hs q) w)"
    "view (set_heap w hs q) = (view q)(w := view q w - {#core (q_store q a)#})"
  using assms by (auto simp: view_def fun_eq_iff)

lemma size_view [simp]: "size (view q w) = length (addrs w q)"
  by (simp add: view_def)

section \<open>The invariant\<close>

definition infl_inv :: "'l Queue \<Rightarrow> bool" where
  "infl_inv q \<longleftrightarrow> distinct (map fst (q_inflight q)) \<and> mset (map snd (q_inflight q)) = mset (addrs Expiry q)
     \<and> (\<forall>x \<in> set (q_inflight q). Receipt (q_store q (snd x)) = fst x)"

definition queue_inv :: "'l Queue \<Rightarrow> bool" where
  "queue_inv q \<longleftrightarrow> heaps_inv q \<and> infl_inv q"

lemma infl_inv_cong:
  assumes "q_inflight q' = q_inflight q" "mset (addrs Expiry q') = mset (addrs Expiry q)"
    "\<And>a. a \<in> set (addrs Expiry q) \<Longrightarrow> core (q_store q' a) = core (q_store q a)"
  shows "infl_inv q' = infl_inv q"
proof -
  have "Receipt (q_store q' a) = Receipt (q_store q a)" if "a \<in> set (addrs Expiry q)" for a
    using assms(3) [OF that] core_fields(9) by blast
  moreover have "snd x \<in> set (addrs Expiry q)" if "mset (map snd (q_inflight q)) = mset (addrs Expiry q)" "x \<in> set (q_inflight q)" for x
    using that by (metis image_eqI list.set_map mset_eq_setD)
  ultimately show ?thesis using assms(1,2) by (auto simp: infl_inv_def)
qed

lemma queue_inv_fields [simp]:
  "queue_inv (q\<lparr>q_log := l\<rparr>) = queue_inv q" "queue_inv (q\<lparr>q_nextSeq := s\<rparr>) = queue_inv q"
  "queue_inv (q\<lparr>q_enqueued := s\<rparr>) = queue_inv q" "queue_inv (q\<lparr>q_acked := s\<rparr>) = queue_inv q"
  "queue_inv (q\<lparr>q_closed := b\<rparr>) = queue_inv q" "queue_inv (q\<lparr>q_kick := k\<rparr>) = queue_inv q"
  "queue_inv (q\<lparr>q_done := k\<rparr>) = queue_inv q" "queue_inv (q\<lparr>q_parked := p\<rparr>) = queue_inv q"
  "queue_inv (q\<lparr>q_compactThreshold := c\<rparr>) = queue_inv q"
  by (simp_all add: queue_inv_def infl_inv_def)

text \<open>A receipt in the map leads to the one in-flight message that carries it.\<close>

lemma inflight_lookup:
  assumes "queue_inv q" "map_of (q_inflight q) r = Some a"
  shows "a \<in> set (addrs Expiry q)" "Receipt (q_store q a) = r"
proof -
  have "(r, a) \<in> set (q_inflight q)" using assms(2) by (rule map_of_SomeD)
  then show "Receipt (q_store q a) = r" using assms(1) by (force simp: queue_inv_def infl_inv_def)
  show "a \<in> set (addrs Expiry q)"
    using \<open>(r, a) \<in> set (q_inflight q)\<close> assms(1) unfolding queue_inv_def infl_inv_def
    by (metis image_eqI list.set_map mset_eq_setD snd_conv)
qed

lemma inflight_unique:
  assumes "queue_inv q" "a \<in> set (addrs Expiry q)"
  shows "map_of (q_inflight q) (Receipt (q_store q a)) = Some a"
proof -
  have "a \<in> snd ` set (q_inflight q)"
    using assms unfolding queue_inv_def infl_inv_def by (metis list.set_map mset_eq_setD)
  then obtain r where "(r, a) \<in> set (q_inflight q)" by force
  moreover have "Receipt (q_store q a) = r"
    using calculation assms(1) by (force simp: queue_inv_def infl_inv_def)
  ultimately show ?thesis using assms(1) by (simp add: queue_inv_def infl_inv_def)
qed

lemma map_of_delete [simp]: "map_of (map_delete k xs) = (map_of xs)(k := None)"
  by (induction xs) (auto simp: map_delete_def fun_eq_iff)

lemma map_of_insert [simp]: "map_of (map_insert k v xs) = (map_of xs)(k \<mapsto> v)"
proof -
  have "map_of (map_delete k xs @ [(k, v)]) k' = ((map_of xs)(k \<mapsto> v)) k'" for k'
    by (cases "k' = k") (simp_all add: map_add_def split: option.splits)
  then show ?thesis by (simp add: map_insert_def fun_eq_iff)
qed

lemma mset_map_delete:
  assumes "distinct (map fst xs)" "map_of xs k = Some v"
  shows "mset xs = add_mset (k, v) (mset (map_delete k xs))"
  using assms
proof (induction xs)
  case (Cons x xs)
  show ?case
  proof (cases "fst x = k")
    case True
    have "k \<notin> fst ` set xs" using Cons.prems(1) True by auto
    then have "map_delete k xs = xs" by (force simp: map_delete_def filter_id_conv)
    then show ?thesis using Cons.prems True by (cases x) (auto simp: map_delete_def)
  next
    case False
    then show ?thesis using Cons by (cases x) (auto simp: map_delete_def)
  qed
qed simp

lemma distinct_map_delete: "distinct (map fst xs) \<Longrightarrow> distinct (map fst (map_delete k xs))"
  by (simp add: map_delete_def distinct_map_filter)

lemma map_delete_new: "map_of xs k = None \<Longrightarrow> map_delete k xs = xs"
  by (auto simp: map_delete_def filter_id_conv map_of_eq_None_iff)


section \<open>Filing, delivering and extracting a message\<close>

lemma Broadcast_fields [simp]: "view (Broadcast q) = view q" "queue_inv (Broadcast q) = queue_inv q"
  "heaps_inv (Broadcast q) = heaps_inv q" "q_log (Broadcast q) = q_log q"
  "q_store (Broadcast q) = q_store q" "q_heap w (Broadcast q) = q_heap w q" "q_inflight (Broadcast q) = q_inflight q"
  "q_nextSeq (Broadcast q) = q_nextSeq q" "q_enqueued (Broadcast q) = q_enqueued q" "q_acked (Broadcast q) = q_acked q"
  "q_ordering (Broadcast q) = q_ordering q" "q_name (Broadcast q) = q_name q" "q_createdAt (Broadcast q) = q_createdAt q"
  "q_closed (Broadcast q) = q_closed q" "q_compactThreshold (Broadcast q) = q_compactThreshold q"
  "q_kick (Broadcast q) = q_kick q" "q_next (Broadcast q) = q_next q"
  by (simp_all add: Broadcast_def)

lemma wakeScheduler_fields [simp]: "view (wakeScheduler q) = view q" "queue_inv (wakeScheduler q) = queue_inv q"
  "heaps_inv (wakeScheduler q) = heaps_inv q" "q_log (wakeScheduler q) = q_log q"
  "q_store (wakeScheduler q) = q_store q" "q_heap w (wakeScheduler q) = q_heap w q" "q_inflight (wakeScheduler q) = q_inflight q"
  "q_nextSeq (wakeScheduler q) = q_nextSeq q" "q_enqueued (wakeScheduler q) = q_enqueued q" "q_acked (wakeScheduler q) = q_acked q"
  "q_ordering (wakeScheduler q) = q_ordering q" "q_name (wakeScheduler q) = q_name q" "q_createdAt (wakeScheduler q) = q_createdAt q"
  "q_closed (wakeScheduler q) = q_closed q" "q_compactThreshold (wakeScheduler q) = q_compactThreshold q"
  "q_parked (wakeScheduler q) = q_parked q" "q_next (wakeScheduler q) = q_next q"
  by (simp_all add: wakeScheduler_def split: option.splits)

definition a_file :: "Duration \<Rightarrow> Message \<Rightarrow> (which \<Rightarrow> Message multiset) \<Rightarrow> which \<Rightarrow> Message multiset" where
  "a_file delay m A =
     (if delay > 0 then A(Delayed := add_mset (m\<lparr>MState := StateDelayed\<rparr>) (A Delayed))
      else A(Ready := add_mset (m\<lparr>MState := StateReady\<rparr>) (A Ready)))"

lemma core_upd [simp]:
  "core (m\<lparr>MState := s\<rparr>) = (core m)\<lparr>MState := s\<rparr>" "core (m\<lparr>Receipt := r\<rparr>) = (core m)\<lparr>Receipt := r\<rparr>"
  "core (m\<lparr>Deadline := t\<rparr>) = (core m)\<lparr>Deadline := t\<rparr>" "core (m\<lparr>AvailableAt := t\<rparr>) = (core m)\<lparr>AvailableAt := t\<rparr>"
  "core (m\<lparr>ReceiveCount := c\<rparr>) = (core m)\<lparr>ReceiveCount := c\<rparr>"
  by (simp_all add: core_def)

lemma core_select [simp]:
  "ID (core m) = ID m" "Seq (core m) = Seq m" "Priority (core m) = Priority m" "Body (core m) = Body m"
  "CreatedAt (core m) = CreatedAt m" "AvailableAt (core m) = AvailableAt m" "MState (core m) = MState m"
  "ReceiveCount (core m) = ReceiveCount m" "Receipt (core m) = Receipt m" "Deadline (core m) = Deadline m"
  "m_index (core m) = 0"
  by (simp_all add: core_def)

text \<open>Moving an unfiled message into a heap after giving it the state of that heap.\<close>

lemma push_modified:
  assumes "heaps_inv q" "unfiled a q" "MState (f (q_store q a)) = state_of w"
  defines "q' \<equiv> push w a (modify a f q)"
  shows "heaps_inv q'" "view q' = (view q)(w := add_mset (core (f (q_store q a))) (view q w))"
    "mset (addrs w q') = add_mset a (mset (addrs w q))" "w' \<noteq> w \<Longrightarrow> q_heap w' q' = q_heap w' q"
    "b \<noteq> a \<Longrightarrow> core (q_store q' b) = core (q_store q b)" "core (q_store q' a) = core (f (q_store q a))"
proof -
  have m: "heaps_inv (modify a f q)" "unfiled a (modify a f q)" "MState (q_store (modify a f q) a) = state_of w"
    using assms heaps_inv_modify by auto
  show "heaps_inv q'" "view q' = (view q)(w := add_mset (core (f (q_store q a))) (view q w))"
    "mset (addrs w q') = add_mset a (mset (addrs w q))" "w' \<noteq> w \<Longrightarrow> q_heap w' q' = q_heap w' q"
    "b \<noteq> a \<Longrightarrow> core (q_store q' b) = core (q_store q b)" "core (q_store q' a) = core (f (q_store q a))"
    unfolding q'_def using push_effect [OF m] view_push [OF m] view_modify [OF assms(2)] by simp_all
qed

lemma file_message_effect:
  assumes inv: "heaps_inv q" and a: "unfiled a q"
  shows "heaps_inv (file_message delay a q)" "view (file_message delay a q) = a_file delay (core (q_store q a)) (view q)"
    "q_heap Expiry (file_message delay a q) = q_heap Expiry q"
    "b \<noteq> a \<Longrightarrow> core (q_store (file_message delay a q) b) = core (q_store q b)"
  using push_modified [OF inv a, of "\<lambda>m. m\<lparr>MState := StateDelayed\<rparr>" Delayed]
    push_modified [OF inv a, of "\<lambda>m. m\<lparr>MState := StateReady\<rparr>" Ready]
  by (simp_all add: file_message_def a_file_def Let_def q_heap_fold)

lemma file_message_fields [simp]:
  "q_inflight (file_message delay a q) = q_inflight q" "q_log (file_message delay a q) = q_log q"
  "q_nextSeq (file_message delay a q) = q_nextSeq q" "q_enqueued (file_message delay a q) = q_enqueued q"
  "q_acked (file_message delay a q) = q_acked q" "q_closed (file_message delay a q) = q_closed q"
  "q_ordering (file_message delay a q) = q_ordering q" "q_name (file_message delay a q) = q_name q"
  "q_createdAt (file_message delay a q) = q_createdAt q"
  "q_compactThreshold (file_message delay a q) = q_compactThreshold q" "q_parked (file_message delay a q) = []"
  by (simp_all add: file_message_def Let_def) (simp_all add: Broadcast_def)

lemma infl_inv_file_message:
  assumes "heaps_inv q" "unfiled a q"
  shows "infl_inv (file_message delay a q) = infl_inv q"
proof (rule infl_inv_cong)
  fix b assume "b \<in> set (addrs Expiry q)"
  then have "b \<noteq> a" using assms(2) by (auto simp: unfiled_def)
  then show "core (q_store (file_message delay a q) b) = core (q_store q b)"
    by (rule file_message_effect(4) [OF assms])
qed (simp_all add: file_message_effect [OF assms])

lemma maybeCompact_log: "\<exists>l. fst (maybeCompact ls q w) = q\<lparr>q_log := l\<rparr>"
  by (auto simp: maybeCompact_def compactLocked_def Let_def split: prod.splits) (metis Queue.surjective Queue.update_convs(11))+


lemma maybeCompact_effect:
  assumes "maybeCompact ls q w = (q', w')"
  shows "view q' = view q" "queue_inv q' = queue_inv q" "heaps_inv q' = heaps_inv q" "infl_inv q' = infl_inv q"
    "q_inflight q' = q_inflight q" "q_nextSeq q' = q_nextSeq q" "q_enqueued q' = q_enqueued q" "q_acked q' = q_acked q"
    "q_ordering q' = q_ordering q" "q_name q' = q_name q" "q_closed q' = q_closed q" "q_parked q' = q_parked q"
    "q_kick q' = q_kick q" "q_store q' = q_store q" "q_heap v q' = q_heap v q"
proof -
  obtain l where q': "q' = q\<lparr>q_log := l\<rparr>" using maybeCompact_log [of ls q w] assms by auto
  show "view q' = view q" "queue_inv q' = queue_inv q" "heaps_inv q' = heaps_inv q" "infl_inv q' = infl_inv q"
    "q_inflight q' = q_inflight q" "q_nextSeq q' = q_nextSeq q" "q_enqueued q' = q_enqueued q" "q_acked q' = q_acked q"
    "q_ordering q' = q_ordering q" "q_name q' = q_name q" "q_closed q' = q_closed q" "q_parked q' = q_parked q"
    "q_kick q' = q_kick q" "q_store q' = q_store q" "q_heap v q' = q_heap v q"
    by (simp_all add: q' infl_inv_def)
qed

section \<open>Enqueue\<close>

lemma core_new_message [simp]: "core (new_message i s p b c t) = new_message i s p b c t"
  by (simp add: core_def new_message_def)

lemma Enqueue_effect:
  assumes inv: "queue_inv q" and enq: "Queue_Enqueue ls body prio delay now rnd q w = (Inr i, q', w')"
  shows "queue_inv q'"
    "view q' = a_file delay (new_message i (q_nextSeq q) prio body now (now + delay)) (view q)"
    "q_nextSeq q' = q_nextSeq q + 1" "q_enqueued q' = q_enqueued q + 1" "q_acked q' = q_acked q"
    "q_inflight q' = q_inflight q" "q_ordering q' = q_ordering q" "q_name q' = q_name q" "q_closed q' = q_closed q"
    "q_parked q' = []" "newID rnd = Inr i" "\<not> q_closed q" "body \<noteq> []" "0 \<le> delay"
proof -
  let ?m = "new_message i (q_nextSeq q) prio body now (now + delay)"
  obtain l w1 where ok: "body \<noteq> []" "0 \<le> delay" "newID rnd = Inr i" "\<not> q_closed q"
      and app: "ls_Append ls (REnqueue \<lparr>e_ID = i, e_Seq = q_nextSeq q, e_Priority = prio, e_CreatedAt = toMillis now,
          e_AvailableAt = toMillis (now + delay), e_Body = body\<rparr>) (q_log q) w = (None, l, w1)"
    using enq by (auto simp: Queue_Enqueue_def Let_def split: if_splits sum.splits prod.splits option.splits)
  define q1 where "q1 = q\<lparr>q_log := l, q_nextSeq := q_nextSeq q + 1, q_enqueued := q_enqueued q + 1\<rparr>"
  obtain a q2 where al: "allocate ?m q1 = (a, q2)" by force
  have mc: "maybeCompact ls (file_message delay a q2) w1 = (q', w')"
    using enq ok app al by (auto simp: Queue_Enqueue_def Let_def q1_def split: prod.splits)
  have q1: "heaps_inv q1" "infl_inv q1" "view q1 = view q"
    using inv unfolding q1_def queue_inv_def by (simp_all add: infl_inv_def)
  note al' = heaps_inv_allocate [OF q1(1) al]
  have q2: "q2 = q1\<lparr>q_store := (q_store q1)(q_next q1 := ?m), q_next := q_next q1 + 1\<rparr>"
    using al by (auto simp: allocate_def)
  have fresh: "b \<noteq> q_next q1" if "b \<in> set (addrs v q1)" for b v
    using q1(1) that by (auto simp: heaps_inv_def)
  have "view q2 = view q1" by (rule view_cong) (use al' fresh in auto)
  moreover have "infl_inv q2" using q1(2) infl_inv_cong [of q2 q1] al' fresh q2 by auto
  moreover have f2: "heaps_inv q2" "unfiled a q2" "q_store q2 a = ?m" using al' by auto
  moreover have "q_nextSeq q2 = q_nextSeq q + 1" "q_enqueued q2 = q_enqueued q + 1" "q_acked q2 = q_acked q"
      "q_inflight q2 = q_inflight q" "q_ordering q2 = q_ordering q" "q_name q2 = q_name q" "q_closed q2 = q_closed q"
    by (simp_all add: q2 q1_def)
  ultimately show "queue_inv q'"
    "view q' = a_file delay ?m (view q)" "q_nextSeq q' = q_nextSeq q + 1" "q_enqueued q' = q_enqueued q + 1"
    "q_acked q' = q_acked q" "q_inflight q' = q_inflight q" "q_ordering q' = q_ordering q" "q_name q' = q_name q"
    "q_closed q' = q_closed q" "q_parked q' = []"
    using maybeCompact_effect [OF mc] file_message_effect [OF f2(1,2)] infl_inv_file_message [OF f2(1,2)] q1(3)
    by (simp_all add: queue_inv_def)
qed (use enq in \<open>auto simp: Queue_Enqueue_def Let_def split: if_splits sum.splits prod.splits option.splits\<close>)

lemma Enqueue_refused:
  assumes "Queue_Enqueue ls body prio delay now rnd q w = (Inl e, q', w')"
  shows "\<exists>l. q' = q\<lparr>q_log := l\<rparr>"
  using assms by (auto simp: Queue_Enqueue_def Let_def split: if_splits sum.splits prod.splits option.splits)
    (metis Queue.surjective Queue.update_convs(11))+


section \<open>Delivery\<close>

text \<open>What a delivery makes of a message.\<close>

definition a_deliver :: "string \<Rightarrow> Time \<Rightarrow> Message \<Rightarrow> Message" where
  "a_deliver receipt deadline m =
     m\<lparr>MState := StateInFlight, ReceiveCount := ReceiveCount m + 1, Receipt := receipt, Deadline := deadline\<rparr>"

lemma cmp_core: "cmp odr w (core m) (core m') = cmp odr w m m'"
  by (cases w) (simp_all add: newReadyHeap_def newDelayedHeap_def newExpiryHeap_def)

lemma heaps_min:
  assumes "heaps_inv q" "b \<in> set (addrs w q)"
  shows "\<not> cmp (q_ordering q) w (q_store q b) (q_store q (addrs w q ! 0))"
  by (rule comparator.heap_Pop_min [OF comparator_cmp _ _ assms(2)]) (use assms(1) in \<open>simp_all add: heaps_inv_def\<close>)

lemma modify_inflight: "(modify a f q)\<lparr>q_inflight := i\<rparr> = modify a f (q\<lparr>q_inflight := i\<rparr>)"
  by (simp add: modify_def)

lemma popReady_empty: "addrs Ready q = [] \<Longrightarrow> popReady vis now rnd q = Some (Inr None, q)"
  by (simp add: popReady_def heap_Len_def q_heap_fold)

lemma popReady_effect:
  assumes inv: "queue_inv q" and ne: "addrs Ready q \<noteq> []" and rcpt: "newReceipt rnd = Inr r" "map_of (q_inflight q) r = None"
  obtains q' m where "popReady vis now rnd q = Some (Inr (Some (delivery (a_deliver r (now + vis) m))), q')"
    "queue_inv q'" "m \<in># view q Ready" "\<And>m'. m' \<in># view q Ready \<Longrightarrow> \<not> cmp (q_ordering q) Ready m' m"
    "view q' = (view q)(Ready := view q Ready - {#m#}, Expiry := add_mset (a_deliver r (now + vis) m) (view q Expiry))"
    "map_of (q_inflight q') r \<noteq> None" "q_enqueued q' = q_enqueued q" "q_acked q' = q_acked q" "q_nextSeq q' = q_nextSeq q"
    "q_log q' = q_log q" "q_ordering q' = q_ordering q" "q_name q' = q_name q" "q_closed q' = q_closed q"
proof -
  have hinv: "heaps_inv q" and iinv: "infl_inv q" using inv by (simp_all add: queue_inv_def)
  let ?a = "addrs Ready q ! 0"
  define m where "m = core (q_store q ?a)"
  define f where "f = a_deliver r (now + vis)"
  obtain hs where p: "pop Ready q = Some (?a, set_heap Ready hs q)" "heaps_inv (set_heap Ready hs q)"
      "mset (addrs Ready q) = add_mset ?a (mset (items (fst hs)))" "unfiled ?a (set_heap Ready hs q)"
      "\<And>b. core (snd hs b) = core (q_store q b)"
    using pop_effect [OF hinv ne] by blast
  define q2 where "q2 = (set_heap Ready hs q)\<lparr>q_inflight := map_insert r ?a (q_inflight q)\<rparr>"
  define q3 where "q3 = push Expiry ?a (modify ?a f q2)"
  define q4 where "q4 = (if peek (q_expiry q3) = Some ?a then wakeScheduler q3 else q3)"
  have q2: "heaps_inv q2" "unfiled ?a q2" "MState (f (q_store q2 ?a)) = state_of Expiry"
    using p by (simp_all add: q2_def f_def a_deliver_def)
  note q3 = push_modified [where f = f and w = Expiry, OF q2, folded q3_def]
  have fm: "core (f (q_store q2 ?a)) = f m"
    using p(5) [of ?a] core_fields(8) [OF p(5) [of ?a]] by (simp add: f_def a_deliver_def m_def q2_def)
  have pr: "popReady vis now rnd q = Some (Inr (Some (delivery (q_store q4 ?a))), q4)"
    using ne rcpt(1) p(1)
    by (simp add: popReady_def heap_Len_def q_heap_fold q4_def q3_def q2_def f_def a_deliver_def [abs_def] modify_inflight Let_def)
  have core4: "core (q_store q4 ?a) = f m" "view q4 = view q3" "queue_inv q4 = queue_inv q3"
    using q3(6) fm by (simp_all add: q4_def)
  then have dl: "delivery (q_store q4 ?a) = delivery (f m)"
    by (metis (no_types, lifting) core_select(1-6,8-10) delivery_def)
  show ?thesis
  proof (rule that [of m q4])
    show "popReady vis now rnd q = Some (Inr (Some (delivery (a_deliver r (now + vis) m))), q4)"
      using pr dl by (simp add: f_def)
    show "m \<in># view q Ready" using ne by (auto simp: view_def m_def)
    have "queue_inv q3"
      unfolding queue_inv_def
    proof
      show "heaps_inv q3" by (rule q3)
      have "Receipt (q_store q3 ?a) = r" using core_fields(9) [OF q3(6)] by (simp add: f_def a_deliver_def)
      moreover have "Receipt (q_store q3 b) = Receipt (q_store q b)" if "b \<noteq> ?a" for b
        using core_fields(9) [OF q3(5) [OF that]] core_fields(9) [OF p(5) [of b]] by (simp add: q2_def)
      moreover have "snd x \<noteq> ?a" if "x \<in> set (q_inflight q)" for x
        using inflight_lookup(1) [OF inv, of "fst x" "snd x"] that iinv heaps_inv_disjoint [OF hinv, of Ready Expiry ?a] ne
        by (auto simp: infl_inv_def)
      ultimately show "infl_inv q3"
        using iinv rcpt(2) q3(3) by (auto simp: infl_inv_def q3_def q2_def map_insert_def map_delete_new map_of_eq_None_iff)
    qed
    then show "queue_inv q4" using core4 by simp
    show "\<not> cmp (q_ordering q) Ready m' m" if "m' \<in># view q Ready" for m'
    proof -
      from that obtain b where b: "b \<in> set (addrs Ready q)" "m' = core (q_store q b)" by (auto simp: view_def)
      then show ?thesis using heaps_min [OF hinv b(1)] by (simp only: m_def cmp_core not_False_eq_True)
    qed
    show "view q4 = (view q)(Ready := view q Ready - {#m#}, Expiry := add_mset (a_deliver r (now + vis) m) (view q Expiry))"
      using q3(2) fm view_set_heap(2) [OF p(3,5)] unfolding core4 by (simp add: q2_def m_def f_def)
  qed (simp_all add: q4_def q3_def q2_def)
qed

section \<open>Acknowledgement\<close>

lemma unfiledD: "unfiled a q \<Longrightarrow> a \<notin> set (addrs w q)"
  by (simp add: unfiled_def)

lemma infl_inv_extract:
  assumes inv: "queue_inv q" and r: "map_of (q_inflight q) r = Some a"
    and hs: "mset (addrs Expiry q) = add_mset a (mset (items (fst hs)))" "\<And>b. core (snd hs b) = core (q_store q b)"
  shows "infl_inv ((set_heap Expiry hs q)\<lparr>q_inflight := map_delete r (q_inflight q)\<rparr>)"
proof -
  have d: "distinct (map fst (q_inflight q))" using inv by (simp add: queue_inv_def infl_inv_def)
  note del = mset_map_delete [OF d r]
  have "mset (map snd (q_inflight q)) = add_mset a (mset (map snd (map_delete r (q_inflight q))))"
    by (simp only: mset_map del image_mset_add_mset snd_conv)
  then have "mset (map snd (map_delete r (q_inflight q))) = mset (items (fst hs))"
    using inv hs(1) by (simp add: queue_inv_def infl_inv_def)
  moreover have "Receipt (snd hs (snd x)) = fst x" if "x \<in> set (map_delete r (q_inflight q))" for x
    using core_fields(9) [OF hs(2) [of "snd x"]] that inv by (auto simp: queue_inv_def infl_inv_def map_delete_def)
  ultimately show ?thesis using distinct_map_delete [OF d] by (simp add: infl_inv_def)
qed

lemma set_heap_inflight: "(set_heap w hs q)\<lparr>q_inflight := i\<rparr> = set_heap w hs (q\<lparr>q_inflight := i\<rparr>)"
  "(set_heap w hs q)\<lparr>q_log := l\<rparr> = set_heap w hs (q\<lparr>q_log := l\<rparr>)"
  by (cases w; simp add: set_heap.simps)+

text \<open>Ending the delivery with receipt \<open>r\<close>: the code deletes the receipt and removes the message from
  the expiry heap by its position.\<close>

lemma take_inflight:
  fixes q :: "'l Queue" and l :: 'l
  assumes inv: "queue_inv q" and r: "map_of (q_inflight q) r = Some a"
  defines "q1 \<equiv> q\<lparr>q_log := l, q_inflight := map_delete r (q_inflight q)\<rparr>"
  obtains hs where "remove Expiry (m_index (q_store q1 a)) q1 = Some (a, set_heap Expiry hs q1)"
    "queue_inv (set_heap Expiry hs q1)" "unfiled a (set_heap Expiry hs q1)"
    "core (q_store q a) \<in># view q Expiry" "core (snd hs a) = core (q_store q a)"
    "view (set_heap Expiry hs q1) = (view q)(Expiry := view q Expiry - {#core (q_store q a)#})"
proof -
  have a: "a \<in> set (addrs Expiry q1)" and h1: "heaps_inv q1" and f: "q_store q1 = q_store q" "q_heap w q1 = q_heap w q" for w
    using inflight_lookup [OF inv r] inv by (simp_all add: q1_def queue_inv_def)
  from remove_effect [OF h1 a] obtain hs where hs: "remove Expiry (m_index (q_store q1 a)) q1 = Some (a, set_heap Expiry hs q1)"
      "heaps_inv (set_heap Expiry hs q1)" "mset (addrs Expiry q1) = add_mset a (mset (items (fst hs)))"
      "unfiled a (set_heap Expiry hs q1)" "\<And>b. core (snd hs b) = core (q_store q1 b)" by blast
  have "infl_inv (set_heap Expiry hs q1)"
    using infl_inv_extract [OF inv r, of hs] hs(3,5) f unfolding set_heap_inflight q1_def by (simp add: infl_inv_def)
  moreover have "view q1 = view q" by (simp add: q1_def)
  moreover have "core (q_store q a) \<in># view q Expiry" using a f by (auto simp: view_def)
  ultimately show ?thesis
    using that [of hs] hs view_set_heap(2) [OF hs(3,5)] f by (simp add: queue_inv_def)
qed

lemma Ack_effect:
  assumes inv: "queue_inv q" and ack: "Queue_Ack ls r q w = Some (None, q', w')"
  obtains m where "m \<in># view q Expiry" "Receipt m = r" "view q' = (view q)(Expiry := view q Expiry - {#m#})"
    "queue_inv q'" "q_acked q' = q_acked q + 1" "q_enqueued q' = q_enqueued q" "q_nextSeq q' = q_nextSeq q"
    "map_of (q_inflight q') r = None" "q_ordering q' = q_ordering q" "q_name q' = q_name q" "q_closed q' = q_closed q"
proof -
  obtain a l w1 where r: "map_of (q_inflight q) r = Some a" and c: "\<not> q_closed q"
      and app: "ls_Append ls (RAck \<lparr>a_ID = ID (q_store q a)\<rparr>) (q_log q) w = (None, l, w1)"
    using ack by (auto simp: Queue_Ack_def split: if_splits option.splits prod.splits)
  from take_inflight [OF inv r] obtain hs where
    t: "remove Expiry (m_index (q_store (q\<lparr>q_log := l, q_inflight := map_delete r (q_inflight q)\<rparr>) a))
          (q\<lparr>q_log := l, q_inflight := map_delete r (q_inflight q)\<rparr>) =
        Some (a, set_heap Expiry hs (q\<lparr>q_log := l, q_inflight := map_delete r (q_inflight q)\<rparr>))"
      "queue_inv (set_heap Expiry hs (q\<lparr>q_log := l, q_inflight := map_delete r (q_inflight q)\<rparr>))"
      "core (q_store q a) \<in># view q Expiry"
      "view (set_heap Expiry hs (q\<lparr>q_log := l, q_inflight := map_delete r (q_inflight q)\<rparr>)) =
         (view q)(Expiry := view q Expiry - {#core (q_store q a)#})" by blast
  define q2 where "q2 = set_heap Expiry hs (q\<lparr>q_log := l, q_inflight := map_delete r (q_inflight q)\<rparr>)"
  have mc: "maybeCompact ls (q2\<lparr>q_acked := q_acked q2 + 1\<rparr>) w1 = (q', w')"
    using ack r c app t(1) by (auto simp: Queue_Ack_def Let_def q2_def split: prod.splits)
  show ?thesis
    by (rule that [of "core (q_store q a)"])
      (use t maybeCompact_effect [OF mc] inflight_lookup(2) [OF inv r] in \<open>simp_all add: q2_def\<close>)
qed

lemma Ack_refused:
  assumes "Queue_Ack ls r q w = Some (Some e, q', w')"
  shows "\<exists>l. q' = q\<lparr>q_log := l\<rparr>"
  using assms by (auto simp: Queue_Ack_def Let_def split: if_splits prod.splits option.splits)
    (metis Queue.surjective Queue.update_convs(11))+

lemma take_inflight_total:
  fixes q :: "'l Queue" and l :: 'l
  assumes "queue_inv q" "map_of (q_inflight q) r = Some a"
  shows "remove Expiry (m_index (q_store q a)) (q\<lparr>q_log := l, q_inflight := map_delete r (q_inflight q)\<rparr>) \<noteq> None"
  using take_inflight [OF assms, of l] by fastforce

lemma Ack_total:
  assumes "queue_inv q"
  shows "Queue_Ack ls r q w \<noteq> None"
proof (cases "map_of (q_inflight q) r")
  case (Some a)
  obtain e l w1 where app: "ls_Append ls (RAck \<lparr>a_ID = ID (q_store q a)\<rparr>) (q_log q) w = (e, l, w1)" by (metis prod_cases3)
  show ?thesis using take_inflight_total [OF assms Some, of l] app Some
    by (auto simp: Queue_Ack_def split: option.splits prod.splits)
qed (simp add: Queue_Ack_def)

section \<open>Negative acknowledgement\<close>

definition a_release :: "Time \<Rightarrow> Message \<Rightarrow> Message" where
  "a_release available m = m\<lparr>Receipt := '''', Deadline := zero_time, AvailableAt := available\<rparr>"

lemma Nack_effect:
  fixes q :: "'l Queue"
  assumes inv: "queue_inv q" and nack: "Queue_Nack ls r delay now q w = Some (None, q', w')"
  obtains m where "m \<in># view q Expiry" "Receipt m = r" "0 \<le> delay"
    "view q' = a_file delay (a_release (now + delay) m) ((view q)(Expiry := view q Expiry - {#m#}))"
    "queue_inv q'" "q_acked q' = q_acked q" "q_enqueued q' = q_enqueued q" "q_nextSeq q' = q_nextSeq q"
    "map_of (q_inflight q') r = None" "q_ordering q' = q_ordering q" "q_name q' = q_name q" "q_closed q' = q_closed q"
    "q_parked q' = []"
proof -
  obtain a l w1 where r: "map_of (q_inflight q) r = Some a" and c: "\<not> q_closed q" "0 \<le> delay"
      and app: "ls_Append ls (RNack \<lparr>n_ID = ID (q_store q a), n_AvailableAt = toMillis (now + delay)\<rparr>) (q_log q) w = (None, l, w1)"
    using nack by (auto simp: Queue_Nack_def Let_def split: if_splits option.splits prod.splits)
  define q1 where "q1 = q\<lparr>q_log := l, q_inflight := map_delete r (q_inflight q)\<rparr>"
  from take_inflight [OF inv r, of l, folded q1_def] obtain hs where
    t: "remove Expiry (m_index (q_store q1 a)) q1 = Some (a, set_heap Expiry hs q1)" "queue_inv (set_heap Expiry hs q1)"
      "unfiled a (set_heap Expiry hs q1)" "core (q_store q a) \<in># view q Expiry" "core (snd hs a) = core (q_store q a)"
      "view (set_heap Expiry hs q1) = (view q)(Expiry := view q Expiry - {#core (q_store q a)#})" .
  define q2 where "q2 = set_heap Expiry hs q1"
  define q3 where "q3 = modify a (a_release (now + delay)) q2"
  have mc: "maybeCompact ls (file_message delay a q3) w1 = (q', w')"
    using nack r c app t(1)
    by (auto simp: Queue_Nack_def Let_def q3_def q2_def q1_def a_release_def [abs_def] split: prod.splits)
  have q3: "heaps_inv q3" "unfiled a q3" "view q3 = view q2"
    using t(2,3) heaps_inv_modify [of q2 a] view_modify [of a q2] by (simp_all add: queue_inv_def q3_def q2_def)
  have "infl_inv q3 = infl_inv q2"
  proof (rule infl_inv_cong)
    fix b assume "b \<in> set (addrs Expiry q2)"
    then have "b \<noteq> a" using unfiledD [OF t(3), of Expiry] by (auto simp: q2_def)
    then show "core (q_store q3 b) = core (q_store q2 b)" by (simp add: q3_def)
  qed (simp_all add: q3_def)
  then have infl: "infl_inv q3" using t(2) by (simp add: queue_inv_def q2_def)
  have m: "core (q_store q3 a) = a_release (now + delay) (core (q_store q a))"
    using t(5) by (simp add: q3_def q2_def a_release_def)
  show ?thesis
  proof (rule that [of "core (q_store q a)"])
    show "view q' = a_file delay (a_release (now + delay) (core (q_store q a)))
        ((view q)(Expiry := view q Expiry - {#core (q_store q a)#}))"
      using maybeCompact_effect(1) [OF mc] file_message_effect(2) [OF q3(1,2), of delay] q3(3) m t(6) by (simp add: q2_def)
    show "queue_inv q'"
      using maybeCompact_effect(2) [OF mc] file_message_effect(1) [OF q3(1,2)] infl_inv_file_message [OF q3(1,2)] infl
      by (simp add: queue_inv_def)
  qed (use t(4) c(2) maybeCompact_effect [OF mc] inflight_lookup(2) [OF inv r] in \<open>simp_all add: q3_def q2_def q1_def\<close>)
qed

lemma Nack_refused:
  assumes "Queue_Nack ls r delay now q w = Some (Some e, q', w')"
  shows "\<exists>l. q' = q\<lparr>q_log := l\<rparr>"
  using assms by (auto simp: Queue_Nack_def Let_def split: if_splits prod.splits option.splits)
    (metis Queue.surjective Queue.update_convs(11))+

lemma Nack_total:
  assumes "queue_inv q"
  shows "Queue_Nack ls r delay now q w \<noteq> None"
proof (cases "map_of (q_inflight q) r")
  case (Some a)
  obtain e l w1 where app: "ls_Append ls (RNack \<lparr>n_ID = ID (q_store q a), n_AvailableAt = toMillis (now + delay)\<rparr>)
      (q_log q) w = (e, l, w1)" by (metis prod_cases3)
  show ?thesis using take_inflight_total [OF assms Some, of l] app Some
    by (auto simp: Queue_Nack_def Let_def split: option.splits prod.splits)
qed (simp add: Queue_Nack_def)

end
