(* ===== verification/Queue_Due.thy ===== *)
theory Queue_Due
  imports Queue_Inv
begin

text \<open>
  \<open>processDue\<close> of \<open>internal/queue/scheduler.go\<close>: what the two promotion loops do, that they always
  finish with nothing due left, and that the time they report is the earliest pending one.
\<close>

section \<open>Single promotions\<close>

text \<open>The fields no promotion touches.\<close>

definition same_frame :: "'l Queue \<Rightarrow> 'l Queue \<Rightarrow> bool" where
  "same_frame q q' \<longleftrightarrow> q_name q' = q_name q \<and> q_ordering q' = q_ordering q \<and> q_createdAt q' = q_createdAt q
     \<and> q_nextSeq q' = q_nextSeq q \<and> q_enqueued q' = q_enqueued q \<and> q_acked q' = q_acked q \<and> q_log q' = q_log q
     \<and> q_closed q' = q_closed q \<and> q_compactThreshold q' = q_compactThreshold q \<and> q_kick q' = q_kick q
     \<and> q_done q' = q_done q \<and> q_next q' = q_next q"

lemma same_frame_refl [simp]: "same_frame q q"
  by (simp add: same_frame_def)

lemma same_frame_trans: "same_frame q q1 \<Longrightarrow> same_frame q1 q2 \<Longrightarrow> same_frame q q2"
  by (simp add: same_frame_def)

definition a_ready :: "Message \<Rightarrow> Message" where
  "a_ready m = m\<lparr>MState := StateReady\<rparr>"

definition a_expired :: "Message \<Rightarrow> Message" where
  "a_expired m = m\<lparr>Receipt := '''', Deadline := zero_time, MState := StateReady\<rparr>"

lemma peek_addrs: "peek (q_heap w q) = (if addrs w q = [] then None else Some (addrs w q ! 0))"
  by (simp add: peek_def heap_Len_def)

lemma promote_one:
  assumes inv: "queue_inv q" and ne: "addrs Delayed q \<noteq> []"
  defines "a \<equiv> addrs Delayed q ! 0"
  obtains q1 where "pop Delayed q = Some (a, q1)" "queue_inv (push Ready a (modify a a_ready q1))"
    "view q Delayed = add_mset (core (q_store q a)) (view (push Ready a (modify a a_ready q1)) Delayed)"
    "view (push Ready a (modify a a_ready q1)) = (view q)(Delayed := view q Delayed - {#core (q_store q a)#},
       Ready := add_mset (a_ready (core (q_store q a))) (view q Ready))"
    "same_frame q (push Ready a (modify a a_ready q1))" "q_parked (push Ready a (modify a a_ready q1)) = q_parked q"
    "q_heap Expiry (push Ready a (modify a a_ready q1)) = q_heap Expiry q"
proof -
  have hinv: "heaps_inv q" and iinv: "infl_inv q" using inv by (simp_all add: queue_inv_def)
  from pop_effect [OF hinv ne, folded a_def] obtain hs where p: "pop Delayed q = Some (a, set_heap Delayed hs q)"
      "heaps_inv (set_heap Delayed hs q)" "mset (addrs Delayed q) = add_mset a (mset (items (fst hs)))"
      "unfiled a (set_heap Delayed hs q)" "\<And>b. core (snd hs b) = core (q_store q b)" by blast
  define q1 where "q1 = set_heap Delayed hs q"
  define q2 where "q2 = push Ready a (modify a a_ready q1)"
  have st: "MState (a_ready (q_store q1 a)) = state_of Ready" by (simp add: a_ready_def)
  note pm = push_modified [where f = a_ready and w = Ready, OF p(2,4) [folded q1_def] st, folded q2_def]
  have core_a: "core (a_ready (q_store q1 a)) = a_ready (core (q_store q a))"
    using p(5) [of a] by (simp add: a_ready_def q1_def)
  note vs = view_set_heap [OF p(3,5), folded q1_def]
  have "infl_inv q2 = infl_inv q"
  proof (rule infl_inv_cong)
    fix b assume "b \<in> set (addrs Expiry q)"
    then have "b \<noteq> a" using heaps_inv_disjoint [OF hinv, of Delayed Expiry a] ne by (auto simp: a_def)
    then show "core (q_store q2 b) = core (q_store q b)" using pm(5) p(5) by (simp add: q1_def)
  qed (simp_all add: q2_def q1_def)
  then have inv2: "queue_inv q2" using pm(1) iinv by (simp add: queue_inv_def)
  let ?c = "core (q_store q a)"
  have v2: "view q2 = (view q)(Delayed := view q Delayed - {#?c#}, Ready := add_mset (a_ready ?c) (view q Ready))"
    unfolding pm(2) core_a vs(2) by simp
  have v1: "view q Delayed = add_mset ?c (view q2 Delayed)" unfolding v2 vs(1) by simp
  have "same_frame q q2" "q_parked q2 = q_parked q" "q_heap Expiry q2 = q_heap Expiry q"
    by (simp_all add: q2_def q1_def same_frame_def)
  then show ?thesis using that [of q1, folded q2_def] p(1) [folded q1_def] inv2 v1 v2 by blast
qed

lemma expire_one:
  assumes inv: "queue_inv q" and ne: "addrs Expiry q \<noteq> []"
  defines "a \<equiv> addrs Expiry q ! 0"
  defines "settle \<equiv> (\<lambda>q1. push Ready a (modify a a_expired (q1\<lparr>q_inflight := map_delete (Receipt (q_store q1 a)) (q_inflight q1)\<rparr>)))"
  obtains q1 where "pop Expiry q = Some (a, q1)" "queue_inv (settle q1)"
    "view q Expiry = add_mset (core (q_store q a)) (view (settle q1) Expiry)"
    "view (settle q1) = (view q)(Expiry := view q Expiry - {#core (q_store q a)#},
       Ready := add_mset (a_expired (core (q_store q a))) (view q Ready))"
    "same_frame q (settle q1)" "q_parked (settle q1) = q_parked q"
    "map_of (q_inflight (settle q1)) = (map_of (q_inflight q))(Receipt (q_store q a) := None)"
proof -
  have hinv: "heaps_inv q" using inv by (simp add: queue_inv_def)
  from pop_effect [OF hinv ne, folded a_def] obtain hs where p: "pop Expiry q = Some (a, set_heap Expiry hs q)"
      "heaps_inv (set_heap Expiry hs q)" "mset (addrs Expiry q) = add_mset a (mset (items (fst hs)))"
      "unfiled a (set_heap Expiry hs q)" "\<And>b. core (snd hs b) = core (q_store q b)" by blast
  let ?r = "Receipt (q_store q a)"
  have r: "Receipt (snd hs a) = ?r" by (rule core_fields(9) [OF p(5)])
  have "a \<in> set (addrs Expiry q)" using ne by (simp add: a_def)
  note lookup = inflight_unique [OF inv this]
  define q1 where "q1 = (set_heap Expiry hs q)\<lparr>q_inflight := map_delete ?r (q_inflight q)\<rparr>"
  define q2 where "q2 = push Ready a (modify a a_expired q1)"
  have q1: "heaps_inv q1" "unfiled a q1" "MState (a_expired (q_store q1 a)) = state_of Ready"
    using p by (simp_all add: q1_def a_expired_def)
  note pm = push_modified [where f = a_expired and w = Ready, OF q1, folded q2_def]
  have core_a: "core (a_expired (q_store q1 a)) = a_expired (core (q_store q a))"
    using p(5) [of a] by (simp add: a_expired_def q1_def)
  have "infl_inv q2 = infl_inv q1"
  proof (rule infl_inv_cong)
    fix b assume "b \<in> set (addrs Expiry q1)"
    then have "b \<noteq> a" using unfiledD [OF q1(2), of Expiry] by auto
    then show "core (q_store q2 b) = core (q_store q1 b)" by (rule pm(5))
  qed (simp_all add: q2_def)
  then have inv2: "queue_inv q2" using pm(1) infl_inv_extract [OF inv lookup p(3,5)] by (simp add: queue_inv_def q1_def)
  have settle: "settle (set_heap Expiry hs q) = q2" using r by (simp add: settle_def q2_def q1_def)
  let ?c = "core (q_store q a)"
  have vq1: "view q1 = (view q)(Expiry := view q Expiry - {#?c#})"
    using view_set_heap(2) [OF p(3,5)] by (simp add: q1_def)
  have v2: "view q2 = (view q)(Expiry := view q Expiry - {#?c#}, Ready := add_mset (a_expired ?c) (view q Ready))"
    unfolding pm(2) core_a vq1 by simp
  have v1: "view q Expiry = add_mset ?c (view q2 Expiry)"
    unfolding v2 view_set_heap(1) [OF p(3,5)] by simp
  have "same_frame q q2" "q_parked q2 = q_parked q" "map_of (q_inflight q2) = (map_of (q_inflight q))(?r := None)"
    by (simp_all add: q2_def q1_def same_frame_def)
  then show ?thesis using that [of "set_heap Expiry hs q", unfolded settle] p(1) inv2 v1 v2 by blast
qed


section \<open>The loops\<close>

text \<open>What one run of the scheduler is meant to do, on the contents of the heaps.\<close>

definition a_promote :: "Time \<Rightarrow> (which \<Rightarrow> Message multiset) \<Rightarrow> which \<Rightarrow> Message multiset" where
  "a_promote now A = A(Delayed := {#m \<in># A Delayed. now < AvailableAt m#},
     Ready := A Ready + image_mset a_ready {#m \<in># A Delayed. AvailableAt m \<le> now#})"

definition a_expire :: "Time \<Rightarrow> (which \<Rightarrow> Message multiset) \<Rightarrow> which \<Rightarrow> Message multiset" where
  "a_expire now A = A(Expiry := {#m \<in># A Expiry. now < Deadline m#},
     Ready := A Ready + image_mset a_expired {#m \<in># A Expiry. Deadline m \<le> now#})"

lemma view_earliest:
  assumes "heaps_inv q" "m \<in># view q w"
  shows "w = Delayed \<Longrightarrow> AvailableAt (q_store q (addrs w q ! 0)) \<le> AvailableAt m"
    "w = Expiry \<Longrightarrow> Deadline (q_store q (addrs w q ! 0)) \<le> Deadline m"
proof -
  from assms(2) obtain b where b: "b \<in> set (addrs w q)" "m = core (q_store q b)" by (auto simp: view_def)
  from heaps_min [OF assms(1) b(1)]
  show "w = Delayed \<Longrightarrow> AvailableAt (q_store q (addrs w q ! 0)) \<le> AvailableAt m"
    "w = Expiry \<Longrightarrow> Deadline (q_store q (addrs w q ! 0)) \<le> Deadline m"
    by (auto simp: b(2) newDelayedHeap_def newExpiryHeap_def)
qed

lemma filter_all_none:
  assumes "\<And>m. m \<in># M \<Longrightarrow> (now :: int) < f m"
  shows "{#m \<in># M. now < f m#} = M" "{#m \<in># M. f m \<le> now#} = {#}"
proof -
  show "{#m \<in># M. now < f m#} = M" using assms by (simp add: filter_mset_eq_conv)
  have "{#m \<in># M. f m \<le> now#} = {#m \<in># M. False#}" using assms by (intro filter_mset_cong) (auto simp: not_le)
  then show "{#m \<in># M. f m \<le> now#} = {#}" by simp
qed

lemma a_promote_idle: "(\<And>m. m \<in># A Delayed \<Longrightarrow> now < AvailableAt m) \<Longrightarrow> a_promote now A = A"
  by (simp add: a_promote_def filter_all_none fun_upd_idem)

lemma a_expire_idle: "(\<And>m. m \<in># A Expiry \<Longrightarrow> now < Deadline m) \<Longrightarrow> a_expire now A = A"
  by (simp add: a_expire_def filter_all_none fun_upd_idem)

lemma a_promote_move:
  assumes "A Delayed = add_mset m D" "AvailableAt m \<le> now"
  shows "a_promote now (A(Delayed := D, Ready := add_mset (a_ready m) (A Ready))) = a_promote now A"
  using assms by (simp add: a_promote_def fun_eq_iff)

lemma a_expire_move:
  assumes "A Expiry = add_mset m D" "Deadline m \<le> now"
  shows "a_expire now (A(Expiry := D, Ready := add_mset (a_expired m) (A Ready))) = a_expire now A"
  using assms by (simp add: a_expire_def fun_eq_iff)

text \<open>The loop stops when the earliest message is not due, and then none is.\<close>

lemma promote_stop:
  assumes "heaps_inv q" "addrs Delayed q = [] \<or> now < AvailableAt (q_store q (addrs Delayed q ! 0))" "m \<in># view q Delayed"
  shows "now < AvailableAt m"
  using assms(2) view_earliest(1) [OF assms(1,3)] assms(3) by (auto simp: view_def)

lemma expire_stop:
  assumes "heaps_inv q" "addrs Expiry q = [] \<or> now < Deadline (q_store q (addrs Expiry q ! 0))" "m \<in># view q Expiry"
  shows "now < Deadline m"
  using assms(2) view_earliest(2) [OF assms(1,3)] assms(3) by (auto simp: view_def)

lemma promote_effect:
  assumes "queue_inv q" "length (addrs Delayed q) \<le> n"
  shows "\<exists>ch' q'. promote n now ch q = Some (ch', q') \<and> queue_inv q' \<and> view q' = a_promote now (view q)
    \<and> ch' = (ch \<or> (\<exists>m \<in># view q Delayed. AvailableAt m \<le> now)) \<and> same_frame q q' \<and> q_parked q' = q_parked q
    \<and> q_heap Expiry q' = q_heap Expiry q"
  using assms
proof (induction n arbitrary: q ch)
  case 0
  then have "view q Delayed = {#}" by (simp add: view_def)
  then show ?case using 0 a_promote_idle [of "view q" now] by simp
next
  case (Suc n)
  let ?a = "addrs Delayed q ! 0"
  show ?case
  proof (cases "addrs Delayed q = [] \<or> now < AvailableAt (q_store q ?a)")
    case True
    have "now < AvailableAt m" if "m \<in># view q Delayed" for m
      using promote_stop [OF _ True that] Suc.prems(1) by (simp add: queue_inv_def)
    then have "a_promote now (view q) = view q" "\<not> (\<exists>m \<in># view q Delayed. AvailableAt m \<le> now)"
      by (auto simp: a_promote_idle not_le)
    then show ?thesis using Suc.prems True by (auto simp: q_heap_fold peek_addrs)
  next
    case False
    then have ne: "addrs Delayed q \<noteq> []" and due: "AvailableAt (q_store q ?a) \<le> now" by auto
    from promote_one [OF Suc.prems(1) ne] obtain q1 q2 where
      q1: "pop Delayed q = Some (?a, q1)" "q2 = push Ready ?a (modify ?a a_ready q1)" and
      q2: "queue_inv q2" "view q Delayed = add_mset (core (q_store q ?a)) (view q2 Delayed)"
        "view q2 = (view q)(Delayed := view q Delayed - {#core (q_store q ?a)#},
           Ready := add_mset (a_ready (core (q_store q ?a))) (view q Ready))"
        "same_frame q q2" "q_parked q2 = q_parked q" "q_heap Expiry q2 = q_heap Expiry q" by metis
    have "length (addrs Delayed q2) \<le> n" using arg_cong [OF q2(2), of size] Suc.prems(2) by simp
    from Suc.IH [OF q2(1) this, of True] obtain ch' q' where
      r: "promote n now True q2 = Some (ch', q')" "queue_inv q'" "view q' = a_promote now (view q2)" "ch'"
        "same_frame q2 q'" "q_parked q' = q_parked q2" "q_heap Expiry q' = q_heap Expiry q2" by auto
    have "promote (Suc n) now ch q = Some (ch', q')"
      using r(1) q1 due ne by (simp add: q_heap_fold peek_addrs a_ready_def [abs_def])
    moreover have "view q' = a_promote now (view q)"
    proof -
      have "view q2 = (view q)(Delayed := view q2 Delayed, Ready := add_mset (a_ready (core (q_store q ?a))) (view q Ready))"
        by (simp add: q2(3))
      then show ?thesis unfolding r(3)
        by (rule ssubst) (rule a_promote_move [where A = "view q", OF q2(2)], use due in simp)
    qed
    moreover have "\<exists>m \<in># view q Delayed. AvailableAt m \<le> now" using due unfolding q2(2) by auto
    ultimately show ?thesis using r(2,4,6,7) q2(5,6) same_frame_trans [OF q2(4) r(5)] by auto
  qed
qed

lemma expire_effect:
  assumes "queue_inv q" "length (addrs Expiry q) \<le> n"
  shows "\<exists>ch' q'. expire n now ch q = Some (ch', q') \<and> queue_inv q' \<and> view q' = a_expire now (view q)
    \<and> ch' = (ch \<or> (\<exists>m \<in># view q Expiry. Deadline m \<le> now)) \<and> same_frame q q' \<and> q_parked q' = q_parked q"
  using assms
proof (induction n arbitrary: q ch)
  case 0
  then have "view q Expiry = {#}" by (simp add: view_def)
  then show ?case using 0 a_expire_idle [of "view q" now] by simp
next
  case (Suc n)
  let ?a = "addrs Expiry q ! 0"
  show ?case
  proof (cases "addrs Expiry q = [] \<or> now < Deadline (q_store q ?a)")
    case True
    have "now < Deadline m" if "m \<in># view q Expiry" for m
      using expire_stop [OF _ True that] Suc.prems(1) by (simp add: queue_inv_def)
    then have "a_expire now (view q) = view q" "\<not> (\<exists>m \<in># view q Expiry. Deadline m \<le> now)"
      by (auto simp: a_expire_idle not_le)
    then show ?thesis using Suc.prems True by (auto simp: q_heap_fold peek_addrs)
  next
    case False
    then have ne: "addrs Expiry q \<noteq> []" and due: "Deadline (q_store q ?a) \<le> now" by auto
    from expire_one [OF Suc.prems(1) ne] obtain q1 q2 where
      q1: "pop Expiry q = Some (?a, q1)"
        "q2 = push Ready ?a (modify ?a a_expired (q1\<lparr>q_inflight := map_delete (Receipt (q_store q1 ?a)) (q_inflight q1)\<rparr>))" and
      q2: "queue_inv q2" "view q Expiry = add_mset (core (q_store q ?a)) (view q2 Expiry)"
        "view q2 = (view q)(Expiry := view q Expiry - {#core (q_store q ?a)#},
           Ready := add_mset (a_expired (core (q_store q ?a))) (view q Ready))"
        "same_frame q q2" "q_parked q2 = q_parked q" by metis
    have "length (addrs Expiry q2) \<le> n" using arg_cong [OF q2(2), of size] Suc.prems(2) by simp
    from Suc.IH [OF q2(1) this, of True] obtain ch' q' where
      r: "expire n now True q2 = Some (ch', q')" "queue_inv q'" "view q' = a_expire now (view q2)" "ch'"
        "same_frame q2 q'" "q_parked q' = q_parked q2" by auto
    have "expire (Suc n) now ch q = Some (ch', q')"
      using r(1) q1 due ne by (simp add: q_heap_fold peek_addrs a_expired_def [abs_def] Let_def)
    moreover have "view q' = a_expire now (view q)"
    proof -
      have "view q2 = (view q)(Expiry := view q2 Expiry, Ready := add_mset (a_expired (core (q_store q ?a))) (view q Ready))"
        by (simp add: q2(3))
      then show ?thesis unfolding r(3)
        by (rule ssubst) (rule a_expire_move [where A = "view q", OF q2(2)], use due in simp)
    qed
    moreover have "\<exists>m \<in># view q Expiry. Deadline m \<le> now" using due unfolding q2(2) by auto
    ultimately show ?thesis using r(2,4,6) q2(5) same_frame_trans [OF q2(4) r(5)] by auto
  qed
qed


section \<open>processDue\<close>

definition a_due :: "Time \<Rightarrow> (which \<Rightarrow> Message multiset) \<Rightarrow> bool" where
  "a_due now A \<longleftrightarrow> (\<exists>m \<in># A Delayed. AvailableAt m \<le> now) \<or> (\<exists>m \<in># A Expiry. Deadline m \<le> now)"

definition pending :: "(which \<Rightarrow> Message multiset) \<Rightarrow> Time set" where
  "pending A = AvailableAt ` set_mset (A Delayed) \<union> Deadline ` set_mset (A Expiry)"

lemma processDue_effect:
  assumes "queue_inv q"
  obtains q' where "processDue now q = Some (next_due q', q')" "queue_inv q'"
    "view q' = a_expire now (a_promote now (view q))" "same_frame q q'"
    "q_parked q' = (if a_due now (view q) then [] else q_parked q)"
proof -
  obtain c1 q1 where p: "promote (heap_Len (q_delayed q)) now False q = Some (c1, q1)" "queue_inv q1"
      "view q1 = a_promote now (view q)" "c1 = (\<exists>m \<in># view q Delayed. AvailableAt m \<le> now)" "same_frame q q1"
      "q_parked q1 = q_parked q"
    using promote_effect [OF assms, of "heap_Len (q_delayed q)" now False] by (auto simp: heap_Len_def q_heap_fold)
  obtain c2 q2 where e: "expire (heap_Len (q_expiry q1)) now c1 q1 = Some (c2, q2)" "queue_inv q2"
      "view q2 = a_expire now (view q1)" "c2 = (c1 \<or> (\<exists>m \<in># view q1 Expiry. Deadline m \<le> now))" "same_frame q1 q2"
      "q_parked q2 = q_parked q1"
    using expire_effect [OF p(2), of "heap_Len (q_expiry q1)" now c1] by (auto simp: heap_Len_def q_heap_fold)
  have c2: "c2 = a_due now (view q)" using e(4) p(3,4) by (auto simp: a_due_def a_promote_def)
  have "same_frame q q2" using p(5) e(5) by (rule same_frame_trans)
  then have fr: "same_frame q (if c2 then Broadcast q2 else q2)" by (simp add: same_frame_def Broadcast_def)
  show ?thesis
    by (rule that [of "if c2 then Broadcast q2 else q2"])
      (use p e c2 fr in \<open>simp_all add: processDue_def Let_def Broadcast_def\<close>)
qed

lemma next_due_cases:
  "next_due q =
     (if addrs Delayed q = [] then
        if addrs Expiry q = [] then None else Some (Deadline (q_store q (addrs Expiry q ! 0)))
      else if addrs Expiry q = [] then Some (AvailableAt (q_store q (addrs Delayed q ! 0)))
      else Some (min (AvailableAt (q_store q (addrs Delayed q ! 0))) (Deadline (q_store q (addrs Expiry q ! 0)))))"
  by (simp add: next_due_def q_heap_fold peek_addrs Let_def min_def)

lemma next_due_pending:
  assumes "heaps_inv q"
  shows "next_due q = None \<longleftrightarrow> pending (view q) = {}"
    "next_due q = Some t \<Longrightarrow> t \<in> pending (view q) \<and> (\<forall>t' \<in> pending (view q). t \<le> t')"
proof -
  have empty: "view q w = {#} \<longleftrightarrow> addrs w q = []" for w by (simp add: view_def)
  show "next_due q = None \<longleftrightarrow> pending (view q) = {}"
    by (auto simp: next_due_cases pending_def empty)
  let ?D = "AvailableAt (q_store q (addrs Delayed q ! 0))" and ?E = "Deadline (q_store q (addrs Expiry q ! 0))"
  have d: "?D \<in> AvailableAt ` set_mset (view q Delayed)" if "addrs Delayed q \<noteq> []"
    using that by (auto simp: view_def image_image)
  have e: "?E \<in> Deadline ` set_mset (view q Expiry)" if "addrs Expiry q \<noteq> []"
    using that by (auto simp: view_def image_image)
  have min: "m \<in># view q Delayed \<Longrightarrow> ?D \<le> AvailableAt m" "m \<in># view q Expiry \<Longrightarrow> ?E \<le> Deadline m" for m
    using view_earliest [OF assms] by blast+
  have none: "m \<in># view q w \<Longrightarrow> addrs w q \<noteq> []" for m w by (auto simp: view_def)
  assume "next_due q = Some t"
  then show "t \<in> pending (view q) \<and> (\<forall>t' \<in> pending (view q). t \<le> t')"
    using d e min none unfolding next_due_cases pending_def
    by (cases "addrs Delayed q = []"; cases "addrs Expiry q = []") (fastforce simp: min_le_iff_disj min_def split: if_splits)+
qed

text \<open>After a run everything still pending lies in the future.\<close>

lemma pending_after: "t \<in> pending (a_expire now (a_promote now A)) \<Longrightarrow> now < t"
  by (auto simp: pending_def a_expire_def a_promote_def)

end
