(* ===== verification/Disk_Frame.thy ===== *)
theory Disk_Frame
  imports Storage_Compaction
begin

text \<open>
  Framing: an operation on one log leaves the other files of the data directory, and the durability of
  their directory entries, alone. This is what lets the queues of one manager share a directory.
\<close>

definition only_names :: "string set \<Rightarrow> disk \<Rightarrow> disk \<Rightarrow> bool" where
  "only_names P d d' \<longleftrightarrow> disk_ok d'
     \<and> (\<forall>m. m \<notin> P \<longrightarrow> map_of (dents d') m = map_of (dents d) m
         \<and> map_of (synced_dents d') m \<in> {map_of (synced_dents d) m, map_of (dents d) m}
         \<and> (\<forall>g. map_of (dents d) m = Some (DFile g) \<longrightarrow> content d' g = content d g \<and> synced d' g = synced d g))"

lemma only_names_refl [simp]: "disk_ok d \<Longrightarrow> only_names P d d"
  by (simp add: only_names_def)

lemma only_names_trans: "only_names P d d1 \<Longrightarrow> only_names P d1 d2 \<Longrightarrow> only_names P d d2"
  unfolding only_names_def by (metis (no_types, lifting) insertE insertI1 insertI2 singletonD)

lemma only_names_ok: "only_names P d d' \<Longrightarrow> disk_ok d'"
  by (simp add: only_names_def)

lemma only_names_mono: "only_names P d d' \<Longrightarrow> P \<subseteq> P' \<Longrightarrow> only_names P' d d'"
  by (auto simp: only_names_def)

text \<open>Calls that touch no entry and at most the file \<open>f\<close>.\<close>

lemma only_names_file:
  assumes "only_file f d d'" "disk_ok d" "map_of (dents d) p = Some (DFile f)" "p \<in> P"
  shows "only_names P d d'"
proof -
  have "disk_ok d'" using assms(1,2) by (simp add: only_file_def disk_ok_cong [of d' d])
  moreover have "g \<noteq> f" if "m \<notin> P" "map_of (dents d) m = Some (DFile g)" for m g
    using that assms unfolding disk_ok_def by metis
  ultimately show ?thesis using assms(1) by (auto simp: only_names_def only_file_def)
qed

lemma only_names_quiet:
  assumes "dents d' = dents d" "content d' = content d" "synced d' = synced d" "next_ino d' = next_ino d"
    "synced_dents d' = synced_dents d \<or> synced_dents d' = dents d" "disk_ok d"
  shows "only_names P d d'"
  using assms disk_ok_cong [of d' d] by (auto simp: only_names_def)

lemma only_names_syncDir: "syncDir d = (err, d') \<Longrightarrow> disk_ok d \<Longrightarrow> only_names P d d'"
  using syncDir_effect [of d err d'] by (intro only_names_quiet) auto

lemma only_names_FClose: "FClose i d = (err, d') \<Longrightarrow> disk_ok d \<Longrightarrow> only_names P d d'"
  by (rule only_names_quiet) (auto simp: FClose_def split: prod.splits option.splits dest!: next_fault_effect)

lemma only_names_Remove:
  assumes "os_Remove p d = (res, d')" "disk_ok d" "p \<in> P"
  shows "only_names P d d'"
  using assms by (auto simp: os_Remove_def only_names_def disk_ok_def disk_simps
      split: prod.splits option.splits if_splits dest!: next_fault_effect)

lemma only_names_OpenTrunc:
  assumes "OpenTrunc p d = (res, d')" "disk_ok d" "p \<in> P"
  shows "only_names P d d'"
proof -
  have "only_name p d d'" using only_name_OpenTrunc [OF assms(1,2)] by simp
  moreover have "synced_dents d' = synced_dents d"
    using assms(1) by (auto simp: OpenTrunc_def new_file_def split: prod.splits option.splits dirent.splits dest!: next_fault_effect)
  ultimately show ?thesis using assms(3) by (auto simp: only_name_def only_names_def)
qed

lemma only_names_OpenExcl:
  assumes "OpenExcl p d = (res, d')" "disk_ok d" "p \<in> P"
  shows "only_names P d d'"
  using assms by (fastforce simp: OpenExcl_def only_names_def disk_ok_def new_file_def disk_simps
      split: prod.splits option.splits if_splits dest!: next_fault_effect intro: less_SucI)

lemma only_names_OpenRdwr: "OpenRdwr p d = (res, d') \<Longrightarrow> disk_ok d \<Longrightarrow> only_names P d d'"
  by (rule only_names_quiet) (auto simp: OpenRdwr_def split: prod.splits option.splits dirent.splits dest!: next_fault_effect)

lemma only_names_Rename:
  assumes "os_Rename a b d = (err, d')" "disk_ok d" "a \<in> P" "b \<in> P"
  shows "only_names P d d'"
proof -
  have "disk_ok d'" by (rule os_Rename_disk_ok [OF assms(1,2)])
  then show ?thesis using assms
    by (auto simp: os_Rename_def only_names_def disk_simps split: prod.splits option.splits if_splits dest!: next_fault_effect)
qed

lemma only_names_cleanup: "disk_ok d \<Longrightarrow> p \<in> P \<Longrightarrow> only_names P d (cleanup i p d)"
  unfolding cleanup_def
  by (metis only_names_FClose only_names_Remove only_names_trans only_names_ok prod.collapse)

section \<open>The operations of a log\<close>

definition log_names :: "string \<Rightarrow> string set" where
  "log_names name = {name @ logExt, name @ tmpExt}"

lemma only_names_Append:
  assumes "Log_Append r l d = (err, l', d')" "l_f l = Some f" "map_of (dents d) (l_path l) = Some (DFile f)" "disk_ok d" "l_path l \<in> P"
  shows "only_names P d d'"
  by (rule only_names_file [OF only_file_Append [OF assms(1,2)] assms(4,3,5)])

text \<open>Only syncing the directory makes entries durable.\<close>

lemma synced_dents_calls:
  "OpenTrunc p d = (x, d') \<Longrightarrow> synced_dents d' = synced_dents d"
  "WriteAt f bs n d = (y, d') \<Longrightarrow> synced_dents d' = synced_dents d"
  "FSync f d = (z, d') \<Longrightarrow> synced_dents d' = synced_dents d"
  "FClose f d = (z, d') \<Longrightarrow> synced_dents d' = synced_dents d"
  "os_Remove p d = (z, d') \<Longrightarrow> synced_dents d' = synced_dents d"
  "os_Rename p p' d = (z, d') \<Longrightarrow> synced_dents d' = synced_dents d"
  "OpenRdwr p d = (x, d') \<Longrightarrow> synced_dents d' = synced_dents d \<and> dents d' = dents d"
  by (auto simp: call_defs new_file_def split: prod.splits option.splits dirent.splits if_splits dest!: next_fault_effect)

lemma synced_dents_snd [simp]:
  "synced_dents (snd (FClose f d)) = synced_dents d" "synced_dents (snd (os_Remove p d)) = synced_dents d"
  "dents (snd (FClose f d)) = dents d"
  using synced_dents_calls(4) [OF prod.collapse [symmetric]] synced_dents_calls(5) [OF prod.collapse [symmetric]]
  by (simp_all add: FClose_def split: prod.splits option.splits) (auto dest: next_fault_effect)

lemma synced_dents_cleanup [simp]: "synced_dents (cleanup f p d) = synced_dents d"
  by (simp add: cleanup_def)

lemma write_replacement_temp:
  assumes "write_replacement hdr live d = (res, d')" "disk_ok d"
  shows "only_names {h_Name hdr @ tmpExt} d d'" "synced_dents d' = synced_dents d"
proof -
  show sd: "synced_dents d' = synced_dents d"
    using assms(1) unfolding write_replacement_def Let_def
    by (auto split: prod.splits option.splits sum.splits dest!: synced_dents_calls)
  show "only_names {h_Name hdr @ tmpExt} d d'"
    using write_replacement_only [OF assms] sd by (auto simp: only_name_def only_names_def)
qed

lemma only_names_commit:
  assumes "commit_replacement hdr live buf l d = (err, l', d')" "disk_ok d" "l_path l \<in> P" "h_Name hdr @ tmpExt \<in> P"
  shows "only_names P d d'" "synced_dents d' = synced_dents d \<or> synced_dents d' = dents d'"
proof -
  let ?t = "h_Name hdr @ tmpExt"
  obtain rerr d5 where r: "os_Rename ?t (l_path l) d = (rerr, d5)" by force
  have o5: "only_names P d d5" by (rule only_names_Rename [OF r assms(2,4,3)])
  note ok5 = only_names_ok [OF o5]
  obtain serr d6 where s: "syncDir d5 = (serr, d6)" by force
  have o6: "only_names P d d6" using only_names_trans [OF o5 only_names_syncDir [OF s ok5]] .
  note ok6 = only_names_ok [OF o6]
  obtain ores d7 where o: "OpenRdwr (l_path l) d6 = (ores, d7)" by force
  have o7: "only_names P d d7" using only_names_trans [OF o6 only_names_OpenRdwr [OF o ok6]] .
  note ok7 = only_names_ok [OF o7]
  have rm: "only_names P d (snd (os_Remove ?t d5))"
    by (rule only_names_trans [OF o5]) (metis only_names_Remove [OF _ ok5 assms(4)] prod.collapse)
  have cl: "only_names P d (snd (FClose i d7))" for i
    by (rule only_names_trans [OF o7]) (metis only_names_FClose [OF _ ok7] prod.collapse)
  show "only_names P d d'" using assms(1) r s o o6 o7 rm cl
    by (auto simp: commit_replacement_def Let_def split: option.splits sum.splits)
  show "synced_dents d' = synced_dents d \<or> synced_dents d' = dents d'"
    using assms(1) r s o syncDir_effect [OF s] synced_dents_calls(6) [OF r] synced_dents_calls(7) [OF o]
    by (auto simp: commit_replacement_def Let_def split: option.splits sum.splits)
qed

lemma only_names_Compact:
  assumes "Compact hdr live l d = (err, l', d')" "disk_ok d" "l_path l = h_Name hdr @ logExt"
  shows "only_names (log_names (h_Name hdr)) d d'" "synced_dents d' = synced_dents d \<or> synced_dents d' = dents d'"
proof -
  obtain res d4 where w: "write_replacement hdr live d = (res, d4)" by force
  note w4 = write_replacement_temp [OF w assms(2)]
  have o4: "only_names (log_names (h_Name hdr)) d d4"
    by (rule only_names_mono [OF w4(1)]) (simp add: log_names_def)
  note c = only_names_commit [OF _ only_names_ok [OF o4], of hdr live _ l err l' d' "log_names (h_Name hdr)"]
  show "only_names (log_names (h_Name hdr)) d d'"
    using assms w o4 c(1) only_names_trans [OF o4]
    by (auto simp: Compact_def log_names_def split: option.splits sum.splits)
  show "synced_dents d' = synced_dents d \<or> synced_dents d' = dents d'"
    using assms w w4(2) c(2) by (auto simp: Compact_def log_names_def split: option.splits sum.splits)
qed

lemma only_names_discard:
  assumes "disk_ok d" "l_path l \<in> P"
  shows "only_names P d (discard l d)"
proof -
  have "only_names P d (snd (FClose (the (l_f l)) d))" by (metis assms(1) only_names_FClose prod.collapse)
  then show ?thesis unfolding discard_def
    by (metis assms(2) only_names_Remove only_names_ok only_names_trans prod.collapse)
qed

lemma only_names_Create:
  assumes "Create name hdr d = (res, d')" "disk_ok d"
  shows "only_names {name @ logExt} d d'"
proof -
  let ?n = "name @ logExt" and ?f = "next_ino d"
  let ?l = "\<lparr>l_f = Some ?f, l_path = ?n, l_size = 0, l_records = 0, l_broken = None\<rparr>"
  obtain ores d1 where o: "OpenExcl ?n d = (ores, d1)" by force
  have o1: "only_names {?n} d d1" by (rule only_names_OpenExcl [OF o assms(2)]) simp
  show ?thesis
  proof (cases ores)
    case (Inl e)
    then show ?thesis using assms(1) o o1 by (auto simp: Create_def)
  next
    case (Inr f)
    then have f: "f = ?f" "map_of (dents d1) ?n = Some (DFile ?f)"
      using o by (auto simp: OpenExcl_def new_file_def disk_simps split: prod.splits option.splits if_splits dest!: next_fault_effect)
    obtain n werr d2 where w: "WriteAt ?f encodeFileHeader 0 d1 = ((n, werr), d2)" by (metis prod.exhaust)
    have of2: "only_file ?f d1 d2" by (rule only_file_calls(1) [OF w])
    have o2: "only_names {?n} d d2"
      by (rule only_names_trans [OF o1 only_names_file [OF of2 only_names_ok [OF o1] f(2)]]) simp
    have f2: "map_of (dents d2) ?n = Some (DFile ?f)" using of2 f by (simp add: only_file_def)
    obtain aerr l3 d3 where a: "Log_Append (RHeader hdr) (?l\<lparr>l_size := fileHeaderSize\<rparr>) d2 = (aerr, l3, d3)" by (metis prod_cases3)
    have p3: "l_path l3 = ?n"
      using a by (auto simp: Log_Append_def rollback_def Let_def split: option.splits sum.splits prod.splits if_splits)
    have o3: "only_names {?n} d d3"
      by (rule only_names_trans [OF o2 only_names_Append [OF a _ _ only_names_ok [OF o2]]]) (use f2 in simp_all)
    obtain serr d4 where s: "syncDir d3 = (serr, d4)" by force
    have o4: "only_names {?n} d d4"
      by (rule only_names_trans [OF o3 only_names_syncDir [OF s only_names_ok [OF o3]]])
    have ds: "only_names {?n} d (discard l x)" if "only_names {?n} d x" "l_path l = ?n" for l x
      by (rule only_names_trans [OF that(1) only_names_discard]) (use that only_names_ok in auto)
    show ?thesis using assms(1) o Inr f(1) w a s o4 ds [OF o2, of ?l] ds [OF o3 p3] ds [OF o4 p3]
      by (auto simp: Create_def Let_def split: option.splits)
  qed
qed

lemma only_names_Log_Close:
  assumes "Log_Close l d = (err, l', d')" "disk_ok d" "\<And>f. l_f l = Some f \<Longrightarrow> map_of (dents d) (l_path l) = Some (DFile f)"
  shows "only_names {l_path l} d d'"
proof (cases "l_f l")
  case (Some f)
  obtain e1 d1 where s: "FSync f d = (e1, d1)" by force
  have o1: "only_names {l_path l} d d1"
    by (rule only_names_file [OF only_file_calls(2) [OF s] assms(2) assms(3) [OF Some]]) simp
  obtain e2 d2 where c: "FClose f d1 = (e2, d2)" by force
  show ?thesis using assms(1) Some s c only_names_trans [OF o1 only_names_FClose [OF c only_names_ok [OF o1]]]
    by (auto simp: Log_Close_def)
qed (use assms in \<open>auto simp: Log_Close_def\<close>)

lemma only_names_delete:
  assumes "Remove name d = (err, d')" "disk_ok d"
  shows "only_names {name @ logExt} d d'"
proof -
  obtain e1 d1 where r: "os_Remove (name @ logExt) d = (e1, d1)" by force
  have o1: "only_names {name @ logExt} d d1" by (rule only_names_Remove [OF r assms(2)]) simp
  show ?thesis using assms(1) r o1 only_names_trans [OF o1 only_names_syncDir [OF _ only_names_ok [OF o1]]]
    by (auto simp: Remove_def split: option.splits)
qed

end
