(* ===== verification/Log_Store.thy ===== *)
theory Log_Store
  imports Queue_Due Disk_Frame
begin

text \<open>
  The contract between a queue and its log, as a locale, and what it buys the queue: whatever
  operations are performed, replaying the log gives back the queue's live messages, counters and
  configuration.

  \<open>holds name rs l w\<close> says that the log \<open>l\<close> of the queue \<open>name\<close> durably holds the records \<open>rs\<close> in the
  world \<open>w\<close>; \<open>healthy\<close> that the log has not been put out of service by a failed file-system call.
  The locale is interpreted for the log file of \<open>internal/storage\<close> and for the in-memory log the
  queue's own tests substitute.
\<close>

section \<open>The interface\<close>

locale log_store =
  fixes ls :: "('l, 'w) logStore"
    and holds :: "string \<Rightarrow> Record list \<Rightarrow> 'l \<Rightarrow> 'w \<Rightarrow> bool"
    and healthy :: "'l \<Rightarrow> 'w \<Rightarrow> bool"
  assumes append_ok: "holds n rs l w \<Longrightarrow> ls_Append ls r l w = (None, l', w') \<Longrightarrow> holds n (rs @ [r]) l' w'"
    and append_err: "holds n rs l w \<Longrightarrow> ls_Append ls r l w = (Some e, l', w') \<Longrightarrow> healthy l' w' \<Longrightarrow> holds n rs l' w'"
    and compact_ok: "holds n rs l w \<Longrightarrow> h_Name hdr = n \<Longrightarrow> ls_Compact ls hdr live l w = (None, l', w')
      \<Longrightarrow> holds n (compacted hdr live) l' w'"
    and compact_err: "holds n rs l w \<Longrightarrow> h_Name hdr = n \<Longrightarrow> ls_Compact ls hdr live l w = (Some e, l', w')
      \<Longrightarrow> healthy l' w' \<Longrightarrow> holds n rs l' w'"
    and holds_healthy: "holds n rs l w \<Longrightarrow> healthy l w"
    and records: "holds n rs l w \<Longrightarrow> ls_Records ls l = length rs"

section \<open>The log file\<close>

definition file_holds :: "string \<Rightarrow> Record list \<Rightarrow> Log \<Rightarrow> disk \<Rightarrow> bool" where
  "file_holds n rs l d \<longleftrightarrow> log_holds rs l d \<and> l_path l = n @ logExt \<and> disk_ok d
     \<and> map_of (synced_dents d) (n @ logExt) = map_of (dents d) (n @ logExt)"

definition file_healthy :: "Log \<Rightarrow> disk \<Rightarrow> bool" where
  "file_healthy l d \<longleftrightarrow> l_broken l = None \<and> l_f l \<noteq> None \<and> lookup_file (l_path l) d = l_f l"

lemma log_holds_healthy: "log_holds rs l d \<Longrightarrow> file_healthy l d"
  by (auto simp: log_holds_def file_healthy_def split: option.splits)

lemma log_broken_unhealthy: "log_broken rs r l d \<Longrightarrow> \<not> file_healthy l d"
  by (auto simp: log_broken_def file_healthy_def split: option.splits)

lemma log_stale_unhealthy: "log_stale rs rs' l d \<Longrightarrow> \<not> file_healthy l d"
  by (auto simp: log_stale_def file_healthy_def split: option.splits)

lemma log_replaced_unhealthy: "log_replaced rs l d \<Longrightarrow> \<not> file_healthy l d"
  by (auto simp: log_replaced_def file_healthy_def)

lemma Log_Append_path: "Log_Append r l d = (err, l', d') \<Longrightarrow> l_path l' = l_path l"
  by (auto simp: Log_Append_def rollback_def Let_def split: option.splits sum.splits prod.splits if_splits)

lemma Log_Append_disk_ok:
  assumes "Log_Append r l d = (err, l', d')" "disk_ok d"
  shows "disk_ok d'"
proof (cases "l_f l")
  case None
  then show ?thesis using assms by (auto simp: Log_Append_def split: option.splits)
next
  case (Some f)
  then show ?thesis using only_file_Append [OF assms(1)] assms(2) disk_ok_cong [of d' d] by (simp add: only_file_def)
qed

lemma lookup_file_Some: "lookup_file n d = Some f \<longleftrightarrow> map_of (dents d) n = Some (DFile f)"
  by (auto simp: lookup_file_def split: option.splits dirent.splits)

lemma log_holds_entry:
  assumes "log_holds rs l d"
  obtains f where "l_f l = Some f" "map_of (dents d) (l_path l) = Some (DFile f)"
  using assms by (auto simp: log_holds_def lookup_file_Some split: option.splits)

lemma file_holds_append:
  assumes h: "file_holds n rs l d" and app: "Log_Append r l d = (err, l', d')" and h': "log_holds rs' l' d'"
  shows "file_holds n rs' l' d'"
proof -
  obtain f where "l_f l = Some f" using h log_holds_entry [of rs l d] by (auto simp: file_holds_def)
  then have "only_file f d d'" by (rule only_file_Append [OF app])
  then show ?thesis
    using h h' Log_Append_path [OF app] Log_Append_disk_ok [OF app] by (simp add: file_holds_def only_file_def)
qed

lemma file_holds_compact:
  assumes h: "file_holds n rs l d" and cm: "Compact hdr live l d = (err, l', d')" and n: "h_Name hdr = n"
    and h': "log_holds rs' l' d'" "l_path l' = l_path l" and err: "err \<noteq> None \<Longrightarrow> l' = l" "err = None \<Longrightarrow> synced_dents d' = dents d'"
  shows "file_holds n rs' l' d'"
proof -
  have p: "l_path l = h_Name hdr @ logExt" "disk_ok d" using h n by (simp_all add: file_holds_def)
  note o = only_names_Compact [OF cm p(2,1)]
  have "map_of (synced_dents d') (n @ logExt) = map_of (dents d') (n @ logExt)"
  proof (cases "synced_dents d' = dents d'")
    case False
    then have e: "l' = l" "synced_dents d' = synced_dents d" using err o(2) by auto
    obtain f where "l_f l = Some f" "map_of (dents d) (l_path l) = Some (DFile f)"
      using h log_holds_entry [of rs l d] by (auto simp: file_holds_def)
    moreover obtain g where "l_f l = Some g" "map_of (dents d') (l_path l) = Some (DFile g)"
      using h' e log_holds_entry [of rs' l d'] by auto
    ultimately show ?thesis using e h by (simp add: file_holds_def)
  qed simp
  then show ?thesis using h h' only_names_ok [OF o(1)] by (simp add: file_holds_def)
qed

lemma Compact_synced:
  assumes "Compact hdr live l d = (None, l', d')"
  shows "synced_dents d' = dents d'"
proof -
  obtain d4 buf where c: "commit_replacement hdr live buf l d4 = (None, l', d')"
    using assms by (auto simp: Compact_def split: option.splits sum.splits prod.splits)
  then obtain d5 d6 f d7 where s: "syncDir d5 = (None, d6)" and o: "OpenRdwr (l_path l) d6 = (Inr f, d7)"
      and d': "d' = snd (FClose (the (l_f l)) d7)"
    by (auto simp: commit_replacement_def Let_def split: option.splits sum.splits prod.splits)
  then show ?thesis using syncDir_effect [OF s] synced_dents_calls(7) [OF o] by simp
qed

interpretation file_log: log_store storage_log file_holds file_healthy
proof
  fix n rs l w r l' w' e hdr live
  show "file_holds n (rs @ [r]) l' w'" if h: "file_holds n rs l w" and app: "ls_Append storage_log r l w = (None, l', w')"
    using Log_Append_cases [of rs l w r None l' w'] file_holds_append [OF h, of r None l' w'] h app
    by (simp add: file_holds_def storage_log_def)
  show "file_holds n rs l' w'"
    if h: "file_holds n rs l w" and app: "ls_Append storage_log r l w = (Some e, l', w')" and ok: "file_healthy l' w'"
    using Log_Append_cases [of rs l w r "Some e" l' w'] file_holds_append [OF h, of r "Some e" l' w'] h app
      log_broken_unhealthy [of rs r l' w'] ok
    by (auto simp: file_holds_def storage_log_def)
  show "file_holds n (compacted hdr live) l' w'"
    if h: "file_holds n rs l w" and n: "h_Name hdr = n" and cm: "ls_Compact storage_log hdr live l w = (None, l', w')"
    using Compact_cases [of hdr live l w None l' w' rs] file_holds_compact [OF h, of hdr live None l' w']
      Compact_synced [of hdr live l w l' w'] h n cm
    by (auto simp: file_holds_def storage_log_def)
  show "file_holds n rs l' w'"
    if h: "file_holds n rs l w" and n: "h_Name hdr = n" and cm: "ls_Compact storage_log hdr live l w = (Some e, l', w')"
      and ok: "file_healthy l' w'"
    using Compact_cases [of hdr live l w "Some e" l' w' rs] file_holds_compact [OF h, of hdr live "Some e" l' w' rs] h n cm ok
      log_stale_unhealthy [of rs "compacted hdr live" l' w'] log_replaced_unhealthy [of "compacted hdr live" l' w']
    by (auto simp: file_holds_def storage_log_def)
  show "file_healthy l w" if "file_holds n rs l w"
    using that log_holds_healthy by (auto simp: file_holds_def)
  show "ls_Records storage_log l = length rs" if "file_holds n rs l w"
    using that by (auto simp: file_holds_def log_holds_def storage_log_def Log_Records_def split: option.splits)
qed

section \<open>The in-memory log of the tests\<close>

text \<open>\<open>fakeLog\<close> of \<open>internal/queue/fakelog_test.go\<close>: the records, and the error every call fails with.\<close>

record fakeLog =
  fl_records :: "Record list"
  fl_failWith :: "goerror option"

definition fake_log :: "(fakeLog, unit) logStore" where
  "fake_log = \<lparr>
     ls_Append = (\<lambda>r l w. case fl_failWith l of Some e \<Rightarrow> (Some e, l, w)
       | None \<Rightarrow> (None, l\<lparr>fl_records := fl_records l @ [r]\<rparr>, w)),
     ls_Records = (\<lambda>l. length (fl_records l)),
     ls_Compact = (\<lambda>hdr live l w. case fl_failWith l of Some e \<Rightarrow> (Some e, l, w)
       | None \<Rightarrow> (None, l\<lparr>fl_records := compacted hdr live\<rparr>, w)),
     ls_Close = (\<lambda>l w. (None, l, w))\<rparr>"

interpretation fake: log_store fake_log "\<lambda>_ rs l _. fl_records l = rs" "\<lambda>_ _. True"
  by unfold_locales (auto simp: fake_log_def split: option.splits)

end
