(* ===== verification/Queue_Durable.thy ===== *)
theory Queue_Durable
  imports Log_Store
begin

text \<open>
  Recovery as the inverse of the log: the records a queue has appended, replayed through the
  closure of \<open>openQueue\<close>, give its live messages (as far as they are persisted), its counters and its
  configuration. The relation is kept by every operation and by compaction, and a restart rebuilds a
  well-formed queue from it.
\<close>

section \<open>What survives a restart\<close>

definition persisted :: "Message \<Rightarrow> Message" where
  "persisted m = new_message (ID m) (Seq m) (Priority m) (compact_body (Body m))
     (fromMillis (toMillis (CreatedAt m))) (fromMillis (toMillis (AvailableAt m)))"

definition all_live :: "'l Queue \<Rightarrow> Message multiset" where
  "all_live q = view q Ready + view q Delayed + view q Expiry"

definition matches :: "recovery \<Rightarrow> 'l Queue \<Rightarrow> bool" where
  "matches s q \<longleftrightarrow> rv_seenHdr s
     \<and> rv_cfg s = \<lparr>c_Name = q_name q, c_Ordering = q_ordering q, c_CreatedAt = fromMillis (toMillis (q_createdAt q))\<rparr>
     \<and> rv_nextSeq s = q_nextSeq q \<and> rv_enqueued s = q_enqueued q \<and> rv_acked s = q_acked q
     \<and> distinct (map fst (rv_live s)) \<and> (\<forall>x \<in> set (rv_live s). ID (snd x) = fst x)
     \<and> mset (map snd (rv_live s)) = image_mset persisted (all_live q)"

definition recovers :: "Record list \<Rightarrow> 'l Queue \<Rightarrow> bool" where
  "recovers rs q \<longleftrightarrow> list_all rec_ok rs \<and> rs \<noteq> [] \<and> is_header (hd rs)
     \<and> (\<exists>s. replay apply_record (map canon rs) recovery_start = Inr s \<and> matches s q)"

lemma replay_append:
  "replay ap (rs @ rs') st = (case replay ap rs st of Inl e \<Rightarrow> Inl e | Inr st' \<Rightarrow> replay ap rs' st')"
  by (induction rs arbitrary: st) (auto split: sum.splits)

lemma recovers_snoc:
  assumes "recovers rs q" "rec_ok r"
    "\<And>s. matches s q \<Longrightarrow> \<exists>s'. apply_record (canon r) s = Inr s' \<and> matches s' q'"
  shows "recovers (rs @ [r]) q'"
  using assms by (fastforce simp: recovers_def replay_append hd_append)

lemma persisted_select [simp]:
  "ID (persisted m) = ID m" "Seq (persisted m) = Seq m" "Priority (persisted m) = Priority m"
  "Receipt (persisted m) = ''''" "MState (persisted m) = StateNone" "AvailableAt (persisted m) = fromMillis (toMillis (AvailableAt m))"
  by (simp_all add: persisted_def new_message_def)

lemma persisted_upd [simp]:
  "persisted (m\<lparr>MState := s\<rparr>) = persisted m" "persisted (m\<lparr>Receipt := r\<rparr>) = persisted m"
  "persisted (m\<lparr>Deadline := t\<rparr>) = persisted m" "persisted (m\<lparr>ReceiveCount := c\<rparr>) = persisted m"
  "persisted (m\<lparr>m_index := i\<rparr>) = persisted m"
  by (simp_all add: persisted_def new_message_def)

lemma persisted_core [simp]: "persisted (core m) = persisted m"
  by (simp add: core_def)

lemma persisted_idem [simp]: "persisted (persisted m) = persisted m"
  by (simp add: persisted_def new_message_def)

text \<open>The record of a message, read back, is the persisted message.\<close>

lemma apply_enqueue:
  "apply_record (canon (REnqueue (enqueue_record m))) s = Inr (s\<lparr>
     rv_live := map_insert (ID m) (persisted m) (rv_live s),
     rv_nextSeq := (if Seq m \<ge> rv_nextSeq s then Seq m + 1 else rv_nextSeq s), rv_enqueued := rv_enqueued s + 1\<rparr>)"
  by (simp add: enqueue_record_def persisted_def new_message_def)

lemma live_lookup:
  assumes "matches s q" "m \<in># all_live q"
  shows "map_of (rv_live s) (ID m) = Some (persisted m)"
proof -
  have "persisted m \<in># mset (map snd (rv_live s))" using assms by (auto simp: matches_def)
  then obtain x where "x \<in> set (rv_live s)" "snd x = persisted m" by auto
  moreover from this have "fst x = ID m" using assms(1) by (auto simp: matches_def)
  ultimately have "(ID m, persisted m) \<in> set (rv_live s)" by (metis prod.collapse)
  then show ?thesis using assms(1) by (simp add: matches_def)
qed

lemma live_ids:
  assumes "matches s q"
  shows "fst ` set (rv_live s) = ID ` set_mset (all_live q)"
proof -
  have "fst ` set (rv_live s) = ID ` snd ` set (rv_live s)" using assms by (force simp: matches_def image_image)
  also have "snd ` set (rv_live s) = persisted ` set_mset (all_live q)"
    using assms unfolding matches_def by (metis list.set_map set_image_mset set_mset_mset)
  finally show ?thesis by (simp add: image_image)
qed

section \<open>Each kind of record\<close>

lemma matches_enqueue:
  assumes s: "matches s q" and m: "Seq m = q_nextSeq q" "ID m \<notin> ID ` set_mset (all_live q)"
    and q': "all_live q' = add_mset m (all_live q)" "q_nextSeq q' = q_nextSeq q + 1" "q_enqueued q' = q_enqueued q + 1"
      "q_acked q' = q_acked q" "q_name q' = q_name q" "q_ordering q' = q_ordering q" "q_createdAt q' = q_createdAt q"
  shows "\<exists>s'. apply_record (canon (REnqueue (enqueue_record m))) s = Inr s' \<and> matches s' q'"
proof -
  have new: "ID m \<notin> fst ` set (rv_live s)" using live_ids [OF s] m(2) by simp
  then have "map_delete (ID m) (rv_live s) = rv_live s" by (simp add: map_delete_new map_of_eq_None_iff)
  then show ?thesis
    unfolding apply_enqueue using s m(1) q' new by (auto simp: matches_def map_insert_def)
qed

lemma mset_map_snd_delete:
  assumes "distinct (map fst xs)" "map_of xs k = Some v"
  shows "mset (map snd (map_delete k xs)) = mset (map snd xs) - {#v#}"
  using mset_map_delete [OF assms] by simp

lemma matches_ack:
  assumes s: "matches s q" and m: "m \<in># all_live q"
    and q': "all_live q' = all_live q - {#m#}" "q_nextSeq q' = q_nextSeq q" "q_enqueued q' = q_enqueued q"
      "q_acked q' = q_acked q + 1" "q_name q' = q_name q" "q_ordering q' = q_ordering q" "q_createdAt q' = q_createdAt q"
  shows "\<exists>s'. apply_record (canon (RAck \<lparr>a_ID = ID m\<rparr>)) s = Inr s' \<and> matches s' q'"
proof -
  have d: "distinct (map fst (rv_live s))" using s by (simp add: matches_def)
  have "mset (map snd (map_delete (ID m) (rv_live s))) = image_mset persisted (all_live q')"
    using mset_map_snd_delete [OF d live_lookup [OF s m]] s m
    by (simp only: matches_def q'(1) image_mset_Diff [of "{#m#}" "all_live q" persisted] single_subset_iff) simp
  moreover have "\<forall>x \<in> set (map_delete (ID m) (rv_live s)). ID (snd x) = fst x"
    using s by (auto simp: matches_def map_delete_def)
  ultimately show ?thesis using s q' distinct_map_delete [OF d, of "ID m"] by (auto simp: matches_def)
qed


lemma matches_nack:
  assumes s: "matches s q" and m: "m \<in># all_live q"
    and q': "all_live q' = add_mset m' (all_live q - {#m#})" "persisted m' = (persisted m)\<lparr>AvailableAt := fromMillis t\<rparr>"
      "q_nextSeq q' = q_nextSeq q" "q_enqueued q' = q_enqueued q" "q_acked q' = q_acked q"
      "q_name q' = q_name q" "q_ordering q' = q_ordering q" "q_createdAt q' = q_createdAt q"
  shows "\<exists>s'. apply_record (canon (RNack \<lparr>n_ID = ID m, n_AvailableAt = t\<rparr>)) s = Inr s' \<and> matches s' q'"
proof -
  let ?u = "\<lambda>x. if fst x = ID m then (fst x, (snd x)\<lparr>AvailableAt := fromMillis t\<rparr>) else x"
  let ?rest = "map_delete (ID m) (rv_live s)"
  have d: "distinct (map fst (rv_live s))" using s by (simp add: matches_def)
  note del = mset_map_delete [OF d live_lookup [OF s m]]
  have "map ?u ?rest = ?rest" by (rule map_idI) (simp add: map_delete_def)
  then have "image_mset ?u (mset ?rest) = mset ?rest" by (metis mset_map)
  then have "mset (map ?u (rv_live s)) = add_mset (ID m, (persisted m)\<lparr>AvailableAt := fromMillis t\<rparr>) (mset ?rest)"
    by (simp only: mset_map del image_mset_add_mset) simp
  then have "mset (map snd (map ?u (rv_live s))) = add_mset (persisted m') (mset (map snd ?rest))"
    by (simp only: mset_map image_mset_add_mset snd_conv q'(2))
  also have "mset (map snd ?rest) = image_mset persisted (all_live q - {#m#})"
    using mset_map_snd_delete [OF d live_lookup [OF s m]] s m
    by (simp only: matches_def image_mset_Diff [of "{#m#}" "all_live q" persisted] single_subset_iff) simp
  finally have "mset (map snd (map ?u (rv_live s))) = image_mset persisted (all_live q')"
    by (simp add: q'(1))
  moreover have "map fst (map ?u (rv_live s)) = map fst (rv_live s)" by simp
  moreover have "\<forall>x \<in> set (map ?u (rv_live s)). ID (snd x) = fst x" using s by (auto simp: matches_def)
  moreover define xs where "xs = map ?u (rv_live s)"
  ultimately have "matches (s\<lparr>rv_live := xs\<rparr>) q'" using s q'(3-) d unfolding xs_def [symmetric] by (simp add: matches_def)
  moreover have "apply_record (canon (RNack \<lparr>n_ID = ID m, n_AvailableAt = t\<rparr>)) s = Inr (s\<lparr>rv_live := xs\<rparr>)"
    by (simp add: xs_def)
  ultimately show ?thesis by blast
qed

lemma matches_cong:
  assumes "matches s q" "image_mset persisted (all_live q') = image_mset persisted (all_live q)" "same_frame q q'"
  shows "matches s q'"
  using assms by (simp add: matches_def same_frame_def)

section \<open>Compaction\<close>

lemma replay_live:
  assumes "distinct (map ID ms)" "ID ` set ms \<inter> fst ` set (rv_live s) = {}" "\<forall>m \<in> set ms. Seq m < rv_nextSeq s"
  shows "replay apply_record (map (\<lambda>m. canon (REnqueue (enqueue_record m))) ms) s = Inr (s\<lparr>
     rv_live := rv_live s @ map (\<lambda>m. (ID m, persisted m)) ms, rv_enqueued := rv_enqueued s + of_nat (length ms)\<rparr>)"
  using assms
proof (induction ms arbitrary: s)
  case (Cons m ms)
  let ?s = "s\<lparr>rv_live := rv_live s @ [(ID m, persisted m)], rv_enqueued := rv_enqueued s + 1\<rparr>"
  have "map_delete (ID m) (rv_live s) = rv_live s"
    using Cons.prems(2) by (intro map_delete_new) (auto simp: map_of_eq_None_iff)
  then have step: "apply_record (canon (REnqueue (enqueue_record m))) s = Inr ?s"
    using Cons.prems(3) unfolding apply_enqueue by (auto simp: map_insert_def not_le)
  have "replay apply_record (map (\<lambda>m. canon (REnqueue (enqueue_record m))) ms) ?s = Inr (?s\<lparr>
     rv_live := rv_live ?s @ map (\<lambda>m. (ID m, persisted m)) ms, rv_enqueued := rv_enqueued ?s + of_nat (length ms)\<rparr>)"
    by (rule Cons.IH) (use Cons.prems in auto)
  then show ?case using step by (simp add: add.assoc del: apply_record.simps canon.simps)
qed simp

text \<open>The sequence numbers in use lie below the next one.\<close>

definition seq_ok :: "'l Queue \<Rightarrow> bool" where
  "seq_ok q \<longleftrightarrow> 1 \<le> q_nextSeq q \<and> (\<forall>m \<in># all_live q. Seq m < q_nextSeq q)"

text \<open>Every live message, and the configuration, can be written to the log.\<close>

definition live_ok :: "'l Queue \<Rightarrow> bool" where
  "live_ok q \<longleftrightarrow> plain (q_name q) \<and> int64 (toMillis (q_createdAt q))
     \<and> (\<forall>m \<in># all_live q. rec_ok (REnqueue (enqueue_record m)))"

lemma enqueue_record_core [simp]: "enqueue_record (core m) = enqueue_record m"
  by (simp add: enqueue_record_def)

lemma live_messages:
  assumes "infl_inv q"
  obtains ms where "live_records q = map enqueue_record ms" "mset ms = all_live q"
proof -
  let ?as = "items (q_ready q) @ items (q_delayed q) @ map snd (q_inflight q)"
  have "mset (map (\<lambda>a. core (q_store q a)) ?as) = all_live q"
    using assms by (simp add: all_live_def view_def infl_inv_def q_heap_fold flip: mset_map)
      (simp add: mset_map flip: image_mset.compositionality)
  moreover have "live_records q = map enqueue_record (map (\<lambda>a. core (q_store q a)) ?as)"
    by (simp add: live_records_def)
  ultimately show ?thesis using that by blast
qed

lemma plain_ordering: "plain (ordering_string odr)"
  by (cases odr) (simp_all add: plain_simps plain_char_lower code_def)

lemma recovers_compacted:
  assumes rec: "recovers rs q" and inv: "infl_inv q" and sq: "seq_ok q" and ok: "live_ok q"
  shows "recovers (compacted (compact_header q) (live_records q)) q"
proof -
  obtain s where s: "matches s q" using rec by (auto simp: recovers_def)
  obtain ms where ms: "live_records q = map enqueue_record ms" "mset ms = all_live q"
    using live_messages [OF inv] .
  have set: "set ms = set_mset (all_live q)" by (metis ms(2) set_mset_mset)
  have "mset (map ID ms) = mset (map fst (rv_live s))"
  proof -
    have "map fst (rv_live s) = map ID (map snd (rv_live s))" using s by (auto simp: matches_def)
    then have "mset (map fst (rv_live s)) = image_mset ID (image_mset persisted (all_live q))"
      using s by (metis matches_def mset_map)
    then show ?thesis by (simp add: ms(2) image_mset.compositionality comp_def)
  qed
  then have dist: "distinct (map ID ms)" using s by (metis matches_def mset_eq_imp_distinct_iff)
  let ?h = "compact_header q"
  define s0 where "s0 = recovery_start\<lparr>rv_cfg := \<lparr>c_Name = q_name q, c_Ordering = q_ordering q,
      c_CreatedAt = fromMillis (toMillis (q_createdAt q))\<rparr>, rv_nextSeq := q_nextSeq q,
      rv_enqueued := q_enqueued q - of_nat (length ms), rv_acked := q_acked q, rv_seenHdr := True\<rparr>"
  have hdr: "apply_record (canon (RHeader ?h)) recovery_start = Inr s0"
    using sq by (simp add: compact_header_def s0_def recovery_start_def seq_ok_def ms(1) antisym_conv2 word_le_def)
  have live0: "rv_live s0 = []" "rv_nextSeq s0 = q_nextSeq q" by (simp_all add: s0_def recovery_start_def)
  have "replay apply_record (map canon (compacted ?h (live_records q))) recovery_start =
      replay apply_record (map (\<lambda>m. canon (REnqueue (enqueue_record m))) ms) s0"
    using hdr by (simp add: compacted_def ms(1) comp_def del: apply_record.simps canon.simps)
  also have "\<dots> = Inr (s0\<lparr>rv_live := map (\<lambda>m. (ID m, persisted m)) ms, rv_enqueued := q_enqueued q\<rparr>)"
    using replay_live [OF dist, of s0] sq live0 set by (simp add: seq_ok_def s0_def)
  finally have "\<exists>s'. replay apply_record (map canon (compacted ?h (live_records q))) recovery_start = Inr s' \<and> matches s' q"
    using dist ms(2) by (auto simp: matches_def s0_def comp_def multiset.map_comp)
  moreover have "list_all rec_ok (compacted ?h (live_records q))"
    using ok set by (auto simp: compacted_def ms(1) list_all_iff live_ok_def compact_header_def plain_ordering)
  ultimately show ?thesis by (simp add: recovers_def compacted_def)
qed

section \<open>Operations and the log\<close>

text \<open>An operation appends its record first and may compact last; compaction changes the log only.\<close>

lemma maybeCompact_undo:
  assumes "maybeCompact ls qf w1 = (q', w')" "q_log qf = l"
  shows "q'\<lparr>q_log := l\<rparr> = qf" "q_createdAt q' = q_createdAt qf"
proof -
  obtain l' where "q' = qf\<lparr>q_log := l'\<rparr>" using maybeCompact_log [of ls qf w1] assms(1) by auto
  then show "q'\<lparr>q_log := l\<rparr> = qf" "q_createdAt q' = q_createdAt qf" using assms(2) by auto
qed

lemma Enqueue_log:
  assumes "Queue_Enqueue ls body prio delay now rnd q w = (Inr i, q', w')"
  obtains l w1 where "ls_Append ls (REnqueue (enqueue_record (new_message i (q_nextSeq q) prio body now (now + delay)))) (q_log q) w = (None, l, w1)"
    "maybeCompact ls (q'\<lparr>q_log := l\<rparr>) w1 = (q', w')" "q_createdAt q' = q_createdAt q"
proof -
  obtain l w1 where ok: "body \<noteq> []" "0 \<le> delay" "newID rnd = Inr i" "\<not> q_closed q"
      and app: "ls_Append ls (REnqueue \<lparr>e_ID = i, e_Seq = q_nextSeq q, e_Priority = prio, e_CreatedAt = toMillis now,
          e_AvailableAt = toMillis (now + delay), e_Body = body\<rparr>) (q_log q) w = (None, l, w1)"
    using assms by (auto simp: Queue_Enqueue_def Let_def split: if_splits sum.splits prod.splits option.splits)
  let ?q1 = "q\<lparr>q_log := l, q_nextSeq := q_nextSeq q + 1, q_enqueued := q_enqueued q + 1\<rparr>"
  obtain a q2 where al: "allocate (new_message i (q_nextSeq q) prio body now (now + delay)) ?q1 = (a, q2)" by force
  have mc: "maybeCompact ls (file_message delay a q2) w1 = (q', w')"
    using assms ok app al by (auto simp: Queue_Enqueue_def Let_def split: prod.splits)
  have "q_log (file_message delay a q2) = l" "q_createdAt (file_message delay a q2) = q_createdAt q"
    using al by (auto simp: allocate_def)
  then show ?thesis using that [of l w1] app maybeCompact_undo [OF mc] mc
    by (simp add: enqueue_record_def new_message_def)
qed

lemma Ack_log:
  assumes "Queue_Ack ls r q w = Some (None, q', w')"
  obtains a l w1 where "map_of (q_inflight q) r = Some a"
    "ls_Append ls (RAck \<lparr>a_ID = ID (q_store q a)\<rparr>) (q_log q) w = (None, l, w1)"
    "maybeCompact ls (q'\<lparr>q_log := l\<rparr>) w1 = (q', w')" "q_createdAt q' = q_createdAt q"
proof -
  obtain a l w1 where r: "map_of (q_inflight q) r = Some a" "\<not> q_closed q"
      and app: "ls_Append ls (RAck \<lparr>a_ID = ID (q_store q a)\<rparr>) (q_log q) w = (None, l, w1)"
    using assms by (auto simp: Queue_Ack_def split: if_splits option.splits prod.splits)
  let ?q1 = "q\<lparr>q_log := l, q_inflight := map_delete r (q_inflight q)\<rparr>"
  obtain x q2 where rm: "remove Expiry (m_index (q_store ?q1 a)) ?q1 = Some (x, q2)"
      and mc: "maybeCompact ls (q2\<lparr>q_acked := q_acked q2 + 1\<rparr>) w1 = (q', w')"
    using assms r app by (auto simp: Queue_Ack_def split: option.splits prod.splits)
  have "q_log (q2\<lparr>q_acked := q_acked q2 + 1\<rparr>) = l" "q_createdAt (q2\<lparr>q_acked := q_acked q2 + 1\<rparr>) = q_createdAt q"
    using rm by (auto simp: remove_def split: option.splits)
  then show ?thesis using that [of a l w1] r app maybeCompact_undo [OF mc] mc by simp
qed

lemma Nack_log:
  assumes "Queue_Nack ls r delay now q w = Some (None, q', w')"
  obtains a l w1 where "map_of (q_inflight q) r = Some a"
    "ls_Append ls (RNack \<lparr>n_ID = ID (q_store q a), n_AvailableAt = toMillis (now + delay)\<rparr>) (q_log q) w = (None, l, w1)"
    "maybeCompact ls (q'\<lparr>q_log := l\<rparr>) w1 = (q', w')" "q_createdAt q' = q_createdAt q"
proof -
  obtain a l w1 where r: "map_of (q_inflight q) r = Some a" "\<not> q_closed q" "0 \<le> delay"
      and app: "ls_Append ls (RNack \<lparr>n_ID = ID (q_store q a), n_AvailableAt = toMillis (now + delay)\<rparr>) (q_log q) w = (None, l, w1)"
    using assms by (auto simp: Queue_Nack_def Let_def split: if_splits option.splits prod.splits)
  let ?q1 = "q\<lparr>q_log := l, q_inflight := map_delete r (q_inflight q)\<rparr>"
  let ?f = "\<lambda>m. m\<lparr>Receipt := '''', Deadline := zero_time, AvailableAt := now + delay\<rparr>"
  obtain x q2 where rm: "remove Expiry (m_index (q_store ?q1 a)) ?q1 = Some (x, q2)"
      and mc: "maybeCompact ls (file_message delay a (modify a ?f q2)) w1 = (q', w')"
    using assms r app by (auto simp: Queue_Nack_def Let_def split: option.splits prod.splits)
  have "q_log (file_message delay a (modify a ?f q2)) = l" "q_createdAt (file_message delay a (modify a ?f q2)) = q_createdAt q"
    using rm by (auto simp: remove_def split: option.splits)
  then show ?thesis using that [of a l w1] r app maybeCompact_undo [OF mc] mc by simp
qed

lemma all_live_file: "a_file delay m A Ready + a_file delay m A Delayed + a_file delay m A Expiry =
  add_mset (if delay > 0 then m\<lparr>MState := StateDelayed\<rparr> else m\<lparr>MState := StateReady\<rparr>) (A Ready + A Delayed + A Expiry)"
  by (simp add: a_file_def)

lemma all_live_upd [simp]: "all_live (q\<lparr>q_log := l\<rparr>) = all_live q"
  by (simp add: all_live_def)

lemma matches_log [simp]: "matches s (q\<lparr>q_log := l\<rparr>) = matches s q" "recovers rs (q\<lparr>q_log := l\<rparr>) = recovers rs q"
  "seq_ok (q\<lparr>q_log := l\<rparr>) = seq_ok q" "live_ok (q\<lparr>q_log := l\<rparr>) = live_ok q"
  by (simp_all add: matches_def recovers_def seq_ok_def live_ok_def)

lemma enqueue_record_state [simp]: "enqueue_record (m\<lparr>MState := s\<rparr>) = enqueue_record m"
  by (simp add: enqueue_record_def)

text \<open>A receipt determines the in-flight message.\<close>

lemma view_receipt:
  assumes "queue_inv q" "m \<in># view q Expiry" "map_of (q_inflight q) (Receipt m) = Some a"
  shows "m = core (q_store q a)"
proof -
  from assms(2) obtain b where b: "b \<in> set (addrs Expiry q)" "m = core (q_store q b)" by (auto simp: view_def)
  from inflight_unique [OF assms(1) b(1)] assms(3) b(2) show ?thesis by simp
qed

lemma all_live_minus: "m \<in># A Expiry \<Longrightarrow>
    (A(Expiry := A Expiry - {#m#})) Ready + (A(Expiry := A Expiry - {#m#})) Delayed + (A(Expiry := A Expiry - {#m#})) Expiry
    = A Ready + A Delayed + A Expiry - {#m#}"
  by simp

lemma live_expiry: "m \<in># view q Expiry \<Longrightarrow> m \<in># all_live q"
  by (simp add: all_live_def)

section \<open>A durable queue\<close>

definition sound :: "'l Queue \<Rightarrow> bool" where
  "sound q \<longleftrightarrow> queue_inv q \<and> seq_ok q \<and> live_ok q"

definition durable :: "(string \<Rightarrow> Record list \<Rightarrow> 'l \<Rightarrow> 'w \<Rightarrow> bool) \<Rightarrow> 'l Queue \<Rightarrow> 'w \<Rightarrow> bool" where
  "durable holds q w \<longleftrightarrow> (\<exists>rs. holds (q_name q) rs (q_log q) w \<and> recovers rs q)"

text \<open>The fields the log accounts for, the messages apart.\<close>

definition same_core :: "'l Queue \<Rightarrow> 'l Queue \<Rightarrow> bool" where
  "same_core q q' \<longleftrightarrow> q_name q' = q_name q \<and> q_ordering q' = q_ordering q \<and> q_createdAt q' = q_createdAt q
     \<and> q_nextSeq q' = q_nextSeq q \<and> q_enqueued q' = q_enqueued q \<and> q_acked q' = q_acked q \<and> q_log q' = q_log q"

lemma same_core_frame: "same_frame q q' \<Longrightarrow> same_core q q'"
  by (simp add: same_frame_def same_core_def)

lemma popReady_same: "popReady vis now rnd q = Some (res, q') \<Longrightarrow> same_core q q'"
  by (auto simp: popReady_def pop_def same_core_def Let_def split: if_splits sum.splits option.splits)

text \<open>Delivering, promoting and expiring keep what is persisted of a message.\<close>

lemma persisted_moves [simp]:
  "persisted (a_deliver r t m) = persisted m" "persisted (a_ready m) = persisted m" "persisted (a_expired m) = persisted m"
  "enqueue_record (a_deliver r t m) = enqueue_record m" "enqueue_record (a_ready m) = enqueue_record m"
  "enqueue_record (a_expired m) = enqueue_record m"
  by (simp_all add: a_deliver_def a_ready_def a_expired_def) (simp_all add: enqueue_record_def)

definition all_of :: "(which \<Rightarrow> Message multiset) \<Rightarrow> Message multiset" where
  "all_of A = A Ready + A Delayed + A Expiry"

lemma all_live_of: "all_live q = all_of (view q)"
  by (simp add: all_live_def all_of_def)

lemma image_deliver:
  assumes "m \<in># A Ready" "\<And>m. f (a_deliver r t m) = f m"
  shows "image_mset f (all_of (A(Ready := A Ready - {#m#}, Expiry := add_mset (a_deliver r t m) (A Expiry)))) = image_mset f (all_of A)"
proof -
  obtain R where "A Ready = add_mset m R" using assms(1) by (metis insert_DiffM)
  then show ?thesis using assms(2) by (simp add: all_of_def ac_simps)
qed

lemma image_split:
  assumes "\<And>m. f (g m) = f m"
  shows "image_mset f {#m \<in># M. (now :: int) < t m#} + image_mset f (image_mset g {#m \<in># M. t m \<le> now#}) = image_mset f M"
proof -
  have "image_mset f (image_mset g N) = image_mset f N" for N using assms by (simp add: multiset.map_comp comp_def)
  moreover have "{#m \<in># M. now < t m#} + {#m \<in># M. t m \<le> now#} = M"
    using multiset_partition [of M "\<lambda>m. now < t m"] by (simp add: not_less)
  ultimately show ?thesis by (metis image_mset_union)
qed

lemma image_due:
  assumes "\<And>m. f (a_ready m) = f m" "\<And>m. f (a_expired m) = f m"
  shows "image_mset f (all_of (a_expire now (a_promote now A))) = image_mset f (all_of A)"
proof -
  note D = image_split [of f a_ready now AvailableAt "A Delayed", OF assms(1), symmetric]
  note E = image_split [of f a_expired now Deadline "A Expiry", OF assms(2), symmetric]
  show ?thesis by (simp add: a_expire_def a_promote_def all_of_def D E ac_simps)
qed

lemma sound_log [simp]: "sound (q\<lparr>q_log := l\<rparr>) = sound q"
  by (simp add: sound_def)

context log_store
begin

lemma compact_durable:
  assumes "sound q" "durable holds q w" "compactLocked ls q w = (err, q', w')" "healthy (q_log q') w'"
  shows "sound q' \<and> durable holds q' w'"
proof -
  obtain rs where rs: "holds (q_name q) rs (q_log q) w" "recovers rs q" using assms(2) by (auto simp: durable_def)
  obtain l where c: "ls_Compact ls (compact_header q) (live_records q) (q_log q) w = (err, l, w')" "q' = q\<lparr>q_log := l\<rparr>"
    using assms(3) by (auto simp: compactLocked_def split: prod.splits)
  have nm: "h_Name (compact_header q) = q_name q" by (simp add: compact_header_def)
  have "recovers (compacted (compact_header q) (live_records q)) q"
    using recovers_compacted [OF rs(2)] assms(1) by (simp add: sound_def queue_inv_def)
  then have "durable holds q' w'"
  proof (cases err)
    case None
    then show ?thesis using compact_ok [OF rs(1) nm] c \<open>recovers (compacted _ _) q\<close> by (auto simp: durable_def)
  next
    case (Some e)
    then have "holds (q_name q) rs l w'" using compact_err [OF rs(1) nm c(1) [unfolded Some]] assms(4) c(2) by simp
    then show ?thesis using rs(2) by (auto simp: durable_def c(2))
  qed
  then show ?thesis using assms(1) by (simp add: c(2))
qed

lemma maybeCompact_durable:
  assumes "sound q" "durable holds q w" "maybeCompact ls q w = (q', w')" "healthy (q_log q') w'"
  shows "sound q' \<and> durable holds q' w'"
  using assms compact_durable [OF assms(1,2), of "fst (compactLocked ls q w)"]
  by (auto simp: maybeCompact_def Let_def split: if_splits) (metis prod.collapse)+

text \<open>The record is appended, the queue changes to match it, and the log may be compacted.\<close>

lemma step_durable:
  assumes rs: "holds (q_name q) rs (q_log q) w" "recovers rs q"
    and app: "ls_Append ls r (q_log q) w = (None, l, w1)" and nm: "q_name q' = q_name q"
    and rec: "recovers (rs @ [r]) q'" and snd: "sound q'"
    and mc: "maybeCompact ls (q'\<lparr>q_log := l\<rparr>) w1 = (q', w')" and h: "healthy (q_log q') w'"
  shows "durable holds q' w'"
proof -
  have "durable holds (q'\<lparr>q_log := l\<rparr>) w1"
    using append_ok [OF rs(1) app] rec nm by (auto simp: durable_def)
  from maybeCompact_durable [OF _ this mc h] snd show ?thesis by simp
qed

lemma refused_durable:
  assumes "holds (q_name q) rs (q_log q) w" "recovers rs q" "ls_Append ls r (q_log q) w = (Some e, l, w')"
    "healthy l w'"
  shows "durable holds (q\<lparr>q_log := l\<rparr>) w'"
  using append_err [OF assms(1,3,4)] assms(2) by (auto simp: durable_def)

lemma Enqueue_durable:
  assumes snd: "sound q" and dur: "durable holds q w"
    and enq: "Queue_Enqueue ls body prio delay now rnd q w = (Inr i, q', w')" and h: "healthy (q_log q') w'"
    and fresh: "i \<notin> ID ` set_mset (all_live q)" "q_nextSeq q \<noteq> - 1"
    and ok: "rec_ok (REnqueue (enqueue_record (new_message i (q_nextSeq q) prio body now (now + delay))))"
  shows "sound q' \<and> durable holds q' w'"
proof -
  let ?m = "new_message i (q_nextSeq q) prio body now (now + delay)"
  define m where "m = (if delay > 0 then ?m\<lparr>MState := StateDelayed\<rparr> else ?m\<lparr>MState := StateReady\<rparr>)"
  have m: "ID m = i" "Seq m = q_nextSeq q" "enqueue_record m = enqueue_record ?m"
    by (simp_all add: m_def new_message_def enqueue_record_def)
  obtain rs where rs: "holds (q_name q) rs (q_log q) w" "recovers rs q" using dur by (auto simp: durable_def)
  note eff = Enqueue_effect [OF _ enq]
  have inv: "queue_inv q" using snd by (simp add: sound_def)
  obtain l w1 where lg: "ls_Append ls (REnqueue (enqueue_record ?m)) (q_log q) w = (None, l, w1)"
      "maybeCompact ls (q'\<lparr>q_log := l\<rparr>) w1 = (q', w')" "q_createdAt q' = q_createdAt q" by (rule Enqueue_log [OF enq])
  have live: "all_live q' = add_mset m (all_live q)"
    unfolding all_live_def eff(2) [OF inv] all_live_file m_def by simp
  have lt: "q_nextSeq q < q_nextSeq q + 1" using fresh(2) by (metis inc_less_eq_self_iff_eq not_le)
  have snd': "sound q'"
    using snd eff [OF inv] lt m live ok lg(3) unfolding sound_def seq_ok_def live_ok_def
    by (auto intro: less_trans order_trans [OF _ less_imp_le])
  have "recovers (rs @ [REnqueue (enqueue_record ?m)]) q'"
    by (rule recovers_snoc [OF rs(2) ok])
      (use matches_enqueue [where m = m and q = q and q' = q'] m fresh(1) live eff(3-) [OF inv] lg(3) in simp)
  from step_durable [OF rs lg(1) eff(8) [OF inv] this snd' lg(2) h] snd' show ?thesis by simp
qed

lemma Enqueue_refused_durable:
  assumes "sound q" and dur: "durable holds q w"
    and "Queue_Enqueue ls body prio delay now rnd q w = (Inl e, q', w')" "healthy (q_log q') w'"
  shows "sound q' \<and> durable holds q' w'"
proof -
  obtain rs where rs: "holds (q_name q) rs (q_log q) w" "recovers rs q" using dur by (auto simp: durable_def)
  show ?thesis using assms refused_durable [OF rs]
    by (auto simp: Queue_Enqueue_def Let_def split: if_splits sum.splits prod.splits option.splits)
qed

lemma Ack_durable:
  assumes snd: "sound q" and dur: "durable holds q w"
    and ack: "Queue_Ack ls r q w = Some (None, q', w')" and h: "healthy (q_log q') w'"
  shows "sound q' \<and> durable holds q' w'"
proof -
  obtain rs where rs: "holds (q_name q) rs (q_log q) w" "recovers rs q" using dur by (auto simp: durable_def)
  have inv: "queue_inv q" using snd by (simp add: sound_def)
  obtain a l w1 where lg: "map_of (q_inflight q) r = Some a"
      "ls_Append ls (RAck \<lparr>a_ID = ID (q_store q a)\<rparr>) (q_log q) w = (None, l, w1)"
      "maybeCompact ls (q'\<lparr>q_log := l\<rparr>) w1 = (q', w')" "q_createdAt q' = q_createdAt q" by (rule Ack_log [OF ack])
  obtain m where m: "m \<in># view q Expiry" "Receipt m = r" "view q' = (view q)(Expiry := view q Expiry - {#m#})"
      and q': "queue_inv q'" "q_acked q' = q_acked q + 1" "q_enqueued q' = q_enqueued q" "q_nextSeq q' = q_nextSeq q"
        "q_ordering q' = q_ordering q" "q_name q' = q_name q" by (rule Ack_effect [OF inv ack])
  have live: "all_live q' = all_live q - {#m#}" unfolding all_live_def m(3) by (rule all_live_minus [where A = "view q", OF m(1)])
  have ID: "ID m = ID (q_store q a)" using view_receipt [OF inv m(1)] m(2) lg(1) by simp
  have snd': "sound q'"
    using snd q' live lg(4) by (auto simp: sound_def seq_ok_def live_ok_def dest: in_diffD)
  have "rec_ok (RAck \<lparr>a_ID = ID m\<rparr>)"
    using snd live_expiry [OF m(1)] by (auto simp: sound_def live_ok_def enqueue_record_def)
  then have "recovers (rs @ [RAck \<lparr>a_ID = ID m\<rparr>]) q'"
    by (rule recovers_snoc [OF rs(2)]) (use matches_ack [OF _ live_expiry [OF m(1)]] live q' lg(4) in blast)
  from step_durable [OF rs lg(2) q'(6) this [unfolded ID] snd' lg(3) h] snd' show ?thesis by simp
qed

lemma Ack_refused_durable:
  assumes "sound q" and dur: "durable holds q w"
    and "Queue_Ack ls r q w = Some (Some e, q', w')" "healthy (q_log q') w'"
  shows "sound q' \<and> durable holds q' w'"
proof -
  obtain rs where rs: "holds (q_name q) rs (q_log q) w" "recovers rs q" using dur by (auto simp: durable_def)
  show ?thesis using assms refused_durable [OF rs]
    by (auto simp: Queue_Ack_def Let_def split: if_splits prod.splits option.splits)
qed

lemma Nack_durable:
  assumes snd: "sound q" and dur: "durable holds q w"
    and nack: "Queue_Nack ls r delay now q w = Some (None, q', w')" and h: "healthy (q_log q') w'"
    and ok: "int64 (toMillis (now + delay))"
  shows "sound q' \<and> durable holds q' w'"
proof -
  obtain rs where rs: "holds (q_name q) rs (q_log q) w" "recovers rs q" using dur by (auto simp: durable_def)
  have inv: "queue_inv q" using snd by (simp add: sound_def)
  obtain a l w1 where lg: "map_of (q_inflight q) r = Some a"
      "ls_Append ls (RNack \<lparr>n_ID = ID (q_store q a), n_AvailableAt = toMillis (now + delay)\<rparr>) (q_log q) w = (None, l, w1)"
      "maybeCompact ls (q'\<lparr>q_log := l\<rparr>) w1 = (q', w')" "q_createdAt q' = q_createdAt q" by (rule Nack_log [OF nack])
  obtain m where m: "m \<in># view q Expiry" "Receipt m = r"
      "view q' = a_file delay (a_release (now + delay) m) ((view q)(Expiry := view q Expiry - {#m#}))"
      and q': "queue_inv q'" "q_acked q' = q_acked q" "q_enqueued q' = q_enqueued q" "q_nextSeq q' = q_nextSeq q"
        "q_ordering q' = q_ordering q" "q_name q' = q_name q" by (rule Nack_effect [OF inv nack])
  define st where "st = (if delay > 0 then StateDelayed else StateReady)"
  have live: "all_live q' = add_mset ((a_release (now + delay) m)\<lparr>MState := st\<rparr>) (all_live q - {#m#})"
    unfolding all_live_def m(3) all_live_file all_live_minus [where A = "view q", OF m(1)] by (simp add: st_def)
  let ?m = "(a_release (now + delay) m)\<lparr>MState := st\<rparr>"
  have ID: "ID m = ID (q_store q a)" using view_receipt [OF inv m(1)] m(2) lg(1) by simp
  have okm: "rec_ok (REnqueue (enqueue_record m))" using snd live_expiry [OF m(1)] by (simp add: sound_def live_ok_def)
  then have okm': "rec_ok (REnqueue (enqueue_record ?m))" using ok by (simp add: enqueue_record_def a_release_def)
  have "Seq ?m < q_nextSeq q" using snd live_expiry [OF m(1)] by (simp add: sound_def seq_ok_def a_release_def)
  then have snd': "sound q'"
    using snd q' live lg(4) okm' by (auto simp: sound_def seq_ok_def live_ok_def dest: in_diffD)
  have pm: "persisted ?m = (persisted m)\<lparr>AvailableAt := fromMillis (toMillis (now + delay))\<rparr>"
    by (simp add: persisted_def new_message_def a_release_def)
  have "rec_ok (RNack \<lparr>n_ID = ID m, n_AvailableAt = toMillis (now + delay)\<rparr>)"
    using okm ok by (simp add: enqueue_record_def)
  then have "recovers (rs @ [RNack \<lparr>n_ID = ID m, n_AvailableAt = toMillis (now + delay)\<rparr>]) q'"
    by (rule recovers_snoc [OF rs(2)]) (use matches_nack [OF _ live_expiry [OF m(1)] live pm] q' lg(4) in blast)
  from step_durable [OF rs lg(2) q'(6) this [unfolded ID] snd' lg(3) h] snd' show ?thesis by simp
qed

lemma Nack_refused_durable:
  assumes "sound q" and dur: "durable holds q w"
    and "Queue_Nack ls r delay now q w = Some (Some e, q', w')" "healthy (q_log q') w'"
  shows "sound q' \<and> durable holds q' w'"
proof -
  obtain rs where rs: "holds (q_name q) rs (q_log q) w" "recovers rs q" using dur by (auto simp: durable_def)
  show ?thesis using assms refused_durable [OF rs]
    by (auto simp: Queue_Nack_def Let_def split: if_splits prod.splits option.splits)
qed

text \<open>Operations that do not touch the log.\<close>

lemma quiet_durable:
  assumes "sound q" "durable holds q w" "queue_inv q'" "same_core q q'"
    and live: "image_mset persisted (all_live q') = image_mset persisted (all_live q)"
    and recs: "image_mset enqueue_record (all_live q') = image_mset enqueue_record (all_live q)"
  shows "sound q' \<and> durable holds q' w"
proof -
  have sq: "Seq ` set_mset (all_live q') = Seq ` set_mset (all_live q)"
    using arg_cong [OF recs, of "\<lambda>M. e_Seq ` set_mset M"] by (simp add: image_image enqueue_record_def)
  have er: "enqueue_record ` set_mset (all_live q') = enqueue_record ` set_mset (all_live q)"
    using arg_cong [OF recs, of set_mset] by simp
  have "seq_ok q'" using assms(1,4) sq unfolding sound_def seq_ok_def same_core_def
    by (metis (no_types, opaque_lifting) imageE imageI)
  moreover have "live_ok q'" using assms(1,4) er unfolding sound_def live_ok_def same_core_def
    by (metis (no_types, opaque_lifting) imageE imageI)
  moreover have "matches s q \<Longrightarrow> matches s q'" for s using live assms(4) by (simp add: matches_def same_core_def)
  ultimately show ?thesis using assms by (auto simp: sound_def durable_def recovers_def same_core_def)
qed

lemma Receive_durable:
  assumes snd: "sound q" and dur: "durable holds q w" and pop: "popReady vis now rnd q = Some (res, q')"
    and fresh: "\<And>r. newReceipt rnd = Inr r \<Longrightarrow> map_of (q_inflight q) r = None"
  shows "sound q' \<and> durable holds q' w"
proof (cases "addrs Ready q = [] \<or> (\<exists>e. newReceipt rnd = Inl e)")
  case True
  then have "q' = q" using pop by (auto simp: popReady_def heap_Len_def q_heap_fold split: if_splits)
  then show ?thesis using snd dur by simp
next
  case False
  then obtain r where ne: "addrs Ready q \<noteq> []" and r: "newReceipt rnd = Inr r" by (metis sum.exhaust)
  have inv: "queue_inv q" using snd by (simp add: sound_def)
  obtain q2 m where q2: "popReady vis now rnd q = Some (Inr (Some (delivery (a_deliver r (now + vis) m))), q2)"
      "queue_inv q2" "m \<in># view q Ready"
      "view q2 = (view q)(Ready := view q Ready - {#m#}, Expiry := add_mset (a_deliver r (now + vis) m) (view q Expiry))"
    using popReady_effect [OF inv ne r fresh [OF r]] by metis
  have "q2 = q'" using pop q2(1) by simp
  then show ?thesis
    using quiet_durable [OF snd dur q2(2)] popReady_same [OF pop] unfolding all_live_of q2(4)
    by (simp add: image_deliver [where A = "view q", OF q2(3)])
qed

lemma processDue_durable:
  assumes "sound q" "durable holds q w" "processDue now q = Some (t, q')"
  shows "sound q' \<and> durable holds q' w"
proof -
  have "queue_inv q" using assms(1) by (simp add: sound_def)
  from processDue_effect [OF this, of now] assms(3) have q': "queue_inv q'" "same_frame q q'"
    "view q' = a_expire now (a_promote now (view q))" by auto
  show ?thesis
    by (rule quiet_durable [OF assms(1,2) q'(1) same_core_frame [OF q'(2)]])
      (simp_all add: all_live_of q'(3) image_due)
qed

end

end
