(* ===== verification/Queue_Restart.thy ===== *)
theory Queue_Restart
  imports Queue_Durable
begin

text \<open>
  \<open>createQueue\<close> and \<open>openQueue\<close>: a created queue is well formed and durable, and a restart after a
  crash or a clean shutdown rebuilds a well-formed queue with every unacknowledged message.
\<close>

section \<open>Rebuilding the heaps\<close>

lemma queue_inv_allocate:
  assumes "queue_inv q" "allocate m q = (a, q')"
  shows "queue_inv q' \<and> unfiled a q' \<and> q_store q' a = m \<and> view q' = view q"
proof -
  have hinv: "heaps_inv q" using assms(1) by (simp add: queue_inv_def)
  note al = heaps_inv_allocate [OF hinv assms(2)]
  have q': "q_inflight q' = q_inflight q" using assms(2) by (auto simp: allocate_def)
  have old: "b \<noteq> q_next q" if "b \<in> set (addrs w q)" for b w using hinv that by (auto simp: heaps_inv_def)
  have "infl_inv q' = infl_inv q" by (rule infl_inv_cong) (use al q' old in auto)
  moreover have "view q' = view q" by (rule view_cong) (use al old in auto)
  ultimately show ?thesis using al assms(1) by (auto simp: queue_inv_def)
qed

lemma queue_inv_push:
  assumes inv: "queue_inv q" and a: "unfiled a q" and st: "MState (f (q_store q a)) = state_of w" and w: "w \<noteq> Expiry"
  shows "queue_inv (push w a (modify a f q))"
    "view (push w a (modify a f q)) = (view q)(w := add_mset (core (f (q_store q a))) (view q w))"
proof -
  have hinv: "heaps_inv q" using inv by (simp add: queue_inv_def)
  note pm = push_modified [where f = f and w = w, OF hinv a st]
  have "infl_inv (push w a (modify a f q)) = infl_inv q"
  proof (rule infl_inv_cong)
    fix b assume "b \<in> set (addrs Expiry q)"
    then have "b \<noteq> a" using unfiledD [OF a, of Expiry] by auto
    then show "core (q_store (push w a (modify a f q)) b) = core (q_store q b)" by (rule pm(5))
  qed (use pm(4) [of Expiry] w in simp_all)
  then show "queue_inv (push w a (modify a f q))" using pm(1) inv by (simp add: queue_inv_def)
  show "view (push w a (modify a f q)) = (view q)(w := add_mset (core (f (q_store q a))) (view q w))" by (rule pm(2))
qed

definition a_admit :: "Time \<Rightarrow> Message \<Rightarrow> (which \<Rightarrow> Message multiset) \<Rightarrow> which \<Rightarrow> Message multiset" where
  "a_admit now m A = (if AvailableAt m > now then A(Delayed := add_mset (m\<lparr>MState := StateDelayed\<rparr>) (A Delayed))
     else A(Ready := add_mset (m\<lparr>MState := StateReady\<rparr>) (A Ready)))"

lemma admit_effect:
  assumes "queue_inv q"
  shows "queue_inv (admit now m q)" "view (admit now m q) = a_admit now (core m) (view q)"
proof -
  obtain a q1 where al: "allocate m q = (a, q1)" by force
  note q1 = queue_inv_allocate [OF assms al]
  show "queue_inv (admit now m q)" "view (admit now m q) = a_admit now (core m) (view q)"
    using q1 al queue_inv_push [of q1 a "\<lambda>m. m\<lparr>MState := StateDelayed\<rparr>" Delayed]
      queue_inv_push [of q1 a "\<lambda>m. m\<lparr>MState := StateReady\<rparr>" Ready]
    by (simp_all add: admit_def a_admit_def)
qed

lemma admit_fields [simp]:
  "q_name (admit now m q) = q_name q" "q_ordering (admit now m q) = q_ordering q" "q_createdAt (admit now m q) = q_createdAt q"
  "q_nextSeq (admit now m q) = q_nextSeq q" "q_enqueued (admit now m q) = q_enqueued q" "q_acked (admit now m q) = q_acked q"
  "q_log (admit now m q) = q_log q" "q_closed (admit now m q) = q_closed q" "q_compactThreshold (admit now m q) = q_compactThreshold q"
  "q_inflight (admit now m q) = q_inflight q"
  by (simp_all add: admit_def allocate_def)

lemma admit_all:
  assumes "queue_inv q"
  shows "let q' = fold (\<lambda>x. admit now (snd x)) xs q in
    queue_inv q' \<and> view q' = fold (\<lambda>x. a_admit now (core (snd x))) xs (view q) \<and> same_core q q' \<and> q_inflight q' = q_inflight q
    \<and> q_closed q' = q_closed q \<and> q_compactThreshold q' = q_compactThreshold q"
  using assms by (induction xs arbitrary: q) (simp_all add: admit_effect same_core_def Let_def)

lemma a_admit_all:
  "fold (\<lambda>x. a_admit now (core (snd x))) xs A = A(
     Ready := A Ready + image_mset (\<lambda>m. (core m)\<lparr>MState := StateReady\<rparr>) {#m \<in># mset (map snd xs). AvailableAt m \<le> now#},
     Delayed := A Delayed + image_mset (\<lambda>m. (core m)\<lparr>MState := StateDelayed\<rparr>) {#m \<in># mset (map snd xs). now < AvailableAt m#})"
  by (induction xs arbitrary: A) (auto simp: a_admit_def fun_eq_iff)

section \<open>Restart\<close>

lemma queue_inv_new: "queue_inv (newQueue cfg l n e a)" "view (newQueue cfg l n e a) = (\<lambda>_. {#})"
proof -
  have h: "q_heap w (newQueue cfg l n e a) = (case w of Ready \<Rightarrow> newReadyHeap (c_Ordering cfg) | Delayed \<Rightarrow> newDelayedHeap | Expiry \<Rightarrow> newExpiryHeap)" for w
    by (cases w) (simp_all add: newQueue_def q_heap.simps)
  have i: "items (newReadyHeap odr) = []" "items newDelayedHeap = []" "items newExpiryHeap = []" for odr
    by (simp_all add: newReadyHeap_def newDelayedHeap_def newExpiryHeap_def)
  have o: "q_ordering (newQueue cfg l n e a) = c_Ordering cfg" "q_inflight (newQueue cfg l n e a) = []"
    by (simp_all add: newQueue_def)
  show "queue_inv (newQueue cfg l n e a)"
    unfolding queue_inv_def heaps_inv_def infl_inv_def by (auto simp: h i o split: which.splits)
  show "view (newQueue cfg l n e a) = (\<lambda>_. {#})" by (auto simp: view_def fun_eq_iff h i split: which.splits)
qed

lemma start_fields [simp]: "view (start q) = view q" "queue_inv (start q) = queue_inv q" "q_log (start q) = q_log q"
  "q_name (start q) = q_name q" "q_ordering (start q) = q_ordering q" "q_createdAt (start q) = q_createdAt q"
  "q_nextSeq (start q) = q_nextSeq q" "q_enqueued (start q) = q_enqueued q" "q_acked (start q) = q_acked q"
  "q_closed (start q) = q_closed q" "q_inflight (start q) = q_inflight q" "q_compactThreshold (start q) = q_compactThreshold q"
  by (simp_all add: start_def)


text \<open>What \<open>openQueue\<close> makes of the replayed state.\<close>

lemma rebuild_effect:
  defines "ready \<equiv> \<lambda>now s. {#m \<in># mset (map snd (rv_live s)). AvailableAt m \<le> now#}"
    and "delayed \<equiv> \<lambda>now s. {#m \<in># mset (map snd (rv_live s)). now < AvailableAt m#}"
  shows "queue_inv (rebuild s l thr now)"
    "view (rebuild s l thr now) = (\<lambda>w. case w of
       Ready \<Rightarrow> image_mset (\<lambda>m. (core m)\<lparr>MState := StateReady\<rparr>) (ready now s)
     | Delayed \<Rightarrow> image_mset (\<lambda>m. (core m)\<lparr>MState := StateDelayed\<rparr>) (delayed now s)
     | Expiry \<Rightarrow> {#})"
    "q_name (rebuild s l thr now) = c_Name (rv_cfg s)" "q_ordering (rebuild s l thr now) = c_Ordering (rv_cfg s)"
    "q_createdAt (rebuild s l thr now) = c_CreatedAt (rv_cfg s)" "q_nextSeq (rebuild s l thr now) = rv_nextSeq s"
    "q_enqueued (rebuild s l thr now) = rv_enqueued s" "q_acked (rebuild s l thr now) = rv_acked s"
    "q_log (rebuild s l thr now) = l" "q_inflight (rebuild s l thr now) = []" "\<not> q_closed (rebuild s l thr now)"
proof -
  let ?q0 = "(newQueue (rv_cfg s) l (rv_nextSeq s) (rv_enqueued s) (rv_acked s))\<lparr>q_compactThreshold := thr\<rparr>"
  have q0: "queue_inv ?q0" "view ?q0 = (\<lambda>_. {#})" by (simp_all add: queue_inv_new)
  note a = admit_all [OF q0(1), of now "rv_live s", unfolded Let_def]
  show "queue_inv (rebuild s l thr now)" using a by (simp add: rebuild_def)
  show "view (rebuild s l thr now) = (\<lambda>w. case w of
       Ready \<Rightarrow> image_mset (\<lambda>m. (core m)\<lparr>MState := StateReady\<rparr>) (ready now s)
     | Delayed \<Rightarrow> image_mset (\<lambda>m. (core m)\<lparr>MState := StateDelayed\<rparr>) (delayed now s)
     | Expiry \<Rightarrow> {#})"
    using a unfolding rebuild_def a_admit_all q0(2) ready_def delayed_def
    by (auto simp: fun_eq_iff split: which.splits)
  show "q_name (rebuild s l thr now) = c_Name (rv_cfg s)" "q_ordering (rebuild s l thr now) = c_Ordering (rv_cfg s)"
    "q_createdAt (rebuild s l thr now) = c_CreatedAt (rv_cfg s)" "q_nextSeq (rebuild s l thr now) = rv_nextSeq s"
    "q_enqueued (rebuild s l thr now) = rv_enqueued s" "q_acked (rebuild s l thr now) = rv_acked s"
    "q_log (rebuild s l thr now) = l" "q_inflight (rebuild s l thr now) = []" "\<not> q_closed (rebuild s l thr now)"
    using a by (simp_all add: rebuild_def same_core_def newQueue_def)
qed

lemma image_persisted_live:
  assumes "\<And>m. m \<in># M \<Longrightarrow> persisted m = m"
  shows "image_mset persisted (all_of (\<lambda>w. case w of
       Ready \<Rightarrow> image_mset (\<lambda>m. (core m)\<lparr>MState := StateReady\<rparr>) {#m \<in># M. AvailableAt m \<le> now#}
     | Delayed \<Rightarrow> image_mset (\<lambda>m. (core m)\<lparr>MState := StateDelayed\<rparr>) {#m \<in># M. now < AvailableAt m#}
     | Expiry \<Rightarrow> {#})) = M"
proof -
  have "{#m \<in># M. AvailableAt m \<le> now#} + {#m \<in># M. now < AvailableAt m#} = M"
    using multiset_partition [of M "\<lambda>m. AvailableAt m \<le> now"] by (simp add: not_le)
  then have "image_mset persisted {#m \<in># M. AvailableAt m \<le> now#} + image_mset persisted {#m \<in># M. now < AvailableAt m#}
      = image_mset persisted M" by (metis image_mset_union)
  also have "\<dots> = M" using assms by (metis (mono_tags) image_mset_cong multiset.map_ident)
  finally show ?thesis by (simp add: all_of_def multiset.map_comp comp_def)
qed

lemma matches_rebuild:
  assumes "matches s q"
  shows "matches s (rebuild s l thr now)" "image_mset persisted (all_live (rebuild s l thr now)) = image_mset persisted (all_live q)"
proof -
  have P: "mset (map snd (rv_live s)) = image_mset persisted (all_live q)" using assms by (simp add: matches_def)
  have live: "image_mset persisted (all_live (rebuild s l thr now)) = mset (map snd (rv_live s))"
    unfolding all_live_of rebuild_effect(2)
  proof (rule image_persisted_live)
    show "persisted m = m" if "m \<in># mset (map snd (rv_live s))" for m using that unfolding P by auto
  qed
  then show "image_mset persisted (all_live (rebuild s l thr now)) = image_mset persisted (all_live q)" using P by simp
  show "matches s (rebuild s l thr now)"
    using assms live by (simp add: matches_def rebuild_effect)
qed


lemma compact_body_parse:
  assumes "parse_json b = Some j" "json_depth j < maxNestingDepth"
  shows "\<exists>j'. parse_json (compact_body b) = Some j' \<and> json_depth j' < maxNestingDepth"
proof -
  have wf: "wf_json j" using assms(1)
    by (auto simp: parse_json_def split: option.splits if_splits dest: parse_value_wf simp del: parse_value.simps)
  have "compact_body b = json_print (json_escape j)" using assms(1) by (simp add: compact_body_def json_compact_def)
  then show ?thesis using parse_json_print [OF wf_json_escape [OF wf]] assms(2) by simp
qed

lemma rec_ok_persisted:
  assumes "rec_ok (REnqueue (enqueue_record m))"
  shows "rec_ok (REnqueue (enqueue_record (persisted m)))"
proof -
  obtain j where "parse_json (Body m) = Some j" "json_depth j < maxNestingDepth"
    using assms by (auto simp: enqueue_record_def split: option.splits)
  from compact_body_parse [OF this] assms show ?thesis
    by (auto simp: enqueue_record_def persisted_def new_message_def)
qed

lemma sound_rebuild:
  assumes s: "matches s q" and snd: "sound q"
  shows "sound (rebuild s l thr now)"
proof -
  let ?q = "rebuild s l thr now"
  have P: "mset (map snd (rv_live s)) = image_mset persisted (all_live q)" using s by (simp add: matches_def)
  have live: "\<exists>m0 \<in># all_live q. enqueue_record m = enqueue_record (persisted m0) \<and> Seq m = Seq m0" if "m \<in># all_live ?q" for m
  proof -
    from that obtain p st where "p \<in># mset (map snd (rv_live s))" "m = (core p)\<lparr>MState := st\<rparr>"
      unfolding all_live_of rebuild_effect(2) by (auto simp: all_of_def)
    then show ?thesis unfolding P by auto
  qed
  have "seq_ok ?q" using snd s live by (fastforce simp: sound_def seq_ok_def rebuild_effect matches_def)
  moreover have "live_ok ?q" using snd s live rec_ok_persisted
    unfolding sound_def live_ok_def by (fastforce simp: rebuild_effect matches_def)
  ultimately show ?thesis by (simp add: sound_def rebuild_effect)
qed

lemma reopened_path [simp]: "l_path (reopened name f rs) = name @ logExt"
  by (simp add: reopened_def)

lemma torn_tail_nonempty: "torn_tail tail \<Longrightarrow> tail \<noteq> []"
  by (auto simp: torn_tail_def torn_prefix_def torn_zeros_def torn_region_def Let_def size_defs dest: arg_cong [where f = length])

lemma only_names_cut:
  assumes "disk_ok d" "map_of (dents d) p = Some (DFile f)" "p \<in> P"
  shows "only_names P d (cut f n d)"
proof -
  have "disk_ok (cut f n d)" using assms(1) disk_ok_cong [of "cut f n d" d] by (simp add: cut_def Let_def)
  moreover have "g \<noteq> f" if "m \<notin> P" "map_of (dents d) m = Some (DFile g)" for m g
    using that assms unfolding disk_ok_def by metis
  ultimately show ?thesis by (auto simp: only_names_def cut_def Let_def)
qed

lemma openQueue_restores:
  assumes d: "reliable d" "disk_ok d" and f: "file_is name f (log_image rs @ tail) d"
    and tail: "torn_tail tail \<or> tail = [] \<and> synced d f = log_image rs"
    and rec: "recovers rs q" "list_all encodable rs" "q_name q = name" and snd: "sound q"
  obtains q2 d2 where "openQueue name thr now d = (Inr q2, d2)" "sound q2" "recovers rs q2" "log_holds rs (q_log q2) d2"
    "map_of (synced_dents d) (name @ logExt) = map_of (dents d) (name @ logExt) \<Longrightarrow> file_holds name rs (q_log q2) d2"
    "only_names {name @ logExt} d d2" "reliable d2"
    "image_mset persisted (all_live q2) = image_mset persisted (all_live q)"
    "view q2 Expiry = {#}" "\<And>m. m \<in># view q2 Ready \<Longrightarrow> AvailableAt m \<le> now" "\<And>m. m \<in># view q2 Delayed \<Longrightarrow> now < AvailableAt m"
    "q_nextSeq q2 = q_nextSeq q" "q_enqueued q2 = q_enqueued q" "q_acked q2 = q_acked q" "q_ordering q2 = q_ordering q"
    "q_name q2 = q_name q" "\<not> q_closed q2"
proof -
  obtain s where s: "replay apply_record (map canon rs) recovery_start = Inr s" "matches s q"
    using rec(1) by (auto simp: recovers_def)
  have wf: "log_wf rs" using rec by (simp add: log_wf_def recovers_def)
  obtain d2 where op: "Open name apply_record recovery_start d = (Inr (reopened name f rs, s), d2)"
      and lh: "log_holds rs (reopened name f rs) d2"
      and holds: "map_of (synced_dents d) (name @ logExt) = map_of (dents d) (name @ logExt) \<Longrightarrow>
        file_holds name rs (reopened name f rs) d2"
      and fr: "only_names {name @ logExt} d d2" "reliable d2"
  proof (cases "tail = []")
    case True
    then have "log_holds rs (reopened name f rs) d"
      using f tail wf torn_tail_nonempty by (auto simp: log_holds_def reopened_def file_is_def log_wf_def lookup_file_def)
    moreover have "file_is name f (log_image rs) d" using f True by simp
    ultimately show ?thesis
      using that [of d] Open_intact [OF d(1) _ wf, of name f apply_record recovery_start] s(1) d True tail torn_tail_nonempty
      by (auto simp: file_holds_def)
  next
    case False
    then have "torn_tail tail" using tail by simp
    moreover have "disk_ok (cut f (length (log_image rs)) d)"
      using d(2) disk_ok_cong [of "cut f (length (log_image rs)) d" d] by (simp add: cut_def Let_def)
    moreover have "only_names {name @ logExt} d (cut f (length (log_image rs)) d)"
      by (rule only_names_cut [OF d(2)]) (use f in \<open>simp_all add: file_is_def\<close>)
    ultimately show ?thesis
      using that Open_torn [OF d(1) f wf, of apply_record recovery_start] s(1) reopened_holds [OF f wf] d(1)
      by (simp add: file_holds_def) (simp add: cut_def Let_def)
  qed
  let ?q = "rebuild s (reopened name f rs) thr now"
  have oq: "openQueue name thr now d = (Inr ?q, d2)"
    using op s(2) rec(3) by (simp add: openQueue_def matches_def)
  have recq: "recovers rs ?q" using rec(1) s matches_rebuild(1) [OF s(2)] by (auto simp: recovers_def)
  show ?thesis
    by (rule that [OF oq sound_rebuild [OF s(2) snd] recq _ _ fr matches_rebuild(2) [OF s(2)]])
      (use lh holds s(2) in \<open>auto simp: rebuild_effect matches_def\<close>)
qed

end
