(* ===== verification/Queue_Life.thy ===== *)
theory Queue_Life
  imports Queue_Restart
begin

text \<open>
  The life of a queue: creation, a crash at any moment, recovery, shutdown. A power failure keeps the
  synced directory entries and file contents, and may leave behind the last frame the beginnings of an
  append that was never acknowledged.
\<close>

section \<open>Names\<close>

lemma name_char_plain: "name_char c \<Longrightarrow> plain_char c"
proof -
  assume n: "name_char c"
  then have "c \<notin> {dquote, bslash, CHR ''<'', CHR ''>'', CHR 0x26, CHR 0xE2}"
    by (auto simp: name_char_def is_alnum_def dquote_def bslash_def Let_def)
  moreover have "32 \<le> code c \<and> code c < 127"
    using n by (auto simp: name_char_def is_alnum_def code_def Let_def)
  ultimately show ?thesis by (simp add: plain_char_def html_plain_def)
qed

lemma ValidateName_chars:
  assumes "ValidateName n = None"
  shows "n \<noteq> []" "length n \<le> 64" "list_all name_char n"
  using assms by (cases n; auto simp: ValidateName_def name_char_def split: if_splits)+

lemma ValidateName_plain: "ValidateName n = None \<Longrightarrow> plain n"
  using ValidateName_chars(3) name_char_plain by (auto simp: plain_def list_all_iff)

section \<open>Creation\<close>

lemma createQueue_durable:
  assumes "createQueue cfg thr d = (Inr q, d')" "disk_ok d" "int64 (toMillis (c_CreatedAt cfg))"
  shows "sound q" "durable file_holds q d'" "view q = (\<lambda>_. {#})" "q_name q = c_Name cfg" "q_ordering q = c_Ordering cfg"
    "q_nextSeq q = 1" "q_enqueued q = 0" "q_acked q = 0" "\<not> q_closed q" "map_of (dents d) (c_Name cfg @ logExt) = None"
proof -
  let ?h = "\<lparr>h_Name = c_Name cfg, h_Ordering = ordering_string (c_Ordering cfg),
             h_CreatedAt = toMillis (c_CreatedAt cfg), h_NextSeq = 1, h_TotalEnqueued = 0, h_TotalAcked = 0\<rparr>"
  obtain l where n: "ValidateName (c_Name cfg) = None" and cr: "Create (c_Name cfg) ?h d = (Inr l, d')"
      and q: "q = start ((newQueue cfg l 1 0 0)\<lparr>q_compactThreshold := thr\<rparr>)"
    using assms(1) by (auto simp: createQueue_def Let_def split: option.splits sum.splits prod.splits)
  note h = Create_holds [OF cr]
  have p: "plain (c_Name cfg)" by (rule ValidateName_plain [OF n])
  have f: "q_name q = c_Name cfg" "q_ordering q = c_Ordering cfg" "q_createdAt q = c_CreatedAt cfg"
      "q_nextSeq q = 1" "q_enqueued q = 0" "q_acked q = 0" "\<not> q_closed q" "q_log q = l"
    by (simp_all add: q newQueue_def)
  have v: "view q = (\<lambda>_. {#})" "queue_inv q" using queue_inv_new [of cfg l 1 0 0] by (simp_all add: q)
  show "view q = (\<lambda>_. {#})" "q_name q = c_Name cfg" "q_ordering q = c_Ordering cfg"
    "q_nextSeq q = 1" "q_enqueued q = 0" "q_acked q = 0" "\<not> q_closed q" by (fact v f)+
  show "map_of (dents d) (c_Name cfg @ logExt) = None" using h by simp
  have live: "all_live q = {#}" by (simp add: all_live_def v)
  show "sound q" using v p assms(3) by (simp add: sound_def seq_ok_def live_ok_def live f)
  have "recovers [RHeader ?h] q"
    using p assms(3) plain_ordering [of "c_Ordering cfg"]
    by (simp add: recovers_def matches_def f live recovery_start_def)
  moreover have "file_holds (c_Name cfg) [RHeader ?h] l d'"
    using h only_names_ok [OF only_names_Create [OF cr assms(2)]] by (simp add: file_holds_def)
  ultimately show "durable file_holds q d'" by (auto simp: durable_def f)
qed

section \<open>Crash and recovery\<close>

definition crashed :: "disk \<Rightarrow> string \<Rightarrow> bytes \<Rightarrow> disk \<Rightarrow> bool" where
  "crashed d n tail d' \<longleftrightarrow> reliable d' \<and> disk_ok d' \<and> map_of (synced_dents d') (n @ logExt) = map_of (dents d') (n @ logExt)
     \<and> (case map_of (synced_dents d) (n @ logExt) of Some (DFile f) \<Rightarrow>
          map_of (dents d') (n @ logExt) = Some (DFile f) \<and> content d' f = synced d f @ tail \<and> synced d' f = content d' f
        | _ \<Rightarrow> map_of (dents d') (n @ logExt) = None)"

lemma durable_entry:
  assumes "durable file_holds q d"
  obtains rs f where "recovers rs q" "list_all encodable rs" "map_of (dents d) (q_name q @ logExt) = Some (DFile f)"
    "map_of (synced_dents d) (q_name q @ logExt) = Some (DFile f)" "content d f = log_image rs" "synced d f = log_image rs" "disk_ok d"
  using assms by (auto simp: durable_def file_holds_def log_holds_def lookup_file_Some split: option.splits)

text \<open>What a process that starts now finds: the file of the queue, complete and synced.\<close>

definition stored :: "'l Queue \<Rightarrow> disk \<Rightarrow> bool" where
  "stored q d \<longleftrightarrow> disk_ok d \<and> (\<exists>rs f. recovers rs q \<and> list_all encodable rs
     \<and> map_of (dents d) (q_name q @ logExt) = Some (DFile f) \<and> content d f = log_image rs \<and> synced d f = log_image rs)"

definition restored :: "Time \<Rightarrow> 'l Queue \<Rightarrow> Log Queue \<Rightarrow> bool" where
  "restored now q q2 \<longleftrightarrow> sound q2 \<and> image_mset persisted (all_live q2) = image_mset persisted (all_live q)
     \<and> view q2 Expiry = {#} \<and> (\<forall>m \<in># view q2 Ready. AvailableAt m \<le> now) \<and> (\<forall>m \<in># view q2 Delayed. now < AvailableAt m)
     \<and> q_nextSeq q2 = q_nextSeq q \<and> q_enqueued q2 = q_enqueued q \<and> q_acked q2 = q_acked q \<and> q_ordering q2 = q_ordering q
     \<and> q_name q2 = q_name q \<and> \<not> q_closed q2"

lemma crash_recovery:
  assumes snd: "sound q" and dur: "durable file_holds q d" and cr: "crashed d (q_name q) tail d'"
    and tail: "tail = [] \<or> torn_tail tail"
  obtains q2 d2 where "openQueue (q_name q) thr now d' = (Inr q2, d2)" "restored now q q2" "durable file_holds q2 d2"
    "only_names {q_name q @ logExt} d' d2" "reliable d2"
proof -
  let ?n = "q_name q @ logExt"
  obtain rs f where rec: "recovers rs q" "list_all encodable rs" and f: "map_of (synced_dents d) ?n = Some (DFile f)"
      "synced d f = log_image rs" by (rule durable_entry [OF dur])
  have d': "reliable d'" "disk_ok d'" "file_is (q_name q) f (log_image rs @ tail) d'"
      "synced d' f = log_image rs @ tail" "map_of (synced_dents d') ?n = map_of (dents d') ?n"
    using cr f by (auto simp: crashed_def file_is_def)
  have t: "torn_tail tail \<or> tail = [] \<and> synced d' f = log_image rs" using tail d' by auto
  show ?thesis
    by (rule openQueue_restores [OF d'(1-3) t rec refl snd, of thr now])
      (rule that, use d'(5) in \<open>auto simp: durable_def restored_def\<close>)
qed

lemma clean_restart:
  assumes snd: "sound q" and st: "stored q d" and rel: "reliable d"
  obtains q2 d2 where "openQueue (q_name q) thr now d = (Inr q2, d2)" "restored now q q2"
proof -
  obtain rs f where rec: "recovers rs q" "list_all encodable rs" and f: "map_of (dents d) (q_name q @ logExt) = Some (DFile f)"
      "content d f = log_image rs" "synced d f = log_image rs" and ok: "disk_ok d" using st by (auto simp: stored_def)
  have fi: "file_is (q_name q) f (log_image rs @ []) d" using f by (simp add: file_is_def)
  show ?thesis
    by (rule openQueue_restores [OF rel ok fi _ rec refl snd, of thr now])
      (use f(3) in simp, rule that, auto simp: restored_def)
qed

section \<open>Shutdown\<close>

lemma Close_begin_fields [simp]: "view (Close_begin q) = view q" "queue_inv (Close_begin q) = queue_inv q" "same_core q (Close_begin q)"
  "q_compactThreshold (Close_begin q) = q_compactThreshold q" "q_closed (Close_begin q)"
  by (simp_all add: Close_begin_def same_core_def Broadcast_def)

lemma same_core_trans: "same_core q q1 \<Longrightarrow> same_core q1 q2 \<Longrightarrow> same_core q q2"
  by (simp add: same_core_def)

lemma run_due_effect:
  assumes "queue_inv q"
  shows "\<exists>q'. run_due ts q = Some q' \<and> queue_inv q' \<and> same_core q q' \<and> q_closed q' = q_closed q
    \<and> image_mset persisted (all_live q') = image_mset persisted (all_live q)
    \<and> image_mset enqueue_record (all_live q') = image_mset enqueue_record (all_live q)"
  using assms
proof (induction ts arbitrary: q)
  case Nil
  then show ?case by (simp add: same_core_def)
next
  case (Cons t ts)
  obtain q1 where q1: "processDue t q = Some (next_due q1, q1)" "queue_inv q1" "view q1 = a_expire t (a_promote t (view q))" "same_frame q q1"
    by (rule processDue_effect [OF Cons.prems])
  from Cons.IH [OF q1(2)] q1 show ?case
    by (auto simp: all_live_of image_due same_frame_def same_core_def)
qed

lemma file_close_stored:
  assumes rec: "recovers rs' q" "list_all encodable rs'" and f: "map_of (dents d) (q_name q @ logExt) = Some (DFile g)"
      "content d g = log_image rs'" "synced d g = log_image rs'" and ok: "disk_ok d" and cl: "Log_Close l d = (err, l', d')"
    and nm: "q_name q' = q_name q" and rc: "recovers rs' q'"
  shows "stored q' d'"
proof -
  have e: "dents d' = dents d \<and> content d' = content d \<and> next_ino d' = next_ino d \<and> synced d' g = content d g"
    using cl f(2,3) by (auto simp: Log_Close_def FSync_def FClose_def split: prod.splits option.splits if_splits dest!: next_fault_effect)
  then have "disk_ok d'" using ok disk_ok_cong [of d' d] by simp
  then show ?thesis using rec f e nm rc by (auto simp: stored_def)
qed

lemma Compact_file:
  assumes cm: "Compact hdr live l d = (err, l', d')" and ok: "disk_ok d" and l: "log_holds rs l d" "l_path l = h_Name hdr @ logExt"
  obtains rs' g where "rs' = rs \<or> rs' = compacted hdr live" "list_all encodable rs'"
    "map_of (dents d') (l_path l) = Some (DFile g)" "content d' g = log_image rs'" "synced d' g = log_image rs'"
proof (cases "list_all encodable (compacted hdr live)")
  case True
  have "l_path l' = l_path l"
    using cm by (auto simp: Compact_def commit_replacement_def Let_def split: option.splits sum.splits prod.splits)
  then show ?thesis using that [of rs] that [of "compacted hdr live"] Compact_cases [OF assms] True l
    by (auto simp: log_holds_def log_stale_def log_replaced_def lookup_file_Some split: option.splits)
next
  case False
  then obtain e where "build_replacement hdr live = Inl e"
    using build_replacement_Inr [of hdr live] by (cases "build_replacement hdr live") auto
  moreover obtain res d4 where w: "write_replacement hdr live d = (res, d4)" by force
  ultimately have "\<exists>e. res = Inl e"
    by (cases "OpenTrunc (h_Name hdr @ tmpExt) d"; cases "fst (OpenTrunc (h_Name hdr @ tmpExt) d)") (simp_all add: write_replacement_def Let_def, metis+)
  then have "d' = d4" using cm w l by (auto simp: Compact_def log_holds_def split: option.splits)
  then have "log_holds rs l d'"
    using log_holds_only_name [OF write_replacement_only [OF w ok] l(1)] l(2) by simp
  then show ?thesis using that [of rs] by (auto simp: log_holds_def lookup_file_Some split: option.splits)
qed

lemma Close_finish_stored:
  assumes snd: "sound q" and dur: "durable file_holds q d" and cl: "Close_finish storage_log q d = (err, q', d')"
  shows "stored q' d' \<and> (\<exists>l. q' = q\<lparr>q_log := l\<rparr>)"
proof -
  obtain q1 d1 where q1: "(if q_compactThreshold q > 0 then snd (compactLocked storage_log q d) else (q, d)) = (q1, d1)" by force
  obtain cerr l2 where lc: "Log_Close (q_log q1) d1 = (cerr, l2, d')" and q': "q' = q1\<lparr>q_log := l2\<rparr>"
    using cl unfolding Close_finish_def q1 by (auto simp: storage_log_def split: prod.splits)
  obtain rs f where rec: "recovers rs q" "list_all encodable rs" and f: "map_of (dents d) (q_name q @ logExt) = Some (DFile f)"
      "content d f = log_image rs" "synced d f = log_image rs" and ok: "disk_ok d" by (rule durable_entry [OF dur])
  show ?thesis
  proof (cases "q_compactThreshold q > 0")
    case False
    then have "q1 = q" "d1 = d" using q1 by auto
    then show ?thesis using file_close_stored [OF rec f ok, of "q_log q" cerr l2 d' q'] lc q' rec by auto
  next
    case True
    obtain err1 l1 where cm: "Compact (compact_header q) (live_records q) (q_log q) d = (err1, l1, d1)" and q1': "q1 = q\<lparr>q_log := l1\<rparr>"
      using q1 True by (auto simp: compactLocked_def storage_log_def split: prod.splits)
    have nm: "h_Name (compact_header q) = q_name q" by (simp add: compact_header_def)
    obtain rs0 where h0: "file_holds (q_name q) rs0 (q_log q) d" and rec0: "recovers rs0 q" using dur by (auto simp: durable_def)
    then have lp: "l_path (q_log q) = h_Name (compact_header q) @ logExt" "log_holds rs0 (q_log q) d" by (simp_all add: file_holds_def nm)
    have recc: "recovers (compacted (compact_header q) (live_records q)) q"
      using snd rec(1) recovers_compacted by (auto simp: sound_def queue_inv_def)
    let ?rc = "compacted (compact_header q) (live_records q)"
    obtain rs' g where rg: "rs' = rs0 \<or> rs' = ?rc" "list_all encodable rs'" "map_of (dents d1) (l_path (q_log q)) = Some (DFile g)"
        "content d1 g = log_image rs'" "synced d1 g = log_image rs'"
      by (rule Compact_file [OF cm ok lp(2,1)])
    then have "recovers rs' q" using recc rec0 by auto
    from this rg(2-) lp(1) nm have "recovers rs' q" "list_all encodable rs'" "map_of (dents d1) (q_name q @ logExt) = Some (DFile g)"
        "content d1 g = log_image rs'" "synced d1 g = log_image rs'" by simp_all
    from file_close_stored [OF this, of l1 cerr l2 d' q'] Compact_disk_ok [OF cm ok] lc q' q1' this(1)
    show ?thesis by auto
  qed
qed

lemma Queue_Close_stored:
  assumes snd: "sound q" and dur: "durable file_holds q d" and op: "\<not> q_closed q"
  obtains err q' d' where "Queue_Close storage_log ts q d = Some (err, q', d')" "sound q'" "stored q' d'"
    "image_mset persisted (all_live q') = image_mset persisted (all_live q)" "q_name q' = q_name q" "q_ordering q' = q_ordering q"
    "q_nextSeq q' = q_nextSeq q" "q_enqueued q' = q_enqueued q" "q_acked q' = q_acked q" "q_closed q'"
proof -
  have inv: "queue_inv (Close_begin q)" using snd by (simp add: sound_def)
  have live: "all_live (Close_begin q) = all_live q" by (simp add: all_live_of)
  from run_due_effect [OF inv, of ts, unfolded live] obtain q1 where q1: "run_due ts (Close_begin q) = Some q1" "queue_inv q1"
      "same_core (Close_begin q) q1" "q_closed q1" "image_mset persisted (all_live q1) = image_mset persisted (all_live q)"
      "image_mset enqueue_record (all_live q1) = image_mset enqueue_record (all_live q)"
    by auto
  have core: "same_core q q1" using same_core_trans [OF Close_begin_fields(3) q1(3)] .
  have d1: "sound q1" "durable file_holds q1 d"
    using file_log.quiet_durable [OF snd dur q1(2) core q1(5,6)] by auto
  obtain err q' d' where f: "Close_finish storage_log q1 d = (err, q', d')" by (metis prod_cases3)
  from Close_finish_stored [OF d1 f] obtain l where st: "stored q' d'" and q': "q' = q1\<lparr>q_log := l\<rparr>" by auto
  show ?thesis
    by (rule that [of err q' d']) (use op q1 f st q' d1 core in \<open>auto simp: Queue_Close_def same_core_def\<close>)
qed

section \<open>Counting\<close>

text \<open>The counters of the statistics: everything enqueued is acknowledged or live (modulo \<open>2^64\<close>).\<close>

definition balanced :: "'l Queue \<Rightarrow> bool" where
  "balanced q \<longleftrightarrow> q_enqueued q = q_acked q + of_nat (size (all_live q))"

lemma size_all_live: "queue_inv q \<Longrightarrow> size (all_live q) = liveCount q"
proof -
  assume "queue_inv q"
  then have "length (addrs Expiry q) = length (q_inflight q)"
    unfolding queue_inv_def infl_inv_def by (metis length_map size_mset)
  then show ?thesis by (simp add: all_live_def liveCount_def heap_Len_def q_heap_fold)
qed

lemma size_remove: "m \<in># M \<Longrightarrow> size M = Suc (size (M - {#m#}))"
  by (metis insert_DiffM size_add_mset)

lemma balanced_cong:
  assumes "image_mset f (all_live q') = image_mset f (all_live q)" "q_enqueued q' = q_enqueued q" "q_acked q' = q_acked q"
  shows "balanced q' = balanced q"
proof -
  have "size (all_live q') = size (all_live q)" using arg_cong [OF assms(1), of size] by simp
  then show ?thesis using assms by (simp add: balanced_def)
qed

lemma balanced_log [simp]: "balanced (q\<lparr>q_log := l\<rparr>) = balanced q"
  by (simp add: balanced_def)

lemma Enqueue_balanced:
  assumes "queue_inv q" "balanced q" "Queue_Enqueue ls body prio delay now rnd q w = (res, q', w')"
  shows "balanced q'"
proof (cases res)
  case (Inl e)
  then show ?thesis using Enqueue_refused assms by fastforce
next
  case (Inr i)
  then have "size (all_live q') = size (all_live q) + 1"
    using Enqueue_effect(2) [OF assms(1), of ls body prio delay now rnd w i q' w'] assms(3)
    by (simp add: all_live_def all_live_file)
  then show ?thesis using Enqueue_effect(4,5) [OF assms(1), of ls body prio delay now rnd w i q' w'] assms Inr
    by (simp add: balanced_def)
qed

lemma Ack_balanced:
  assumes "queue_inv q" "balanced q" "Queue_Ack ls r q w = Some (err, q', w')"
  shows "balanced q'"
proof (cases err)
  case (Some e)
  then show ?thesis using Ack_refused assms by fastforce
next
  case None
  then obtain m where m: "m \<in># view q Expiry" "view q' = (view q)(Expiry := view q Expiry - {#m#})"
      "q_acked q' = q_acked q + 1" "q_enqueued q' = q_enqueued q"
    using Ack_effect [OF assms(1), of ls r w q' w'] assms(3) by auto
  then have "all_live q' = all_live q - {#m#}" using all_live_minus [of m "view q"] by (simp add: all_live_def)
  moreover have "m \<in># all_live q" using m by (simp add: live_expiry)
  then have "size (all_live q) = Suc (size (all_live q - {#m#}))" by (rule size_remove)
  ultimately show ?thesis using assms(2) m by (simp add: balanced_def)
qed

lemma Nack_balanced:
  assumes "queue_inv q" "balanced q" "Queue_Nack ls r delay now q w = Some (err, q', w')"
  shows "balanced q'"
proof (cases err)
  case (Some e)
  then show ?thesis using Nack_refused assms by fastforce
next
  case None
  then obtain m where m: "m \<in># view q Expiry"
      "view q' = a_file delay (a_release (now + delay) m) ((view q)(Expiry := view q Expiry - {#m#}))"
      "q_acked q' = q_acked q" "q_enqueued q' = q_enqueued q"
    using Nack_effect [OF assms(1), of ls r delay now w q' w'] assms(3) by auto
  then have "size (all_live q') = size (all_live q - {#m#}) + 1"
    using all_live_minus [of m "view q"] by (simp add: all_live_def all_live_file)
  moreover have "m \<in># all_live q" using m by (simp add: live_expiry)
  then have "size (all_live q) = Suc (size (all_live q - {#m#}))" by (rule size_remove)
  ultimately show ?thesis using assms(2) m by (simp add: balanced_def)
qed

end
