(* ===== verification/Queue_Run.thy ===== *)
theory Queue_Run
  imports Queue_Life
begin

text \<open>
  The queue against an abstract specification. The specification of a queue is three multisets of
  messages (ready, delayed, in flight) and the counters; it knows nothing of heaps, positions, maps,
  locks or logs. Every operation of the code refines one of its steps, and so does every sequence of
  operations; along such a sequence the log stays a faithful record of the queue.
\<close>

section \<open>Sequences of operations\<close>

datatype op =
    OEnqueue RawMessage int Duration Time "bytes option"
  | OReceive Duration Time "bytes option"
  | OAck string
  | ONack string Duration Time
  | ODue Time

datatype outcome =
    Enqueued "string result"
  | Received "Delivery option result"
  | Settled "goerror option"
  | NextDue "Time option"

text \<open>\<open>OReceive\<close> is \<open>Receive\<close> with a wait of zero, which never parks.\<close>

fun execute :: "('l, 'w) logStore \<Rightarrow> op \<Rightarrow> 'l Queue \<Rightarrow> 'w \<Rightarrow> (outcome \<times> 'l Queue \<times> 'w) option" where
  "execute ls (OEnqueue body prio delay now rnd) q w =
     (case Queue_Enqueue ls body prio delay now rnd q w of (res, q', w') \<Rightarrow> Some (Enqueued res, q', w'))"
| "execute ls (OReceive vis now rnd) q w =
     (case receive_round 0 vis 0 zero_time None now now rnd q of
        Some (Return res, q') \<Rightarrow> Some (Received res, q', w) | _ \<Rightarrow> None)"
| "execute ls (OAck r) q w = map_option (\<lambda>(err, q', w'). (Settled err, q', w')) (Queue_Ack ls r q w)"
| "execute ls (ONack r delay now) q w = map_option (\<lambda>(err, q', w'). (Settled err, q', w')) (Queue_Nack ls r delay now q w)"
| "execute ls (ODue now) q w = map_option (\<lambda>(t, q'). (NextDue t, q', w)) (processDue now q)"

text \<open>The random identifiers of an operation have not been drawn before.\<close>

fun fresh :: "op \<Rightarrow> 'l Queue \<Rightarrow> bool" where
  "fresh (OEnqueue body prio delay now rnd) q \<longleftrightarrow>
     (case newID rnd of Inl _ \<Rightarrow> True | Inr i \<Rightarrow> i \<notin> ID ` set_mset (all_live q))"
| "fresh (OReceive vis now rnd) q \<longleftrightarrow>
     (case newReceipt rnd of Inl _ \<Rightarrow> True | Inr r \<Rightarrow> map_of (q_inflight q) r = None)"
| "fresh _ q \<longleftrightarrow> True"

section \<open>The specification\<close>

record spec =
  sp_msgs :: "which \<Rightarrow> Message multiset"
  sp_nextSeq :: "64 word"
  sp_enqueued :: "64 word"
  sp_acked :: "64 word"
  sp_closed :: bool

definition abs_queue :: "'l Queue \<Rightarrow> spec" where
  "abs_queue q = \<lparr>sp_msgs = view q, sp_nextSeq = q_nextSeq q, sp_enqueued = q_enqueued q, sp_acked = q_acked q,
     sp_closed = q_closed q\<rparr>"

text \<open>\<open>E\<close> are the errors the log may report at this moment: with a healthy log it is empty, and the
  outcome of every operation is determined but for the choice between equally urgent messages.\<close>

inductive spec_step :: "goerror set \<Rightarrow> Ordering \<Rightarrow> op \<Rightarrow> outcome \<Rightarrow> spec \<Rightarrow> spec \<Rightarrow> bool"
  for E odr where
  enqueue: "spec_step E odr (OEnqueue body prio delay now rnd) (Enqueued (Inr i)) A
      (A\<lparr>sp_msgs := a_file delay (new_message i (sp_nextSeq A) prio body now (now + delay)) (sp_msgs A),
         sp_nextSeq := sp_nextSeq A + 1, sp_enqueued := sp_enqueued A + 1\<rparr>)"
  if "body \<noteq> []" "0 \<le> delay" "newID rnd = Inr i" "\<not> sp_closed A"
| enqueue_refused: "spec_step E odr (OEnqueue body prio delay now rnd) (Enqueued (Inl e)) A A"
  if "if body = [] then e = ErrEmptyBody else if delay < 0 then e = errNegativeDelay
      else if newID rnd = Inl e then True else if sp_closed A then e = ErrQueueDeleted else e \<in> E"
| deliver: "spec_step E odr (OReceive vis now rnd) (Received (Inr (Some (delivery (a_deliver r (now + vis) m))))) A
      (A\<lparr>sp_msgs := (sp_msgs A)(Ready := sp_msgs A Ready - {#m#},
           Expiry := add_mset (a_deliver r (now + vis) m) (sp_msgs A Expiry))\<rparr>)"
  if "m \<in># sp_msgs A Ready" "\<And>m'. m' \<in># sp_msgs A Ready \<Longrightarrow> \<not> cmp odr Ready m' m" "newReceipt rnd = Inr r" "\<not> sp_closed A"
| receive_empty: "spec_step E odr (OReceive vis now rnd) (Received (Inr None)) A A"
  if "sp_msgs A Ready = {#}" "\<not> sp_closed A"
| receive_refused: "spec_step E odr (OReceive vis now rnd) (Received (Inl e)) A A"
  if "if sp_closed A then e = ErrQueueDeleted else sp_msgs A Ready \<noteq> {#} \<and> newReceipt rnd = Inl e"
| ack: "spec_step E odr (OAck r) (Settled None) A
      (A\<lparr>sp_msgs := (sp_msgs A)(Expiry := sp_msgs A Expiry - {#m#}), sp_acked := sp_acked A + 1\<rparr>)"
  if "m \<in># sp_msgs A Expiry" "Receipt m = r" "\<not> sp_closed A"
| ack_refused: "spec_step E odr (OAck r) (Settled (Some e)) A A"
  if "if sp_closed A then e = ErrQueueDeleted
      else if \<exists>m \<in># sp_msgs A Expiry. Receipt m = r then e \<in> E else e = ErrReceiptNotFound"
| nack: "spec_step E odr (ONack r delay now) (Settled None) A
      (A\<lparr>sp_msgs := a_file delay (a_release (now + delay) m) ((sp_msgs A)(Expiry := sp_msgs A Expiry - {#m#}))\<rparr>)"
  if "m \<in># sp_msgs A Expiry" "Receipt m = r" "0 \<le> delay" "\<not> sp_closed A"
| nack_refused: "spec_step E odr (ONack r delay now) (Settled (Some e)) A A"
  if "if delay < 0 then e = errNegativeDelay else if sp_closed A then e = ErrQueueDeleted
      else if \<exists>m \<in># sp_msgs A Expiry. Receipt m = r then e \<in> E else e = ErrReceiptNotFound"
| due: "spec_step E odr (ODue now) (NextDue t) A (A\<lparr>sp_msgs := a_expire now (a_promote now (sp_msgs A))\<rparr>)"
  if "case t of None \<Rightarrow> pending (a_expire now (a_promote now (sp_msgs A))) = {}
      | Some s \<Rightarrow> s \<in> pending (a_expire now (a_promote now (sp_msgs A)))
          \<and> (\<forall>s' \<in> pending (a_expire now (a_promote now (sp_msgs A))). s \<le> s')"

definition log_errors :: "('l, 'w) logStore \<Rightarrow> 'l Queue \<Rightarrow> 'w \<Rightarrow> goerror set" where
  "log_errors ls q w = {e. \<exists>r l w'. ls_Append ls r (q_log q) w = (Some e, l, w')}"

section \<open>Refinement\<close>

lemma abs_queue_log [simp]: "abs_queue (q\<lparr>q_log := l\<rparr>) = abs_queue q"
  by (simp add: abs_queue_def)

lemma receipt_view:
  assumes "queue_inv q"
  shows "(\<exists>m \<in># view q Expiry. Receipt m = r) \<longleftrightarrow> map_of (q_inflight q) r \<noteq> None"
proof
  assume "\<exists>m \<in># view q Expiry. Receipt m = r"
  then obtain a where "a \<in> set (addrs Expiry q)" "Receipt (q_store q a) = r" by (auto simp: view_def)
  then show "map_of (q_inflight q) r \<noteq> None" using inflight_unique [OF assms] by auto
next
  assume "map_of (q_inflight q) r \<noteq> None"
  then obtain a where "map_of (q_inflight q) r = Some a" by auto
  then have "a \<in> set (addrs Expiry q)" "Receipt (q_store q a) = r" using inflight_lookup [OF assms] by auto
  then have "core (q_store q a) \<in># view q Expiry" "Receipt (core (q_store q a)) = r" by (auto simp: view_def)
  then show "\<exists>m \<in># view q Expiry. Receipt m = r" by blast
qed

lemma Enqueue_refines:
  assumes inv: "queue_inv q" and ex: "Queue_Enqueue ls body prio delay now rnd q w = (res, q', w')"
  shows "spec_step (log_errors ls q w) odr (OEnqueue body prio delay now rnd) (Enqueued res) (abs_queue q) (abs_queue q')"
proof (cases res)
  case (Inr i)
  note e = Enqueue_effect [OF inv ex [unfolded Inr]]
  have "abs_queue q' = (abs_queue q)\<lparr>sp_msgs := a_file delay (new_message i (sp_nextSeq (abs_queue q)) prio body now (now + delay)) (sp_msgs (abs_queue q)),
         sp_nextSeq := sp_nextSeq (abs_queue q) + 1, sp_enqueued := sp_enqueued (abs_queue q) + 1\<rparr>"
    using e by (simp add: abs_queue_def)
  then show ?thesis using spec_step.enqueue [of body delay rnd i "abs_queue q"] e Inr by (simp add: abs_queue_def)
next
  case (Inl e)
  obtain l where "q' = q\<lparr>q_log := l\<rparr>" using Enqueue_refused [OF ex [unfolded Inl]] by blast
  moreover have "if body = [] then e = ErrEmptyBody else if delay < 0 then e = errNegativeDelay
      else if newID rnd = Inl e then True else if sp_closed (abs_queue q) then e = ErrQueueDeleted else e \<in> log_errors ls q w"
    using ex Inl by (auto simp: Queue_Enqueue_def Let_def abs_queue_def log_errors_def split: if_splits sum.splits prod.splits option.splits)
  ultimately show ?thesis using spec_step.enqueue_refused Inl by fastforce
qed

lemma Receive_refines:
  assumes inv: "queue_inv q" and fr: "fresh (OReceive vis now rnd) q"
    and ex: "receive_round g vis 0 dl ctx now now' rnd q = Some (Return res, q')"
  shows "spec_step E (q_ordering q) (OReceive vis now rnd) (Received res) (abs_queue q) (abs_queue q')"
proof (cases "q_closed q")
  case True
  then have "res = Inl ErrQueueDeleted" "q' = q" using ex by (auto simp: receive_round_def)
  then show ?thesis using spec_step.receive_refused True by (fastforce simp: abs_queue_def)
next
  case False
  note o = False
  show ?thesis
  proof (cases "addrs Ready q = []")
    case True
    have "res = Inr None" "q' = q" using ex o unfolding receive_round_def popReady_empty [OF True] by auto
    moreover have "view q Ready = {#}" using True by (simp add: view_def)
    ultimately show ?thesis using spec_step.receive_empty o by (fastforce simp: abs_queue_def)
  next
    case False
    then have ne: "view q Ready \<noteq> {#}" by (simp add: view_def)
    show ?thesis
    proof (cases "newReceipt rnd")
      case (Inl e)
      then have "res = Inl e" "q' = q" using ex o False by (auto simp: receive_round_def popReady_def heap_Len_def q_heap_fold)
      then show ?thesis using spec_step.receive_refused Inl ne o by (fastforce simp: abs_queue_def)
    next
      case (Inr r)
      then have "map_of (q_inflight q) r = None" using fr by simp
      from popReady_effect [OF inv False Inr this] obtain q1 m where
        p: "popReady vis now rnd q = Some (Inr (Some (delivery (a_deliver r (now + vis) m))), q1)"
          "m \<in># view q Ready" "\<And>m'. m' \<in># view q Ready \<Longrightarrow> \<not> cmp (q_ordering q) Ready m' m"
          "view q1 = (view q)(Ready := view q Ready - {#m#}, Expiry := add_mset (a_deliver r (now + vis) m) (view q Expiry))"
          "q_enqueued q1 = q_enqueued q" "q_acked q1 = q_acked q" "q_nextSeq q1 = q_nextSeq q" "q_closed q1 = q_closed q" by metis
      have "res = Inr (Some (delivery (a_deliver r (now + vis) m)))" "q' = q1" using ex o p(1) by (auto simp: receive_round_def)
      moreover have "abs_queue q1 = (abs_queue q)\<lparr>sp_msgs := (sp_msgs (abs_queue q))(Ready := sp_msgs (abs_queue q) Ready - {#m#},
           Expiry := add_mset (a_deliver r (now + vis) m) (sp_msgs (abs_queue q) Expiry))\<rparr>"
        using p by (simp add: abs_queue_def)
      ultimately show ?thesis
        using spec_step.deliver [of m "abs_queue q" "q_ordering q" rnd r] p(2,3) Inr o by (simp add: abs_queue_def)
    qed
  qed
qed

lemma Ack_refines:
  assumes inv: "queue_inv q" and ex: "Queue_Ack ls r q w = Some (err, q', w')"
  shows "spec_step (log_errors ls q w) odr (OAck r) (Settled err) (abs_queue q) (abs_queue q')"
proof (cases err)
  case None
  obtain m where m: "m \<in># view q Expiry" "Receipt m = r" "view q' = (view q)(Expiry := view q Expiry - {#m#})"
      "q_acked q' = q_acked q + 1" "q_enqueued q' = q_enqueued q" "q_nextSeq q' = q_nextSeq q" "q_closed q' = q_closed q"
    using Ack_effect [OF inv ex [unfolded None]] by metis
  have c: "\<not> q_closed q" using ex None by (auto simp: Queue_Ack_def)
  have "abs_queue q' = (abs_queue q)\<lparr>sp_msgs := (sp_msgs (abs_queue q))(Expiry := sp_msgs (abs_queue q) Expiry - {#m#}),
      sp_acked := sp_acked (abs_queue q) + 1\<rparr>" using m by (simp add: abs_queue_def)
  then show ?thesis using spec_step.ack [of m "abs_queue q" r] m None c by (simp add: abs_queue_def)
next
  case (Some e)
  obtain l where "q' = q\<lparr>q_log := l\<rparr>" using Ack_refused [OF ex [unfolded Some]] by blast
  moreover have "if q_closed q then e = ErrQueueDeleted
      else if map_of (q_inflight q) r \<noteq> None then e \<in> log_errors ls q w else e = ErrReceiptNotFound"
    using ex Some by (auto simp: Queue_Ack_def Let_def log_errors_def split: if_splits prod.splits option.splits)
  ultimately show ?thesis
    using spec_step.ack_refused [of "abs_queue q" e r] Some by (simp add: receipt_view [OF inv] abs_queue_def split: if_splits)
qed

lemma Nack_refines:
  assumes inv: "queue_inv q" and ex: "Queue_Nack ls r delay now q w = Some (err, q', w')"
  shows "spec_step (log_errors ls q w) odr (ONack r delay now) (Settled err) (abs_queue q) (abs_queue q')"
proof (cases err)
  case None
  obtain m where m: "m \<in># view q Expiry" "Receipt m = r" "0 \<le> delay"
      "view q' = a_file delay (a_release (now + delay) m) ((view q)(Expiry := view q Expiry - {#m#}))"
      "q_acked q' = q_acked q" "q_enqueued q' = q_enqueued q" "q_nextSeq q' = q_nextSeq q" "q_closed q' = q_closed q"
    using Nack_effect [OF inv ex [unfolded None]] by metis
  have c: "\<not> q_closed q" using ex None by (auto simp: Queue_Nack_def split: if_splits)
  have "abs_queue q' = (abs_queue q)\<lparr>sp_msgs := a_file delay (a_release (now + delay) m)
      ((sp_msgs (abs_queue q))(Expiry := sp_msgs (abs_queue q) Expiry - {#m#}))\<rparr>" using m by (simp add: abs_queue_def)
  then show ?thesis using spec_step.nack [of m "abs_queue q" r delay] m None c by (simp add: abs_queue_def)
next
  case (Some e)
  obtain l where "q' = q\<lparr>q_log := l\<rparr>" using Nack_refused [OF ex [unfolded Some]] by blast
  moreover have "if delay < 0 then e = errNegativeDelay else if q_closed q then e = ErrQueueDeleted
      else if map_of (q_inflight q) r \<noteq> None then e \<in> log_errors ls q w else e = ErrReceiptNotFound"
    using ex Some by (auto simp: Queue_Nack_def Let_def log_errors_def split: if_splits prod.splits option.splits)
  ultimately show ?thesis
    using spec_step.nack_refused [of delay e "abs_queue q" r] Some by (simp add: receipt_view [OF inv] abs_queue_def split: if_splits)
qed

lemma processDue_refines:
  assumes inv: "queue_inv q" and ex: "processDue now q = Some (t, q')"
  shows "spec_step E odr (ODue now) (NextDue t) (abs_queue q) (abs_queue q')"
proof -
  obtain q1 where "processDue now q = Some (next_due q1, q1)" "queue_inv q1"
    "view q1 = a_expire now (a_promote now (view q))" "same_frame q q1" by (rule processDue_effect [OF inv])
  then have q': "t = next_due q'" "queue_inv q'" "view q' = a_expire now (a_promote now (view q))" "same_frame q q'" using ex by auto
  have "heaps_inv q'" using q'(2) by (simp add: queue_inv_def)
  then have "case t of None \<Rightarrow> pending (a_expire now (a_promote now (sp_msgs (abs_queue q)))) = {}
      | Some s \<Rightarrow> s \<in> pending (a_expire now (a_promote now (sp_msgs (abs_queue q))))
          \<and> (\<forall>s' \<in> pending (a_expire now (a_promote now (sp_msgs (abs_queue q)))). s \<le> s')"
    using next_due_pending [of q'] q'(1,3) by (auto simp: abs_queue_def split: option.splits)
  from spec_step.due [OF this] show ?thesis using q' by (simp add: abs_queue_def same_frame_def)
qed

lemma execute_refines:
  assumes inv: "queue_inv q" and fr: "fresh x q" and ex: "execute ls x q w = Some (out, q', w')"
  shows "spec_step (log_errors ls q w) (q_ordering q) x out (abs_queue q) (abs_queue q')"
  using assms Enqueue_refines [OF inv] Receive_refines [OF inv] Ack_refines [OF inv] Nack_refines [OF inv] processDue_refines [OF inv]
  by (cases x) (auto split: prod.splits option.splits recv.splits simp del: fresh.simps)

section \<open>No operation panics, every operation keeps the invariant\<close>

lemma Receive_poll:
  assumes inv: "queue_inv q" and fr: "fresh (OReceive vis now rnd) q"
  obtains res q' where "receive_round g vis 0 dl ctx now now' rnd q = Some (Return res, q')" "queue_inv q'"
    "q_closed q \<and> q' = q \<or> popReady vis now rnd q = Some (res, q')"
proof (cases "q_closed q \<or> addrs Ready q = []")
  case True
  then show ?thesis using that [of _ q] inv popReady_empty [of q vis now rnd] by (cases "q_closed q") (simp_all add: receive_round_def)
next
  case False
  show ?thesis
  proof (cases "newReceipt rnd")
    case (Inl e)
    then show ?thesis using that [of "Inl e" q] inv False by (auto simp: receive_round_def popReady_def heap_Len_def q_heap_fold)
  next
    case (Inr r)
    then have "map_of (q_inflight q) r = None" using fr by simp
    then obtain q1 d where "popReady vis now rnd q = Some (Inr (Some d), q1)" "queue_inv q1"
      using popReady_effect [OF inv _ Inr] False by metis
    then show ?thesis using that False by (auto simp: receive_round_def)
  qed
qed

lemma execute_total:
  assumes inv: "queue_inv q" and fr: "fresh x q"
  obtains out q' w' where "execute ls x q w = Some (out, q', w')" "queue_inv q'" "q_ordering q' = q_ordering q" "q_name q' = q_name q"
proof (cases x)
  case (OEnqueue body prio delay now rnd)
  obtain res q' w' where e: "Queue_Enqueue ls body prio delay now rnd q w = (res, q', w')" by (metis prod_cases3)
  show ?thesis
  proof (cases res)
    case (Inl err)
    then obtain l where "q' = q\<lparr>q_log := l\<rparr>" using Enqueue_refused [of ls body prio delay now rnd q w err q' w'] e by auto
    then show ?thesis using that OEnqueue e inv by simp
  next
    case (Inr i)
    then show ?thesis using that Enqueue_effect [OF inv, of ls body prio delay now rnd w i q' w'] OEnqueue e by simp
  qed
next
  case (OReceive vis now rnd)
  obtain res q' where r: "receive_round 0 vis 0 zero_time None now now rnd q = Some (Return res, q')" "queue_inv q'"
    "q_closed q \<and> q' = q \<or> popReady vis now rnd q = Some (res, q')" by (rule Receive_poll [OF inv fr [unfolded OReceive]])
  have "same_core q q'" using r(3) popReady_same [of vis now rnd q res q'] by (auto simp: same_core_def)
  then show ?thesis using that OReceive r by (simp add: same_core_def)
next
  case (OAck r)
  obtain err q' w' where e: "Queue_Ack ls r q w = Some (err, q', w')" using Ack_total [OF inv, of ls r w] by auto
  show ?thesis
  proof (cases err)
    case None
    then show ?thesis using that Ack_effect [OF inv, of ls r w q' w'] OAck e by (metis (no_types, lifting) case_prod_conv execute.simps(3) option.map(2))
  next
    case (Some x)
    then obtain l where "q' = q\<lparr>q_log := l\<rparr>" using Ack_refused [of ls r q w x q' w'] e by auto
    then show ?thesis using that OAck e inv by simp
  qed
next
  case (ONack r delay now)
  obtain err q' w' where e: "Queue_Nack ls r delay now q w = Some (err, q', w')" using Nack_total [OF inv, of ls r delay now w] by auto
  show ?thesis
  proof (cases err)
    case None
    then show ?thesis using that Nack_effect [OF inv, of ls r delay now w q' w'] ONack e by (metis (no_types, lifting) case_prod_conv execute.simps(4) option.map(2))
  next
    case (Some x)
    then obtain l where "q' = q\<lparr>q_log := l\<rparr>" using Nack_refused [of ls r delay now q w x q' w'] e by auto
    then show ?thesis using that ONack e inv by simp
  qed
next
  case (ODue now)
  obtain q' where "processDue now q = Some (next_due q', q')" "queue_inv q'" "same_frame q q'" by (rule processDue_effect [OF inv])
  then show ?thesis using that ODue by (simp add: same_frame_def)
qed

section \<open>Runs\<close>

text \<open>What an operation writes can be read back: the body is JSON that nests less than the limit of
  \<open>encoding/json\<close>, integers fit their 64 bits, and sequence numbers are not exhausted.\<close>

fun writable :: "op \<Rightarrow> 'l Queue \<Rightarrow> bool" where
  "writable (OEnqueue body prio delay now rnd) q \<longleftrightarrow> q_nextSeq q \<noteq> - 1
     \<and> (case parse_json body of None \<Rightarrow> False | Some j \<Rightarrow> json_depth j < maxNestingDepth)
     \<and> int64 prio \<and> int64 (toMillis now) \<and> int64 (toMillis (now + delay))"
| "writable (ONack r delay now) q \<longleftrightarrow> int64 (toMillis (now + delay))"
| "writable _ q \<longleftrightarrow> True"

inductive runs :: "('l, 'w) logStore \<Rightarrow> ('l \<Rightarrow> 'w \<Rightarrow> bool) \<Rightarrow> 'l Queue \<Rightarrow> 'w \<Rightarrow> (op \<times> outcome) list \<Rightarrow> 'l Queue \<Rightarrow> 'w \<Rightarrow> bool"
  for ls healthy where
  start: "runs ls healthy q w [] q w"
| step: "runs ls healthy q w xs q1 w1 \<Longrightarrow> fresh x q1 \<Longrightarrow> writable x q1 \<Longrightarrow> execute ls x q1 w1 = Some (out, q2, w2)
    \<Longrightarrow> healthy (q_log q2) w2 \<Longrightarrow> runs ls healthy q w (xs @ [(x, out)]) q2 w2"

inductive spec_runs :: "Ordering \<Rightarrow> spec \<Rightarrow> (op \<times> outcome) list \<Rightarrow> spec \<Rightarrow> bool"
  for odr where
  start: "spec_runs odr A [] A"
| step: "spec_runs odr A xs A1 \<Longrightarrow> spec_step E odr x out A1 A2 \<Longrightarrow> spec_runs odr A (xs @ [(x, out)]) A2"

inductive_cases runs_nilE: "runs ls healthy q w [] q' w'"
inductive_cases runs_snocE: "runs ls healthy q w (xs @ [(x, out)]) q' w'"

lemma runs_inv:
  assumes "runs ls healthy q w xs q' w'" "queue_inv q"
  shows "queue_inv q' \<and> q_ordering q' = q_ordering q \<and> q_name q' = q_name q"
  using assms
proof (induction rule: runs.induct)
  case (step q w xs q1 w1 x out q2 w2)
  then have inv: "queue_inv q1" by simp
  from execute_total [OF inv step.hyps(2), of ls w1] step show ?case by (metis option.inject prod.inject)
qed simp

lemma runs_refine:
  assumes "runs ls healthy q w xs q' w'" "queue_inv q"
  shows "spec_runs (q_ordering q) (abs_queue q) xs (abs_queue q')"
  using assms
proof (induction rule: runs.induct)
  case (step q w xs q1 w1 x out q2 w2)
  note i = runs_inv [OF step.hyps(1) step.prems]
  have "spec_step (log_errors ls q1 w1) (q_ordering q) x out (abs_queue q1) (abs_queue q2)"
    using execute_refines [OF _ step.hyps(2,4)] i by simp
  then show ?case using step spec_runs.step by blast
qed (rule spec_runs.start)

lemma hex_plain: "plain (EncodeToString bs)"
proof -
  have "plain_char (hextable ! n)" if "n < 16" for n
  proof -
    have "list_all plain_char hextable" by code_simp
    then show ?thesis using that by (auto simp: list_all_length hextable_def)
  qed
  moreover have "unat (drop_bit 4 b) < 16" "unat (b AND 15) < 16" for b :: byte
    using high_nibble_bound [of b] low_nibble_bound [of b] by (simp_all add: hextable_def)
  ultimately show ?thesis by (induction bs) (auto simp: EncodeToString_def hex_digits_def plain_simps)
qed

lemma newID_plain: "newID rnd = Inr i \<Longrightarrow> plain i"
proof -
  have "plain_char (CHR ''-'')" by code_simp
  then show "newID rnd = Inr i \<Longrightarrow> plain i"
    by (auto simp: newID_def Let_def plain_simps hex_plain split: option.splits)
qed

lemma writable_rec_ok:
  assumes "writable (OEnqueue body prio delay now rnd) q" "newID rnd = Inr i"
  shows "rec_ok (REnqueue (enqueue_record (new_message i s prio body now (now + delay))))"
  using assms newID_plain [OF assms(2)] by (auto simp: enqueue_record_def new_message_def split: option.splits)

lemma Receive_live:
  assumes inv: "queue_inv q" and fr: "fresh (OReceive vis now rnd) q"
    and ex: "receive_round g vis 0 dl ctx now now' rnd q = Some (Return res, q')"
  shows "image_mset persisted (all_live q') = image_mset persisted (all_live q)" "same_core q q'"
proof -
  have "spec_step {} (q_ordering q) (OReceive vis now rnd) (Received res) (abs_queue q) (abs_queue q')"
    by (rule Receive_refines [OF inv fr ex])
  then show "image_mset persisted (all_live q') = image_mset persisted (all_live q)"
    by (cases rule: spec_step.cases) (auto simp: abs_queue_def all_live_of image_deliver)
  obtain res' q1 where "receive_round g vis 0 dl ctx now now' rnd q = Some (Return res', q1)"
    "q_closed q \<and> q1 = q \<or> popReady vis now rnd q = Some (res', q1)" by (rule Receive_poll [OF inv fr])
  then show "same_core q q'" using ex popReady_same by (fastforce simp: same_core_def)
qed

lemma execute_balanced:
  assumes inv: "queue_inv q" and bal: "balanced q" and fr: "fresh x q" and ex: "execute ls x q w = Some (out, q', w')"
  shows "balanced q'"
proof (cases x)
  case (OEnqueue body prio delay now rnd)
  then show ?thesis using ex Enqueue_balanced [OF inv bal] by (auto split: prod.splits)
next
  case (OReceive vis now rnd)
  then obtain res where r: "receive_round 0 vis 0 zero_time None now now rnd q = Some (Return res, q')"
    using ex by (auto split: option.splits prod.splits recv.splits)
  note l = Receive_live [OF inv fr [unfolded OReceive] r]
  show ?thesis using balanced_cong [OF l(1)] l(2) bal by (simp add: same_core_def)
next
  case (OAck r)
  then show ?thesis using ex Ack_balanced [OF inv bal] by auto
next
  case (ONack r delay now)
  then show ?thesis using ex Nack_balanced [OF inv bal] by auto
next
  case (ODue now)
  then obtain t where e: "processDue now q = Some (t, q')" using ex by auto
  obtain q1 where "processDue now q = Some (next_due q1, q1)" "view q1 = a_expire now (a_promote now (view q))" "same_frame q q1"
    by (rule processDue_effect [OF inv])
  then show ?thesis using e bal balanced_cong [of persisted q' q] by (auto simp: all_live_of image_due same_frame_def)
qed

context log_store
begin

lemma execute_durable:
  assumes snd: "sound q" and dur: "durable holds q w" and fr: "fresh x q" and wr: "writable x q"
    and ex: "execute ls x q w = Some (out, q', w')" and h: "healthy (q_log q') w'"
  shows "sound q' \<and> durable holds q' w'"
proof (cases x)
  case (OEnqueue body prio delay now rnd)
  obtain res where e: "Queue_Enqueue ls body prio delay now rnd q w = (res, q', w')"
    using ex OEnqueue by (auto split: prod.splits)
  show ?thesis
  proof (cases res)
    case (Inl err)
    then show ?thesis using Enqueue_refused_durable [OF snd dur] e h by blast
  next
    case (Inr i)
    then have i: "newID rnd = Inr i" using Enqueue_effect(11) snd e by (fastforce simp: sound_def)
    show ?thesis using Enqueue_durable [OF snd dur e [unfolded Inr] h] writable_rec_ok [OF wr [unfolded OEnqueue] i] fr wr i OEnqueue
      by simp
  qed
next
  case (OReceive vis now rnd)
  have inv: "queue_inv q" using snd by (simp add: sound_def)
  obtain res q1 where r: "receive_round 0 vis 0 zero_time None now now rnd q = Some (Return res, q1)" "queue_inv q1"
    "q_closed q \<and> q1 = q \<or> popReady vis now rnd q = Some (res, q1)" by (rule Receive_poll [OF inv fr [unfolded OReceive]])
  then have q1: "q1 = q'" "w' = w" using ex OReceive by auto
  show ?thesis
  proof (cases "q_closed q \<and> q1 = q")
    case False
    then have p: "popReady vis now rnd q = Some (res, q')" using r q1 by auto
    then show ?thesis using Receive_durable [OF snd dur p] fr OReceive q1 by (auto split: sum.splits)
  qed (use snd dur q1 in auto)
next
  case (OAck r)
  then obtain err where e: "Queue_Ack ls r q w = Some (err, q', w')" using ex by auto
  then show ?thesis using Ack_durable [OF snd dur] Ack_refused_durable [OF snd dur] e h by (cases err) auto
next
  case (ONack r delay now)
  then obtain err where e: "Queue_Nack ls r delay now q w = Some (err, q', w')" using ex by auto
  then show ?thesis using Nack_durable [OF snd dur] Nack_refused_durable [OF snd dur] e h wr ONack by (cases err) auto
next
  case (ODue now)
  then obtain t where e: "processDue now q = Some (t, q')" and w': "w' = w" using ex by auto
  then show ?thesis using processDue_durable [OF snd dur e] w' by simp
qed

lemma runs_durable:
  assumes "runs ls healthy q w xs q' w'" "sound q" "durable holds q w" "balanced q"
  shows "sound q' \<and> durable holds q' w' \<and> balanced q' \<and> q_name q' = q_name q \<and> q_ordering q' = q_ordering q"
  using assms
proof (induction rule: runs.induct)
  case (step q w xs q1 w1 x out q2 w2)
  then have "sound q2 \<and> durable holds q2 w2" using execute_durable by blast
  moreover have "balanced q2" using execute_balanced [OF _ _ step.hyps(2,4)] step by (simp add: sound_def)
  moreover have "q_name q2 = q_name q \<and> q_ordering q2 = q_ordering q"
    using runs_inv [OF runs.step [OF step.hyps]] step.prems by (simp add: sound_def)
  ultimately show ?case by simp
qed simp

end

end
