(* ===== verification/Queue_Signals.thy ===== *)
theory Queue_Signals
  imports Queue_Run
begin

text \<open>
  What each operation does to the wake-up channel of the scheduler and to the parked receivers: whenever
  an operation creates a moment at which something becomes due that precedes all the ones known before,
  it leaves a kick in the channel; whenever it makes a message ready, it wakes the receivers.
\<close>

section \<open>Kicks\<close>

text \<open>The moment a message in the delayed or in-flight heap becomes due.\<close>

fun due_at :: "which \<Rightarrow> Message \<Rightarrow> Time" where
  "due_at Expiry m = Deadline m"
| "due_at _ m = AvailableAt m"

lemma due_at_core [simp]: "due_at w (core m) = due_at w m"
  by (cases w) simp_all

lemma cmp_due: "w \<noteq> Ready \<Longrightarrow> cmp odr w m m' \<longleftrightarrow> due_at w m < due_at w m'"
  by (cases w) (simp_all add: newDelayedHeap_def newExpiryHeap_def)

lemma pending_due: "pending A = due_at Delayed ` set_mset (A Delayed) \<union> due_at Expiry ` set_mset (A Expiry)"
  by (simp add: pending_def)

text \<open>No pending moment of \<open>B\<close> precedes all of \<open>A\<close>'s.\<close>

definition covered_by :: "Time set \<Rightarrow> Time set \<Rightarrow> bool" where
  "covered_by P Q \<longleftrightarrow> (\<forall>t \<in> Q. \<exists>s \<in> P. s \<le> t)"

definition kicked :: "'l Queue \<Rightarrow> bool" where
  "kicked q \<longleftrightarrow> q_kick q = Some True"

definition kick_ok :: "'l Queue \<Rightarrow> 'l Queue \<Rightarrow> bool" where
  "kick_ok q q' \<longleftrightarrow> (q_kick q \<noteq> None \<longrightarrow> q_kick q' \<noteq> None) \<and> (kicked q \<longrightarrow> kicked q') \<and> q_done q' = q_done q
     \<and> (q_kick q \<noteq> None \<longrightarrow> kicked q' \<or> covered_by (pending (view q)) (pending (view q')))"

lemma covered_subset: "Q \<subseteq> P \<Longrightarrow> covered_by P Q"
  by (auto simp: covered_by_def)

lemma kick_ok_quiet:
  assumes "q_kick q' = q_kick q" "q_done q' = q_done q" "pending (view q') \<subseteq> pending (view q)"
  shows "kick_ok q q'"
  using assms covered_subset by (auto simp: kick_ok_def kicked_def)

lemma wakeScheduler_kick [simp]: "q_kick (wakeScheduler q) = (if q_kick q = None then None else Some True)"
  "q_done (wakeScheduler q) = q_done q"
  by (simp_all add: wakeScheduler_def split: option.splits)

lemma push_not_top:
  assumes inv: "heaps_inv q" and a: "unfiled a q" and st: "MState (f (q_store q a)) = state_of w" and w: "w \<noteq> Ready"
    and top: "peek (q_heap w (push w a (modify a f q))) \<noteq> Some a"
  shows "\<exists>m \<in># view q w. due_at w m \<le> due_at w (f (q_store q a))"
proof -
  let ?q = "push w a (modify a f q)"
  note p = push_modified [where f = f and w = w, OF inv a st]
  have mem: "a \<in> set (addrs w ?q)" "set (addrs w ?q) = insert a (set (addrs w q))"
    using p(3) by (metis set_mset_add_mset_insert set_mset_mset insertI1)+
  then have ne: "addrs w ?q \<noteq> []" by auto
  let ?b = "addrs w ?q ! 0"
  have b: "?b \<noteq> a" using top ne by (simp add: peek_addrs)
  have "?b \<in> set (addrs w ?q)" using ne by simp
  then have bq: "?b \<in> set (addrs w q)" using mem b by auto
  have "\<not> cmp (q_ordering ?q) w (q_store ?q a) (q_store ?q ?b)" by (rule heaps_min [OF p(1) mem(1)])
  then have "due_at w (q_store ?q ?b) \<le> due_at w (q_store ?q a)" using w by (simp add: cmp_due)
  moreover have "due_at w (q_store ?q a) = due_at w (f (q_store q a))" using p(6) by (metis due_at_core)
  moreover have "due_at w (q_store ?q ?b) = due_at w (q_store q ?b)" using p(5) [OF b] by (metis due_at_core)
  moreover have "core (q_store q ?b) \<in># view q w" using bq by (auto simp: view_def)
  ultimately show ?thesis by (metis due_at_core)
qed

text \<open>Pushing a message into the delayed or in-flight heap, and kicking if it comes out on top.\<close>

definition push_kick :: "which \<Rightarrow> addr \<Rightarrow> 'l Queue \<Rightarrow> 'l Queue" where
  "push_kick w a q = (let q1 = push w a q in if peek (q_heap w q1) = Some a then wakeScheduler q1 else q1)"

lemma push_kick_ok:
  assumes inv: "heaps_inv q" and a: "unfiled a q" and st: "MState (f (q_store q a)) = state_of w" and w: "w \<noteq> Ready"
  shows "kick_ok q (push_kick w a (modify a f q))" "view (push_kick w a (modify a f q)) = view (push w a (modify a f q))"
proof -
  let ?q = "push w a (modify a f q)"
  note p = push_modified [where f = f and w = w, OF inv a st]
  show v: "view (push_kick w a (modify a f q)) = view ?q" by (simp add: push_kick_def Let_def)
  have pend: "pending (view ?q) = insert (due_at w (f (q_store q a))) (pending (view q))"
    using w p(2) by (cases w) (auto simp: pending_due)
  show "kick_ok q (push_kick w a (modify a f q))"
  proof (cases "peek (q_heap w ?q) = Some a")
    case True
    then show ?thesis by (auto simp: kick_ok_def kicked_def push_kick_def Let_def)
  next
    case False
    obtain m where m: "m \<in># view q w" "due_at w m \<le> due_at w (f (q_store q a))" using push_not_top [OF inv a st w False] by blast
    then have "due_at w m \<in> pending (view q)" using w by (cases w) (auto simp: pending_due)
    then have "covered_by (pending (view q)) (pending (view ?q))" using m(2) by (auto simp: covered_by_def pend)
    then show ?thesis using False v by (simp add: kick_ok_def kicked_def push_kick_def Let_def)
  qed
qed

section \<open>The operations\<close>

lemma kick_ok_cong:
  assumes "kick_ok q q1" "q_kick q' = q_kick q1" "q_done q' = q_done q1" "view q' = view q1"
  shows "kick_ok q q'"
  using assms by (simp add: kick_ok_def kicked_def)

lemma maybeCompact_signals:
  assumes "maybeCompact ls q w = (q', w')"
  shows "q_kick q' = q_kick q \<and> q_done q' = q_done q \<and> q_parked q' = q_parked q \<and> view q' = view q"
proof -
  obtain l where "q' = q\<lparr>q_log := l\<rparr>" using maybeCompact_log [of ls q w] assms by auto
  then show ?thesis by simp
qed

lemma Broadcast_signals [simp]: "q_done (Broadcast q) = q_done q" "q_parked (Broadcast q) = []"
  by (simp_all add: Broadcast_def)

lemma file_message_kick:
  assumes "heaps_inv q" "unfiled a q"
  shows "kick_ok q (file_message delay a q)"
proof (cases "delay > 0")
  case True
  let ?f = "\<lambda>m. m\<lparr>MState := StateDelayed\<rparr>"
  have "file_message delay a q = Broadcast (push_kick Delayed a (modify a ?f q))"
    using True by (simp add: file_message_def push_kick_def Let_def q_heap_fold)
  then show ?thesis using push_kick_ok(1) [OF assms, of ?f Delayed] kick_ok_cong by force
next
  case False
  have "view (file_message delay a q) = a_file delay (core (q_store q a)) (view q)" by (rule file_message_effect [OF assms])
  moreover have "q_kick (file_message delay a q) = q_kick q" "q_done (file_message delay a q) = q_done q"
    using False by (simp_all add: file_message_def)
  ultimately show ?thesis using False by (intro kick_ok_quiet) (simp_all add: a_file_def pending_def)
qed

lemma kick_ok_trans_quiet:
  assumes "q_kick q1 = q_kick q" "q_done q1 = q_done q" "pending (view q1) \<subseteq> pending (view q)" "kick_ok q1 q'"
  shows "kick_ok q q'"
proof -
  have "covered_by (pending (view q1)) Q \<Longrightarrow> covered_by (pending (view q)) Q" for Q
    using assms(3) unfolding covered_by_def by blast
  then show ?thesis using assms(1,2,4) by (auto simp: kick_ok_def kicked_def)
qed

lemma allocate_signals:
  assumes "allocate m q = (a, q')"
  shows "q_kick q' = q_kick q \<and> q_done q' = q_done q \<and> q_parked q' = q_parked q"
  using assms by (auto simp: allocate_def)

lemma Enqueue_kick:
  assumes inv: "queue_inv q" and enq: "Queue_Enqueue ls body prio delay now rnd q w = (res, q', w')"
  shows "kick_ok q q'"
proof (cases res)
  case (Inl e)
  obtain l where "q' = q\<lparr>q_log := l\<rparr>" using Enqueue_refused [OF enq [unfolded Inl]] by blast
  then show ?thesis by (intro kick_ok_quiet) simp_all
next
  case (Inr i)
  let ?m = "new_message i (q_nextSeq q) prio body now (now + delay)"
  obtain l w1 a q2 where al: "allocate ?m (q\<lparr>q_log := l, q_nextSeq := q_nextSeq q + 1, q_enqueued := q_enqueued q + 1\<rparr>) = (a, q2)"
      and mc: "maybeCompact ls (file_message delay a q2) w1 = (q', w')"
    using enq Inr by (auto simp: Queue_Enqueue_def Let_def split: if_splits sum.splits prod.splits option.splits)
  have "queue_inv (q\<lparr>q_log := l, q_nextSeq := q_nextSeq q + 1, q_enqueued := q_enqueued q + 1\<rparr>)" using inv by simp
  note q2 = queue_inv_allocate [OF this al]
  have "kick_ok q2 (file_message delay a q2)" by (rule file_message_kick) (use q2 in \<open>auto simp: queue_inv_def\<close>)
  then have "kick_ok q2 q'" using maybeCompact_signals [OF mc] kick_ok_cong by metis
  then show ?thesis by (rule kick_ok_trans_quiet [rotated 3]) (use q2 allocate_signals [OF al] in auto)
qed

lemma remove_signals:
  assumes "remove w i q = Some (a, q')"
  shows "q_kick q' = q_kick q \<and> q_done q' = q_done q \<and> q_parked q' = q_parked q"
  using assms by (auto simp: remove_def split: option.splits)

lemma Ack_signals:
  assumes "queue_inv q" "Queue_Ack ls r q w = Some (err, q', w')"
  shows "kick_ok q q' \<and> q_parked q' = q_parked q \<and> view q' Ready = view q Ready \<and> q_closed q' = q_closed q"
proof (cases err)
  case (Some e)
  obtain l where "q' = q\<lparr>q_log := l\<rparr>" using Ack_refused [OF assms(2) [unfolded Some]] by blast
  then show ?thesis using kick_ok_quiet [of q' q] by simp
next
  case None
  obtain m where m: "view q' = (view q)(Expiry := view q Expiry - {#m#})" "q_closed q' = q_closed q"
    using Ack_effect [OF assms(1) assms(2) [unfolded None]] by metis
  have s: "q_kick q' = q_kick q \<and> q_done q' = q_done q \<and> q_parked q' = q_parked q"
    using assms(2) None
    by (auto simp: Queue_Ack_def Let_def split: if_splits option.splits prod.splits dest!: remove_signals maybeCompact_signals)
  have "pending (view q') \<subseteq> pending (view q)" using m by (auto simp: pending_def dest: in_diffD)
  then show ?thesis using s m kick_ok_quiet [of q' q] by simp
qed

lemma Nack_kick:
  assumes inv: "queue_inv q" and nack: "Queue_Nack ls r delay now q w = Some (err, q', w')"
  shows "kick_ok q q'"
proof (cases err)
  case (Some e)
  obtain l where "q' = q\<lparr>q_log := l\<rparr>" using Nack_refused [OF nack [unfolded Some]] by blast
  then show ?thesis by (intro kick_ok_quiet) simp_all
next
  case None
  obtain a l w1 where r: "map_of (q_inflight q) r = Some a" and c: "\<not> q_closed q" "0 \<le> delay"
      and app: "ls_Append ls (RNack \<lparr>n_ID = ID (q_store q a), n_AvailableAt = toMillis (now + delay)\<rparr>) (q_log q) w = (None, l, w1)"
    using nack None by (auto simp: Queue_Nack_def Let_def split: if_splits option.splits prod.splits)
  define q1 where "q1 = q\<lparr>q_log := l, q_inflight := map_delete r (q_inflight q)\<rparr>"
  from take_inflight [OF inv r, of l, folded q1_def] obtain hs where
    t: "remove Expiry (m_index (q_store q1 a)) q1 = Some (a, set_heap Expiry hs q1)" "queue_inv (set_heap Expiry hs q1)"
      "unfiled a (set_heap Expiry hs q1)" "core (q_store q a) \<in># view q Expiry" "core (snd hs a) = core (q_store q a)"
      "view (set_heap Expiry hs q1) = (view q)(Expiry := view q Expiry - {#core (q_store q a)#})" .
  define q3 where "q3 = modify a (a_release (now + delay)) (set_heap Expiry hs q1)"
  have m: "maybeCompact ls (file_message delay a q3) w1 = (q', w')"
    using nack [unfolded None] r c app t(1)
    by (auto simp: Queue_Nack_def Let_def q3_def q1_def a_release_def [abs_def] split: prod.splits)
  have q3: "heaps_inv q3" "unfiled a q3" "view q3 = view (set_heap Expiry hs q1)"
    using t(2,3) heaps_inv_modify view_modify [OF t(3)] by (auto simp: queue_inv_def q3_def)
  have "kick_ok q3 q'"
    using kick_ok_cong [OF file_message_kick [OF q3(1,2)]] maybeCompact_signals [OF m] by blast
  moreover have "pending (view q3) \<subseteq> pending (view q)" unfolding q3(3) t(6) by (auto simp: pending_def dest: in_diffD)
  moreover have "q_kick q3 = q_kick q" "q_done q3 = q_done q" by (simp_all add: q3_def q1_def)
  ultimately show ?thesis using kick_ok_trans_quiet [of q3 q q'] by blast
qed

lemma popReady_kick:
  assumes inv: "queue_inv q" and pop: "popReady vis now rnd q = Some (res, q')"
  shows "kick_ok q q' \<and> q_parked q' = q_parked q \<and> q_closed q' = q_closed q"
proof (cases "addrs Ready q = [] \<or> (\<exists>e. newReceipt rnd = Inl e)")
  case True
  then have "q' = q" using pop by (auto simp: popReady_def heap_Len_def q_heap_fold split: if_splits)
  then show ?thesis using kick_ok_quiet [of q q] by simp
next
  case False
  then obtain r where r: "newReceipt rnd = Inr r" and ne: "addrs Ready q \<noteq> []" by (cases "newReceipt rnd") auto
  have hinv: "heaps_inv q" using inv by (simp add: queue_inv_def)
  let ?a = "addrs Ready q ! 0"
  define f where "f = a_deliver r (now + vis)"
  obtain hs where p: "pop Ready q = Some (?a, set_heap Ready hs q)" "heaps_inv (set_heap Ready hs q)"
      "mset (addrs Ready q) = add_mset ?a (mset (items (fst hs)))" "unfiled ?a (set_heap Ready hs q)"
      "\<And>b. core (snd hs b) = core (q_store q b)" using pop_effect [OF hinv ne] by blast
  define q2 where "q2 = (set_heap Ready hs q)\<lparr>q_inflight := map_insert r ?a (q_inflight q)\<rparr>"
  have q2: "heaps_inv q2" "unfiled ?a q2" "MState (f (q_store q2 ?a)) = state_of Expiry"
    using p by (simp_all add: q2_def f_def a_deliver_def)
  define q3 where "q3 = push Expiry ?a (modify ?a f q2)"
  define q4 where "q4 = (if peek (q_expiry q3) = Some ?a then wakeScheduler q3 else q3)"
  have "popReady vis now rnd q = Some (Inr (Some (delivery (q_store q4 ?a))), q4)"
    using ne r p(1)
    by (simp add: popReady_def heap_Len_def q_heap_fold q4_def q3_def q2_def f_def a_deliver_def [abs_def] modify_inflight Let_def)
  then have "q' = q4" using pop by simp
  also have "q4 = push_kick Expiry ?a (modify ?a f q2)" by (simp add: push_kick_def q4_def q3_def q_heap_fold Let_def)
  finally have q': "q' = push_kick Expiry ?a (modify ?a f q2)" .
  have "view q2 = (view q)(Ready := view q Ready - {#core (q_store q ?a)#})"
    using view_set_heap(2) [OF p(3,5)] by (simp add: q2_def)
  then have "pending (view q2) = pending (view q)" by (simp add: pending_def)
  moreover have "kick_ok q2 q'" unfolding q' by (rule push_kick_ok(1) [where f = f and w = Expiry, OF q2]) simp
  moreover have "q_kick q2 = q_kick q" "q_done q2 = q_done q" "q_parked q2 = q_parked q" "q_closed q2 = q_closed q"
    by (simp_all add: q2_def)
  ultimately have "kick_ok q q'" "q_parked q' = q_parked q" "q_closed q' = q_closed q"
    using kick_ok_trans_quiet [of q2 q q'] by (blast, simp_all add: q' push_kick_def Let_def)
  then show ?thesis by blast
qed

text \<open>The receivers that are parked: nothing is ready for them and the queue is open.\<close>

definition parked_ok :: "'l Queue \<Rightarrow> bool" where
  "parked_ok q \<longleftrightarrow> (q_parked q \<noteq> [] \<longrightarrow> view q Ready = {#} \<and> \<not> q_closed q)"

lemma parked_ok_quiet:
  "parked_ok q \<Longrightarrow> q_parked q' = q_parked q \<Longrightarrow> view q' Ready = view q Ready \<Longrightarrow> q_closed q' = q_closed q \<Longrightarrow> parked_ok q'"
  by (simp add: parked_ok_def)

lemma Enqueue_parked:
  assumes "queue_inv q" "parked_ok q" "Queue_Enqueue ls body prio delay now rnd q w = (res, q', w')"
  shows "parked_ok q' \<and> set (q_parked q') \<subseteq> set (q_parked q)"
proof (cases res)
  case (Inl e)
  obtain l where "q' = q\<lparr>q_log := l\<rparr>" using Enqueue_refused [OF assms(3) [unfolded Inl]] by blast
  then show ?thesis using assms(2) by (simp add: parked_ok_def)
next
  case (Inr i)
  have "q_parked q' = []" by (rule Enqueue_effect(10) [OF assms(1) assms(3) [unfolded Inr]])
  then show ?thesis by (simp add: parked_ok_def)
qed

lemma Nack_parked:
  assumes "queue_inv q" "parked_ok q" "Queue_Nack ls r delay now q w = Some (err, q', w')"
  shows "parked_ok q' \<and> set (q_parked q') \<subseteq> set (q_parked q)"
proof (cases err)
  case (Some e)
  obtain l where "q' = q\<lparr>q_log := l\<rparr>" using Nack_refused [OF assms(3) [unfolded Some]] by blast
  then show ?thesis using assms(2) by (simp add: parked_ok_def)
next
  case None
  have "q_parked q' = []" using Nack_effect [OF assms(1) assms(3) [unfolded None]] by metis
  then show ?thesis by (simp add: parked_ok_def)
qed

lemma processDue_signals:
  assumes "queue_inv q" "processDue now q = Some (t, q')"
  shows "q_kick q' = q_kick q" "q_done q' = q_done q" "q_closed q' = q_closed q" "parked_ok q \<Longrightarrow> parked_ok q'"
    "set (q_parked q') \<subseteq> set (q_parked q)" "queue_inv q'" "view q' = a_expire now (a_promote now (view q))"
    "t = None \<longleftrightarrow> pending (view q') = {}" "t = Some s \<Longrightarrow> \<forall>s' \<in> pending (view q'). s \<le> s'"
proof -
  obtain q1 where p: "processDue now q = Some (next_due q1, q1)" "queue_inv q1" "view q1 = a_expire now (a_promote now (view q))"
      "same_frame q q1" "q_parked q1 = (if a_due now (view q) then [] else q_parked q)" by (rule processDue_effect [OF assms(1)])
  then have q': "t = next_due q'" "queue_inv q'" "view q' = a_expire now (a_promote now (view q))" "same_frame q q'"
      "q_parked q' = (if a_due now (view q) then [] else q_parked q)" using assms(2) by auto
  show "q_kick q' = q_kick q" "q_done q' = q_done q" "q_closed q' = q_closed q" "queue_inv q'"
    "view q' = a_expire now (a_promote now (view q))" "set (q_parked q') \<subseteq> set (q_parked q)"
    using q' by (simp_all add: same_frame_def)
  show "parked_ok q'" if "parked_ok q"
  proof (cases "a_due now (view q)")
    case False
    then have "a_promote now (view q) = view q" "a_expire now (view q) = view q"
      by (intro a_promote_idle a_expire_idle; force simp: a_due_def not_le)+
    then show ?thesis using that q' False by (simp add: parked_ok_def same_frame_def)
  qed (simp add: q' parked_ok_def)
  have h: "heaps_inv q'" using q'(2) by (simp add: queue_inv_def)
  show "t = None \<longleftrightarrow> pending (view q') = {}" "t = Some s \<Longrightarrow> \<forall>s' \<in> pending (view q'). s \<le> s'"
    using next_due_pending [OF h] q'(1) by auto
qed

end
