(* ===== verification/Queue_System.thy ===== *)
theory Queue_System
  imports Queue_Signals
begin

text \<open>
  The goroutines of one queue as a transition system: the scheduler with its timer (\<open>runScheduler\<close>,
  \<open>stopTimer\<close>), receivers that wait on the condition variable with the timer callback and the context
  watcher each of them starts (\<open>Receive\<close>), producers and consumers, and the two halves of \<open>Close\<close>.

  A step is one critical section or one channel or timer event, so the interleavings of the
  goroutines are the sequences of steps. The clock \<open>sy_now\<close> only moves forward; an operation may carry
  a clock reading older than its step (\<open>Enqueue\<close> reads the clock before it takes the lock). A receiver is
  runnable when it has entered \<open>Receive\<close> and is not among the parked ones.
\<close>

section \<open>Timers and the scheduler\<close>

text \<open>A \<open>time.Timer\<close> before Go 1.23: when it will fire, and whether its channel holds a value.\<close>

record timer =
  t_at :: "Time option"
  t_C :: bool

definition timer_Reset :: "Time \<Rightarrow> timer \<Rightarrow> timer" where
  "timer_Reset at t = t\<lparr>t_at := Some at\<rparr>"

definition timer_Stop :: "timer \<Rightarrow> bool \<times> timer" where
  "timer_Stop t = (t_at t \<noteq> None, t\<lparr>t_at := None\<rparr>)"

definition timer_fire :: "timer \<Rightarrow> timer" where
  "timer_fire t = t\<lparr>t_at := None, t_C := True\<rparr>"

definition stopTimer :: "timer \<Rightarrow> timer" where
  "stopTimer t = (case timer_Stop t of (active, t') \<Rightarrow> if active then t' else t'\<lparr>t_C := False\<rparr>)"

datatype sched_pc = SLoop | SArm "Time option" | SSelect | SStopped

record scheduler =
  sc_pc :: sched_pc
  sc_timer :: timer
  sc_armed :: bool

text \<open>\<open>runScheduler\<close>: the loop up to the unlock, arming the timer, and the three branches of the select.\<close>

definition sched_start :: "Time \<Rightarrow> scheduler" where
  "sched_start now = \<lparr>sc_pc = SLoop, sc_timer = stopTimer \<lparr>t_at = Some (now + 3600000000000), t_C = False\<rparr>, sc_armed = False\<rparr>"

definition sched_process :: "Time \<Rightarrow> 'l Queue \<times> scheduler \<Rightarrow> ('l Queue \<times> scheduler) option" where
  "sched_process now x = (case processDue now (fst x) of
      None \<Rightarrow> None | Some (next, q) \<Rightarrow> Some (q, (snd x)\<lparr>sc_pc := SArm next\<rparr>))"

definition sched_arm :: "Time option \<Rightarrow> scheduler \<Rightarrow> scheduler" where
  "sched_arm next sc = (case next of
      None \<Rightarrow> sc | Some t \<Rightarrow> sc\<lparr>sc_timer := timer_Reset t (sc_timer sc), sc_armed := True\<rparr>)\<lparr>sc_pc := SSelect\<rparr>"

definition select_timer :: "scheduler \<Rightarrow> scheduler" where
  "select_timer sc = sc\<lparr>sc_timer := (sc_timer sc)\<lparr>t_C := False\<rparr>, sc_armed := False, sc_pc := SLoop\<rparr>"

definition select_kick :: "'l Queue \<times> scheduler \<Rightarrow> 'l Queue \<times> scheduler" where
  "select_kick x = ((fst x)\<lparr>q_kick := Some False\<rparr>,
     (let sc = snd x in if sc_armed sc then sc\<lparr>sc_timer := stopTimer (sc_timer sc), sc_armed := False\<rparr> else sc)\<lparr>sc_pc := SLoop\<rparr>)"

definition select_done :: "scheduler \<Rightarrow> scheduler" where
  "select_done sc = (if sc_armed sc then sc\<lparr>sc_timer := stopTimer (sc_timer sc)\<rparr> else sc)\<lparr>sc_pc := SStopped\<rparr>"

section \<open>Receivers\<close>

text \<open>A helper goroutine of a receiver: not started, waiting for its event, waiting for the lock to
  broadcast, over.\<close>

datatype callback = CbNone | CbWaiting | CbLocking | CbOver

record waiter =
  wt_visibility :: Duration
  wt_wait :: Duration
  wt_deadline :: Time
  wt_fire :: Time
  wt_timer :: callback
  wt_cancellable :: bool
  wt_err :: "goerror option"
  wt_watcher :: callback

text \<open>The head of \<open>Receive\<close>, at time \<open>now\<close>; the timer is started at \<open>fire - wait\<close>, not before.\<close>

definition Receive_enter :: "Duration \<Rightarrow> Duration \<Rightarrow> bool \<Rightarrow> goerror option \<Rightarrow> Time \<Rightarrow> Time \<Rightarrow> waiter" where
  "Receive_enter visibility wait cancellable err now fire =
     \<lparr>wt_visibility = visibility, wt_wait = wait, wt_deadline = (if wait > 0 then now + wait else zero_time), wt_fire = fire,
      wt_timer = (if wait > 0 then CbWaiting else CbNone), wt_cancellable = cancellable, wt_err = err,
      wt_watcher = (if wait > 0 \<and> cancellable then CbWaiting else CbNone)\<rparr>"

record ('l, 'w) system =
  sy_q :: "'l Queue"
  sy_w :: 'w
  sy_now :: Time
  sy_sched :: scheduler
  sy_waiters :: "nat \<rightharpoonup> waiter"
  sy_closing :: bool

text \<open>One round of a receiver's loop under the lock. A receiver that returns stops its timer and
  releases its watcher; a callback that already waits for the lock will still broadcast (\<open>late\<close> below).\<close>

definition Receive_run :: "nat \<Rightarrow> waiter \<Rightarrow> Time \<Rightarrow> Time \<Rightarrow> bytes option \<Rightarrow> ('l, 'w) system \<Rightarrow> ('l, 'w) system option" where
  "Receive_run g wt now1 now2 rnd s =
     (case receive_round g (wt_visibility wt) (wt_wait wt) (wt_deadline wt) (wt_err wt) now1 now2 rnd (sy_q s) of
        None \<Rightarrow> None
      | Some (Return res, q) \<Rightarrow> Some (s\<lparr>sy_q := q, sy_now := now2, sy_waiters := (sy_waiters s)(g := None)\<rparr>)
      | Some (Park, q) \<Rightarrow> Some (s\<lparr>sy_q := q, sy_now := now2, sy_waiters := (sy_waiters s)(g \<mapsto> wt)\<rparr>))"

section \<open>Steps\<close>

inductive sched_step :: "('l, 'w) system \<Rightarrow> ('l, 'w) system \<Rightarrow> bool" where
  process: "sc_pc (sy_sched s) = SLoop \<Longrightarrow> sched_process (sy_now s) (sy_q s, sy_sched s) = Some (q, sc)
    \<Longrightarrow> sched_step s (s\<lparr>sy_q := q, sy_sched := sc\<rparr>)"
| arm: "sc_pc (sy_sched s) = SArm next \<Longrightarrow> sched_step s (s\<lparr>sy_sched := sched_arm next (sy_sched s)\<rparr>)"
| fire: "t_at (sc_timer (sy_sched s)) = Some t \<Longrightarrow> t \<le> sy_now s
    \<Longrightarrow> sched_step s (s\<lparr>sy_sched := (sy_sched s)\<lparr>sc_timer := timer_fire (sc_timer (sy_sched s))\<rparr>\<rparr>)"
| on_timer: "sc_pc (sy_sched s) = SSelect \<Longrightarrow> t_C (sc_timer (sy_sched s))
    \<Longrightarrow> sched_step s (s\<lparr>sy_sched := select_timer (sy_sched s)\<rparr>)"
| on_kick: "sc_pc (sy_sched s) = SSelect \<Longrightarrow> q_kick (sy_q s) = Some True \<Longrightarrow> select_kick (sy_q s, sy_sched s) = (q, sc)
    \<Longrightarrow> sched_step s (s\<lparr>sy_q := q, sy_sched := sc\<rparr>)"
| on_done: "sc_pc (sy_sched s) = SSelect \<Longrightarrow> q_done (sy_q s) = Some True
    \<Longrightarrow> sched_step s (s\<lparr>sy_sched := select_done (sy_sched s)\<rparr>)"

text \<open>The callbacks of receiver \<open>g\<close>: its timer fires, its context is observed, each then broadcasts.\<close>

inductive callback_step :: "nat \<Rightarrow> ('l, 'w) system \<Rightarrow> ('l, 'w) system \<Rightarrow> bool" for g where
  timer_fires: "sy_waiters s g = Some wt \<Longrightarrow> wt_timer wt = CbWaiting \<Longrightarrow> wt_fire wt \<le> sy_now s
    \<Longrightarrow> callback_step g s (s\<lparr>sy_waiters := (sy_waiters s)(g \<mapsto> wt\<lparr>wt_timer := CbLocking\<rparr>)\<rparr>)"
| timer_wakes: "sy_waiters s g = Some wt \<Longrightarrow> wt_timer wt = CbLocking
    \<Longrightarrow> callback_step g s (s\<lparr>sy_q := Broadcast (sy_q s), sy_waiters := (sy_waiters s)(g \<mapsto> wt\<lparr>wt_timer := CbOver\<rparr>)\<rparr>)"
| watcher_sees: "sy_waiters s g = Some wt \<Longrightarrow> wt_watcher wt = CbWaiting \<Longrightarrow> wt_err wt \<noteq> None
    \<Longrightarrow> callback_step g s (s\<lparr>sy_waiters := (sy_waiters s)(g \<mapsto> wt\<lparr>wt_watcher := CbLocking\<rparr>)\<rparr>)"
| watcher_wakes: "sy_waiters s g = Some wt \<Longrightarrow> wt_watcher wt = CbLocking
    \<Longrightarrow> callback_step g s (s\<lparr>sy_q := Broadcast (sy_q s), sy_waiters := (sy_waiters s)(g \<mapsto> wt\<lparr>wt_watcher := CbOver\<rparr>)\<rparr>)"

inductive sys_step :: "('l, 'w) logStore \<Rightarrow> ('l, 'w) system \<Rightarrow> ('l, 'w) system \<Rightarrow> bool" for ls where
  sched: "sched_step s s' \<Longrightarrow> sys_step ls s s'"
| callback: "callback_step g s s' \<Longrightarrow> sys_step ls s s'"
| late: "sys_step ls s (s\<lparr>sy_q := Broadcast (sy_q s)\<rparr>)"
| tick: "sy_now s \<le> t \<Longrightarrow> sys_step ls s (s\<lparr>sy_now := t\<rparr>)"
| cancel: "sy_waiters s g = Some wt \<Longrightarrow> wt_cancellable wt
    \<Longrightarrow> sys_step ls s (s\<lparr>sy_waiters := (sy_waiters s)(g \<mapsto> wt\<lparr>wt_err := Some e\<rparr>)\<rparr>)"
| enqueue: "now \<le> sy_now s \<Longrightarrow> Queue_Enqueue ls body prio delay now rnd (sy_q s) (sy_w s) = (res, q, w)
    \<Longrightarrow> sys_step ls s (s\<lparr>sy_q := q, sy_w := w\<rparr>)"
| ack: "Queue_Ack ls r (sy_q s) (sy_w s) = Some (err, q, w) \<Longrightarrow> sys_step ls s (s\<lparr>sy_q := q, sy_w := w\<rparr>)"
| nack: "Queue_Nack ls r delay (sy_now s) (sy_q s) (sy_w s) = Some (err, q, w)
    \<Longrightarrow> sys_step ls s (s\<lparr>sy_q := q, sy_w := w\<rparr>)"
| receive: "sy_waiters s g = None \<Longrightarrow> sy_now s \<le> now0 \<Longrightarrow> now0 + wait \<le> fire \<Longrightarrow> now0 \<le> now1 \<Longrightarrow> now1 \<le> now2
    \<Longrightarrow> (err \<noteq> None \<longrightarrow> cancellable) \<Longrightarrow> fresh (OReceive vis now1 rnd) (sy_q s)
    \<Longrightarrow> Receive_run g (Receive_enter vis wait cancellable err now0 fire) now1 now2 rnd s = Some s'
    \<Longrightarrow> sys_step ls s s'"
| resume: "sy_waiters s g = Some wt \<Longrightarrow> g \<notin> set (q_parked (sy_q s)) \<Longrightarrow> sy_now s \<le> now1 \<Longrightarrow> now1 \<le> now2
    \<Longrightarrow> fresh (OReceive (wt_visibility wt) now1 rnd) (sy_q s)
    \<Longrightarrow> Receive_run g wt now1 now2 rnd s = Some s' \<Longrightarrow> sys_step ls s s'"
| close: "\<not> q_closed (sy_q s) \<Longrightarrow> sys_step ls s (s\<lparr>sy_q := Close_begin (sy_q s), sy_closing := True\<rparr>)"
| finish: "sy_closing s \<Longrightarrow> sc_pc (sy_sched s) = SStopped \<Longrightarrow> Close_finish ls (sy_q s) (sy_w s) = (err, q, w)
    \<Longrightarrow> sys_step ls s (s\<lparr>sy_q := q, sy_w := w, sy_closing := False\<rparr>)"

text \<open>A queue as \<open>createQueue\<close> and \<open>openQueue\<close> hand it out: started, well formed, nobody waiting.\<close>

definition sys_init :: "'l Queue \<Rightarrow> 'w \<Rightarrow> Time \<Rightarrow> ('l, 'w) system" where
  "sys_init q w now = \<lparr>sy_q = start q, sy_w = w, sy_now = now, sy_sched = sched_start now, sy_waiters = (\<lambda>_. None), sy_closing = False\<rparr>"

inductive reachable :: "('l, 'w) logStore \<Rightarrow> ('l, 'w) system \<Rightarrow> bool" for ls where
  init: "queue_inv q \<Longrightarrow> q_parked q = [] \<Longrightarrow> \<not> q_closed q \<Longrightarrow> reachable ls (sys_init q w now)"
| step: "reachable ls s \<Longrightarrow> sys_step ls s s' \<Longrightarrow> reachable ls s'"

section \<open>The invariant\<close>

definition covers :: "Time option \<Rightarrow> Time set \<Rightarrow> bool" where
  "covers a P \<longleftrightarrow> (\<forall>p \<in> P. \<exists>t. a = Some t \<and> t \<le> p)"

definition sched_ok :: "'l Queue \<Rightarrow> scheduler \<Rightarrow> bool" where
  "sched_ok q sc \<longleftrightarrow> kicked q \<or> (case sc_pc sc of
      SArm next \<Rightarrow> covers next (pending (view q))
    | SSelect \<Rightarrow> t_C (sc_timer sc) \<or> covers (t_at (sc_timer sc)) (pending (view q))
    | _ \<Rightarrow> True)"

definition waiter_ok :: "Time \<Rightarrow> waiter \<Rightarrow> bool" where
  "waiter_ok now wt \<longleftrightarrow> (wt_timer wt \<in> {CbLocking, CbOver} \<longrightarrow> wt_deadline wt \<le> now)
     \<and> (wt_watcher wt \<in> {CbLocking, CbOver} \<longrightarrow> wt_err wt \<noteq> None)
     \<and> (wt_timer wt \<noteq> CbNone \<longleftrightarrow> wt_wait wt > 0)
     \<and> (wt_wait wt > 0 \<longrightarrow> wt_deadline wt \<le> wt_fire wt \<and> (wt_cancellable wt \<longrightarrow> wt_watcher wt \<noteq> CbNone))
     \<and> (wt_err wt \<noteq> None \<longrightarrow> wt_cancellable wt)"

text \<open>A parked receiver can still be woken by its timer, and by its watcher once its context is over.\<close>

definition wakeable :: "waiter \<Rightarrow> bool" where
  "wakeable wt \<longleftrightarrow> wt_wait wt > 0 \<and> wt_timer wt \<in> {CbWaiting, CbLocking}
     \<and> (wt_err wt \<noteq> None \<longrightarrow> wt_watcher wt \<in> {CbWaiting, CbLocking})"

definition sys_inv :: "('l, 'w) system \<Rightarrow> bool" where
  "sys_inv s \<longleftrightarrow> queue_inv (sy_q s) \<and> parked_ok (sy_q s) \<and> q_kick (sy_q s) \<noteq> None \<and> q_done (sy_q s) \<noteq> None
     \<and> sched_ok (sy_q s) (sy_sched s)
     \<and> (\<forall>g wt. sy_waiters s g = Some wt \<longrightarrow> waiter_ok (sy_now s) wt \<and> (g \<in> set (q_parked (sy_q s)) \<longrightarrow> wakeable wt))
     \<and> set (q_parked (sy_q s)) \<subseteq> dom (sy_waiters s)
     \<and> (sy_closing s \<longrightarrow> q_closed (sy_q s) \<and> q_done (sy_q s) = Some True)"

lemma covers_by: "covers a P \<Longrightarrow> covered_by P Q \<Longrightarrow> covers a Q"
  unfolding covers_def covered_by_def by (meson order_trans)

lemma sched_ok_kick:
  assumes "kick_ok q q'" "q_kick q \<noteq> None" "sched_ok q sc"
  shows "sched_ok q' sc"
  using assms covers_by [of _ "pending (view q)" "pending (view q')"]
  by (auto simp: kick_ok_def sched_ok_def split: sched_pc.splits)

text \<open>Every operation of a client.\<close>

lemma sys_inv_op:
  assumes inv: "sys_inv s" and k: "kick_ok (sy_q s) q" and q: "queue_inv q" "parked_ok q"
    "set (q_parked q) \<subseteq> set (q_parked (sy_q s))" "q_closed q = q_closed (sy_q s)"
  shows "sys_inv (s\<lparr>sy_q := q, sy_w := w\<rparr>)"
proof -
  have "sched_ok q (sy_sched s)" by (rule sched_ok_kick [OF k]) (use inv in \<open>auto simp: sys_inv_def\<close>)
  moreover have "q_kick q \<noteq> None" "q_done q = q_done (sy_q s)" using k inv by (auto simp: kick_ok_def sys_inv_def)
  ultimately show ?thesis using inv q by (auto simp: sys_inv_def)
qed

lemma sys_inv_enqueue:
  assumes inv: "sys_inv s" and e: "Queue_Enqueue ls body prio delay now rnd (sy_q s) (sy_w s) = (res, q, w)"
  shows "sys_inv (s\<lparr>sy_q := q, sy_w := w\<rparr>)"
proof -
  have qi: "queue_inv (sy_q s)" "parked_ok (sy_q s)" using inv by (auto simp: sys_inv_def)
  note p = Enqueue_parked [OF qi e]
  have "queue_inv q \<and> q_closed q = q_closed (sy_q s)"
  proof (cases res)
    case (Inl x)
    obtain l where "q = (sy_q s)\<lparr>q_log := l\<rparr>" using Enqueue_refused [OF e [unfolded Inl]] by blast
    then show ?thesis using qi by simp
  next
    case (Inr i)
    show ?thesis using Enqueue_effect [OF qi(1) e [unfolded Inr]] by blast
  qed
  then show ?thesis using sys_inv_op [OF inv Enqueue_kick [OF qi(1) e]] p by blast
qed

lemma sys_inv_ack:
  assumes inv: "sys_inv s" and e: "Queue_Ack ls r (sy_q s) (sy_w s) = Some (err, q, w)"
  shows "sys_inv (s\<lparr>sy_q := q, sy_w := w\<rparr>)"
proof -
  have qi: "queue_inv (sy_q s)" "parked_ok (sy_q s)" using inv by (auto simp: sys_inv_def)
  note p = Ack_signals [OF qi(1) e]
  have "queue_inv q"
  proof (cases err)
    case (Some x)
    obtain l where "q = (sy_q s)\<lparr>q_log := l\<rparr>" using Ack_refused [OF e [unfolded Some]] by blast
    then show ?thesis using qi by simp
  next
    case None
    show ?thesis by (rule Ack_effect [OF qi(1) e [unfolded None]])
  qed
  moreover have "parked_ok q" using parked_ok_quiet [OF qi(2)] p by blast
  ultimately show ?thesis using sys_inv_op [OF inv, of q w] p by simp
qed

lemma sys_inv_nack:
  assumes inv: "sys_inv s" and e: "Queue_Nack ls r delay now (sy_q s) (sy_w s) = Some (err, q, w)"
  shows "sys_inv (s\<lparr>sy_q := q, sy_w := w\<rparr>)"
proof -
  have qi: "queue_inv (sy_q s)" "parked_ok (sy_q s)" using inv by (auto simp: sys_inv_def)
  note p = Nack_parked [OF qi e]
  have "queue_inv q \<and> q_closed q = q_closed (sy_q s)"
  proof (cases err)
    case (Some x)
    obtain l where "q = (sy_q s)\<lparr>q_log := l\<rparr>" using Nack_refused [OF e [unfolded Some]] by blast
    then show ?thesis using qi by simp
  next
    case None
    show ?thesis by (rule Nack_effect [OF qi(1) e [unfolded None]]) blast
  qed
  then show ?thesis using sys_inv_op [OF inv Nack_kick [OF qi(1) e]] p by blast
qed

text \<open>The scheduler.\<close>

lemma sys_inv_sched:
  assumes inv: "sys_inv s" and st: "sched_step s s'"
  shows "sys_inv s'"
  using st
proof cases
  case (process q sc)
  then obtain nxt where p: "processDue (sy_now s) (sy_q s) = Some (nxt, q)" and sc: "sc = (sy_sched s)\<lparr>sc_pc := SArm nxt\<rparr>"
    by (auto simp: sched_process_def split: option.splits)
  have qi: "queue_inv (sy_q s)" using inv by (simp add: sys_inv_def)
  note d = processDue_signals [OF qi p]
  have "covers nxt (pending (view q))" using d(8,9) by (cases nxt) (auto simp: covers_def)
  then have "sched_ok q sc" by (simp add: sched_ok_def sc)
  then show ?thesis using inv d process(1) by (auto simp: sys_inv_def)
next
  case (arm nxt)
  have "sched_ok (sy_q s) (sched_arm nxt (sy_sched s))"
    using inv arm(2) by (cases nxt) (auto simp: sys_inv_def sched_ok_def sched_arm_def timer_Reset_def covers_def)
  then show ?thesis using inv arm(1) by (simp add: sys_inv_def)
next
  case (fire t)
  have "sched_ok (sy_q s) ((sy_sched s)\<lparr>sc_timer := timer_fire (sc_timer (sy_sched s))\<rparr>)"
    using inv by (auto simp: sys_inv_def sched_ok_def timer_fire_def split: sched_pc.splits)
  then show ?thesis using inv fire(1) by (simp add: sys_inv_def)
next
  case on_timer
  then show ?thesis using inv by (simp add: sys_inv_def sched_ok_def select_timer_def)
next
  case (on_kick q sc)
  then have q: "q = (sy_q s)\<lparr>q_kick := Some False\<rparr>" "sc_pc sc = SLoop" by (auto simp: select_kick_def Let_def)
  have "sched_ok q sc" by (simp add: sched_ok_def q(2))
  then show ?thesis using inv on_kick(1) q by (simp add: sys_inv_def parked_ok_def)
next
  case on_done
  then show ?thesis using inv by (simp add: sys_inv_def sched_ok_def select_done_def)
qed

text \<open>Waking everybody is always allowed.\<close>

lemma Broadcast_ok: "sched_ok (Broadcast q) sc = sched_ok q sc" "parked_ok (Broadcast q)"
  by (cases "sc_pc sc"; simp add: sched_ok_def kicked_def) (simp add: parked_ok_def)

lemma sys_inv_late: "sys_inv s \<Longrightarrow> sys_inv (s\<lparr>sy_q := Broadcast (sy_q s)\<rparr>)"
  by (simp add: sys_inv_def Broadcast_ok)

lemma sys_inv_waiter:
  assumes "sys_inv s" "sy_waiters s g = Some wt" "waiter_ok (sy_now s) wt'" "g \<in> set (q_parked (sy_q s)) \<Longrightarrow> wakeable wt'"
  shows "sys_inv (s\<lparr>sy_waiters := (sy_waiters s)(g \<mapsto> wt')\<rparr>)"
  using assms by (auto simp: sys_inv_def)

lemma sys_inv_callback:
  assumes inv: "sys_inv s" and st: "callback_step g s s'"
  shows "sys_inv s'"
proof -
  have w: "waiter_ok (sy_now s) wt \<and> (g \<in> set (q_parked (sy_q s)) \<longrightarrow> wakeable wt)" if "sy_waiters s g = Some wt" for wt
    using inv that by (simp add: sys_inv_def)
  show ?thesis
    using st
  proof cases
    case (timer_fires wt)
    have ok: "waiter_ok (sy_now s) (wt\<lparr>wt_timer := CbLocking\<rparr>)" "g \<in> set (q_parked (sy_q s)) \<Longrightarrow> wakeable (wt\<lparr>wt_timer := CbLocking\<rparr>)"
      using w [OF timer_fires(2)] timer_fires(3,4) by (auto simp: waiter_ok_def wakeable_def)
    show ?thesis unfolding timer_fires(1) by (rule sys_inv_waiter [OF inv timer_fires(2) ok])
  next
    case (timer_wakes wt)
    have "waiter_ok (sy_now s) (wt\<lparr>wt_timer := CbOver\<rparr>)" using w [OF timer_wakes(2)] timer_wakes(3) by (auto simp: waiter_ok_def)
    then show ?thesis using sys_inv_waiter [OF sys_inv_late [OF inv], of g wt "wt\<lparr>wt_timer := CbOver\<rparr>"] timer_wakes by simp
  next
    case (watcher_sees wt)
    have ok: "waiter_ok (sy_now s) (wt\<lparr>wt_watcher := CbLocking\<rparr>)" "g \<in> set (q_parked (sy_q s)) \<Longrightarrow> wakeable (wt\<lparr>wt_watcher := CbLocking\<rparr>)"
      using w [OF watcher_sees(2)] watcher_sees(3,4) by (auto simp: waiter_ok_def wakeable_def)
    show ?thesis unfolding watcher_sees(1) by (rule sys_inv_waiter [OF inv watcher_sees(2) ok])
  next
    case (watcher_wakes wt)
    have "waiter_ok (sy_now s) (wt\<lparr>wt_watcher := CbOver\<rparr>)" using w [OF watcher_wakes(2)] watcher_wakes(3) by (auto simp: waiter_ok_def)
    then show ?thesis using sys_inv_waiter [OF sys_inv_late [OF inv], of g wt "wt\<lparr>wt_watcher := CbOver\<rparr>"] watcher_wakes by simp
  qed
qed

lemma waiter_ok_later: "waiter_ok now wt \<Longrightarrow> now \<le> now' \<Longrightarrow> waiter_ok now' wt"
  by (auto simp: waiter_ok_def)

lemma sys_inv_cancel:
  assumes "sys_inv s" "sy_waiters s g = Some wt" "wt_cancellable wt"
  shows "sys_inv (s\<lparr>sy_waiters := (sy_waiters s)(g \<mapsto> wt\<lparr>wt_err := Some e\<rparr>)\<rparr>)"
proof (rule sys_inv_waiter [OF assms(1,2)])
  have w: "waiter_ok (sy_now s) wt" "g \<in> set (q_parked (sy_q s)) \<Longrightarrow> wakeable wt" using assms by (auto simp: sys_inv_def)
  show "waiter_ok (sy_now s) (wt\<lparr>wt_err := Some e\<rparr>)" using w assms(3) by (auto simp: waiter_ok_def)
  show "wakeable (wt\<lparr>wt_err := Some e\<rparr>)" if "g \<in> set (q_parked (sy_q s))"
    using w(1) w(2) [OF that] assms(3) by (cases "wt_watcher wt") (auto simp: waiter_ok_def wakeable_def)
qed

text \<open>The receivers.\<close>

lemma receive_round_cases:
  assumes inv: "queue_inv q" and fr: "fresh (OReceive vis now1 rnd) q"
    and r: "receive_round g vis wait dl ctx now1 now2 rnd q = Some (out, q')"
  shows "kick_ok q q' \<and> queue_inv q' \<and> q_closed q' = q_closed q
    \<and> (case out of Return res \<Rightarrow> q_parked q' = q_parked q \<and> (view q' Ready = view q Ready \<or> view q Ready \<noteq> {#})
       | Park \<Rightarrow> view q Ready = {#} \<and> \<not> q_closed q \<and> 0 < wait \<and> now2 < dl \<and> ctx = None \<and> q' = q\<lparr>q_parked := g # q_parked q\<rparr>)"
proof (cases "q_closed q")
  case True
  then show ?thesis using r inv kick_ok_quiet [of q q] by (auto simp: receive_round_def)
next
  case False
  note o = False
  show ?thesis
  proof (cases "addrs Ready q = []")
    case True
    have v: "view q Ready = {#}" using True by (simp add: view_def)
    have "kick_ok q (q\<lparr>q_parked := g # q_parked q\<rparr>)" "kick_ok q q" by (intro kick_ok_quiet; simp)+
    then show ?thesis using r o inv v unfolding receive_round_def popReady_empty [OF True]
      by (auto split: if_splits option.splits)
  next
    case False
    then have v: "view q Ready \<noteq> {#}" by (simp add: view_def)
    obtain res q1 where p: "receive_round g vis 0 dl ctx now1 now2 rnd q = Some (Return res, q1)" "queue_inv q1"
      "popReady vis now1 rnd q = Some (res, q1)" using Receive_poll [OF inv fr] o by metis
    have "res \<noteq> Inr None" using p(3) False by (auto simp: popReady_def heap_Len_def q_heap_fold Let_def split: sum.splits option.splits prod.splits)
    then have "out = Return res" "q' = q1" using r o p(3) by (auto simp: receive_round_def split: sum.splits option.splits)
    then show ?thesis using popReady_kick [OF inv p(3)] p(2) v by simp
  qed
qed

lemma sys_inv_receive:
  assumes inv: "sys_inv s" and run: "Receive_run g wt now1 now2 rnd s = Some s'" and now: "sy_now s \<le> now1" "now1 \<le> now2"
    and fr: "fresh (OReceive (wt_visibility wt) now1 rnd) (sy_q s)" and wt: "waiter_ok now1 wt" and g: "g \<notin> set (q_parked (sy_q s))"
  shows "sys_inv s'"
proof -
  have qi: "queue_inv (sy_q s)" "parked_ok (sy_q s)" "q_kick (sy_q s) \<noteq> None" using inv by (auto simp: sys_inv_def)
  obtain out q where r: "receive_round g (wt_visibility wt) (wt_wait wt) (wt_deadline wt) (wt_err wt) now1 now2 rnd (sy_q s) = Some (out, q)"
    using run by (auto simp: Receive_run_def split: option.splits)
  note c = receive_round_cases [OF qi(1) fr r]
  have sok: "sched_ok q (sy_sched s)" by (rule sched_ok_kick [OF _ qi(3)]) (use c inv in \<open>auto simp: sys_inv_def\<close>)
  have ch: "q_kick q \<noteq> None" "q_done q = q_done (sy_q s)" using c qi(3) by (auto simp: kick_ok_def)
  have old: "waiter_ok now2 x \<and> (h \<in> set (q_parked (sy_q s)) \<longrightarrow> wakeable x)" if "sy_waiters s h = Some x" for h x
    using inv that waiter_ok_later [of "sy_now s" x now2] now by (auto simp: sys_inv_def)
  show ?thesis
  proof (cases out)
    case (Return res)
    then have s': "s' = s\<lparr>sy_q := q, sy_now := now2, sy_waiters := (sy_waiters s)(g := None)\<rparr>" using run r by (simp add: Receive_run_def)
    have "parked_ok q" using c Return qi(2) by (auto simp: parked_ok_def)
    then show ?thesis using inv c Return sok ch old g unfolding s' sys_inv_def by auto
  next
    case Park
    then have s': "s' = s\<lparr>sy_q := q, sy_now := now2, sy_waiters := (sy_waiters s)(g \<mapsto> wt)\<rparr>" using run r by (simp add: Receive_run_def)
    have p: "view (sy_q s) Ready = {#}" "\<not> q_closed (sy_q s)" "0 < wt_wait wt" "now2 < wt_deadline wt" "wt_err wt = None"
        "q = (sy_q s)\<lparr>q_parked := g # q_parked (sy_q s)\<rparr>" using c Park by auto
    have "wakeable wt" using wt now p by (cases "wt_timer wt") (auto simp: waiter_ok_def wakeable_def)
    moreover have "parked_ok q" using p by (simp add: parked_ok_def)
    moreover have "waiter_ok now2 wt" using waiter_ok_later [OF wt now(2)] .
    ultimately show ?thesis using inv c sok ch old p(6) unfolding s' sys_inv_def by auto
  qed
qed

text \<open>Shutdown, and every step.\<close>

lemma sys_inv_close:
  assumes "sys_inv s" "\<not> q_closed (sy_q s)"
  shows "sys_inv (s\<lparr>sy_q := Close_begin (sy_q s), sy_closing := True\<rparr>)"
proof -
  let ?q = "Close_begin (sy_q s)"
  have q: "q_kick ?q = q_kick (sy_q s)" "q_parked ?q = []" "q_done ?q = Some True"
    using assms(1) by (auto simp: Close_begin_def sys_inv_def)
  have "sched_ok ?q (sy_sched s) = sched_ok (sy_q s) (sy_sched s)"
    by (cases "sc_pc (sy_sched s)") (simp_all add: sched_ok_def kicked_def q)
  then show ?thesis using assms(1) q by (simp add: sys_inv_def parked_ok_def)
qed

lemma Close_finish_log: "Close_finish ls q w = (err, q', w') \<Longrightarrow> \<exists>l. q' = q\<lparr>q_log := l\<rparr>"
  by (auto simp: Close_finish_def compactLocked_def split: prod.splits if_splits)

lemma sys_inv_finish:
  assumes "sys_inv s" "Close_finish ls (sy_q s) (sy_w s) = (err, q, w)"
  shows "sys_inv (s\<lparr>sy_q := q, sy_w := w, sy_closing := False\<rparr>)"
proof -
  obtain l where q: "q = (sy_q s)\<lparr>q_log := l\<rparr>" using Close_finish_log [OF assms(2)] by blast
  have "sched_ok q (sy_sched s) = sched_ok (sy_q s) (sy_sched s)"
    by (cases "sc_pc (sy_sched s)") (simp_all add: sched_ok_def kicked_def q)
  then show ?thesis using assms(1) by (simp add: sys_inv_def parked_ok_def q)
qed

lemma waiter_ok_enter:
  assumes "now + wait \<le> fire" "err \<noteq> None \<longrightarrow> cancellable"
  shows "waiter_ok now' (Receive_enter vis wait cancellable err now fire)"
  using assms by (auto simp: waiter_ok_def Receive_enter_def)

lemma sys_inv_step:
  assumes inv: "sys_inv s" and st: "sys_step ls s s'"
  shows "sys_inv s'"
  using st
proof cases
  case sched
  then show ?thesis by (rule sys_inv_sched [OF inv])
next
  case (callback g)
  then show ?thesis by (intro sys_inv_callback [OF inv])
next
  case late
  then show ?thesis using sys_inv_late [OF inv] by simp
next
  case (tick t)
  then show ?thesis using inv waiter_ok_later [of "sy_now s" _ t] by (auto simp: sys_inv_def)
next
  case (cancel g wt e)
  then show ?thesis using sys_inv_cancel [OF inv] by simp
next
  case (enqueue now body prio delay rnd res q w)
  then show ?thesis using sys_inv_enqueue [OF inv] by simp
next
  case (ack r err q w)
  then show ?thesis using sys_inv_ack [OF inv] by simp
next
  case (nack r delay err q w)
  then show ?thesis using sys_inv_nack [OF inv] by simp
next
  case (receive g now0 wait fire now1 now2 err cancellable vis rnd)
  have "g \<notin> set (q_parked (sy_q s))" using inv receive(1) by (auto simp: sys_inv_def)
  then show ?thesis
    using sys_inv_receive [OF inv receive(8)] receive waiter_ok_enter [OF receive(3,6)] by (simp add: Receive_enter_def)
next
  case (resume g wt now1 now2 rnd)
  have "waiter_ok now1 wt" using inv resume(1,3) waiter_ok_later [of "sy_now s" wt now1] by (auto simp: sys_inv_def)
  then show ?thesis using sys_inv_receive [OF inv resume(6,3,4,5)] resume(2) by blast
next
  case close
  then show ?thesis using sys_inv_close [OF inv] by simp
next
  case (finish err q w)
  then show ?thesis using sys_inv_finish [OF inv] by simp
qed

lemma sys_inv_init:
  assumes "queue_inv q" "q_parked q = []" "\<not> q_closed q"
  shows "sys_inv (sys_init q w now)"
  using assms by (simp add: sys_inv_def sys_init_def parked_ok_def sched_ok_def sched_start_def start_def)

lemma reachable_inv: "reachable ls s \<Longrightarrow> sys_inv s"
  by (induction rule: reachable.induct) (auto intro: sys_inv_init sys_inv_step)

section \<open>Progress\<close>

inductive sched_runs :: "('l, 'w) system \<Rightarrow> ('l, 'w) system \<Rightarrow> bool" where
  refl: "sched_runs s s"
| step: "sched_step s s1 \<Longrightarrow> sched_runs s1 s2 \<Longrightarrow> sched_runs s s2"

inductive callback_runs :: "nat \<Rightarrow> ('l, 'w) system \<Rightarrow> ('l, 'w) system \<Rightarrow> bool" for g where
  refl: "callback_runs g s s"
| step: "callback_step g s s1 \<Longrightarrow> callback_runs g s1 s2 \<Longrightarrow> callback_runs g s s2"

text \<open>The scheduler on its own can come to the point where everything due at \<open>sy_now s\<close> is filed.\<close>

definition files_due :: "('l, 'w) system \<Rightarrow> bool" where
  "files_due s \<longleftrightarrow> (\<exists>s'. sched_runs s s' \<and> sy_now s' = sy_now s
     \<and> view (sy_q s') = a_expire (sy_now s) (a_promote (sy_now s) (view (sy_q s))))"

lemma files_due_step:
  assumes "sched_step s s1" "view (sy_q s1) = view (sy_q s)" "sy_now s1 = sy_now s" "files_due s1"
  shows "files_due s"
  using assms sched_runs.step [OF assms(1)] unfolding files_due_def by auto

lemma files_due_loop:
  assumes "sys_inv s" "sc_pc (sy_sched s) = SLoop"
  shows "files_due s"
proof -
  have "queue_inv (sy_q s)" using assms(1) by (simp add: sys_inv_def)
  then obtain q where p: "processDue (sy_now s) (sy_q s) = Some (next_due q, q)"
      "view q = a_expire (sy_now s) (a_promote (sy_now s) (view (sy_q s)))" by (rule processDue_effect)
  let ?s = "s\<lparr>sy_q := q, sy_sched := (sy_sched s)\<lparr>sc_pc := SArm (next_due q)\<rparr>\<rparr>"
  have "sched_step s ?s" by (rule sched_step.process [OF assms(2)]) (simp add: sched_process_def p(1))
  then have "sched_runs s ?s" by (rule sched_runs.step [OF _ sched_runs.refl])
  then show ?thesis unfolding files_due_def using p(2) by (intro exI [of _ ?s]) simp
qed

lemma files_due_timer:
  assumes inv: "sys_inv s" and pc: "sc_pc (sy_sched s) = SSelect" and C: "t_C (sc_timer (sy_sched s))"
  shows "files_due s"
proof -
  note st = sched_step.on_timer [OF pc C]
  show ?thesis
    by (rule files_due_step [OF st _ _ files_due_loop [OF sys_inv_sched [OF inv st]]]) (simp_all add: select_timer_def)
qed

lemma files_due_select:
  assumes inv: "sys_inv s" and pc: "sc_pc (sy_sched s) = SSelect" and due: "p \<in> pending (view (sy_q s))" "p \<le> sy_now s"
  shows "files_due s"
proof -
  consider "kicked (sy_q s)" | "t_C (sc_timer (sy_sched s))" | "covers (t_at (sc_timer (sy_sched s))) (pending (view (sy_q s)))"
    using inv pc by (auto simp: sys_inv_def sched_ok_def)
  then show ?thesis
  proof cases
    case 1
    obtain q sc where sk: "select_kick (sy_q s, sy_sched s) = (q, sc)" by force
    note st = sched_step.on_kick [OF pc 1 [unfolded kicked_def] sk]
    have "sc_pc sc = SLoop" "view q = view (sy_q s)" using sk by (auto simp: select_kick_def Let_def)
    then show ?thesis by (intro files_due_step [OF st _ _ files_due_loop [OF sys_inv_sched [OF inv st]]]) simp_all
  next
    case 2
    then show ?thesis by (rule files_due_timer [OF inv pc])
  next
    case 3
    then obtain t where t: "t_at (sc_timer (sy_sched s)) = Some t" "t \<le> sy_now s" using due by (force simp: covers_def)
    note st = sched_step.fire [OF t]
    show ?thesis
      by (rule files_due_step [OF st _ _ files_due_timer [OF sys_inv_sched [OF inv st]]]) (use pc in \<open>simp_all add: timer_fire_def\<close>)
  qed
qed

lemma scheduler_progress:
  assumes inv: "sys_inv s" and pc: "sc_pc (sy_sched s) \<noteq> SStopped" and due: "p \<in> pending (view (sy_q s))" "p \<le> sy_now s"
  shows "files_due s"
proof (cases "sc_pc (sy_sched s)")
  case SLoop
  then show ?thesis by (rule files_due_loop [OF inv])
next
  case (SArm nxt)
  note st = sched_step.arm [OF SArm]
  have sel: "sc_pc (sy_sched (s\<lparr>sy_sched := sched_arm nxt (sy_sched s)\<rparr>)) = SSelect" by (simp add: sched_arm_def)
  show ?thesis by (rule files_due_step [OF st _ _ files_due_select [OF sys_inv_sched [OF inv st] sel]]) (use due in auto)
next
  case SSelect
  then show ?thesis by (rule files_due_select [OF inv _ due])
qed (use pc in simp)

text \<open>A parked receiver whose time is up, or whose context is over, is woken by its own callbacks.\<close>

lemma callback_wakes:
  assumes "sy_waiters s g = Some wt" "wt_timer wt = CbLocking \<or> wt_watcher wt = CbLocking"
  shows "\<exists>s'. callback_runs g s s' \<and> g \<notin> set (q_parked (sy_q s')) \<and> sy_waiters s' g \<noteq> None"
  using assms(2)
proof
  assume "wt_timer wt = CbLocking"
  from callback_step.timer_wakes [OF assms(1) this] show ?thesis
    by (intro exI conjI, rule callback_runs.step [OF _ callback_runs.refl]) simp_all
next
  assume "wt_watcher wt = CbLocking"
  from callback_step.watcher_wakes [OF assms(1) this] show ?thesis
    by (intro exI conjI, rule callback_runs.step [OF _ callback_runs.refl]) simp_all
qed

lemma receiver_progress:
  assumes inv: "sys_inv s" and g: "g \<in> set (q_parked (sy_q s))" "sy_waiters s g = Some wt"
    and over: "wt_fire wt \<le> sy_now s \<or> wt_err wt \<noteq> None"
  shows "\<exists>s'. callback_runs g s s' \<and> g \<notin> set (q_parked (sy_q s')) \<and> sy_waiters s' g \<noteq> None"
proof -
  have w: "wakeable wt" using inv g by (simp add: sys_inv_def)
  show ?thesis
  proof (cases "wt_timer wt = CbLocking \<or> wt_watcher wt = CbLocking")
    case True
    then show ?thesis by (rule callback_wakes [OF g(2)])
  next
    case False
    have "\<exists>s1 wt1. callback_step g s s1 \<and> sy_waiters s1 g = Some wt1 \<and> (wt_timer wt1 = CbLocking \<or> wt_watcher wt1 = CbLocking)"
    proof (cases "wt_fire wt \<le> sy_now s")
      case True
      then show ?thesis using callback_step.timer_fires [OF g(2)] w False by (fastforce simp: wakeable_def)
    next
      case False
      then have "wt_err wt \<noteq> None" using over by simp
      moreover from this have "wt_watcher wt = CbWaiting" using w \<open>\<not> (wt_timer wt = CbLocking \<or> wt_watcher wt = CbLocking)\<close> by (auto simp: wakeable_def)
      ultimately show ?thesis using callback_step.watcher_sees [OF g(2)] by fastforce
    qed
    then obtain s1 wt1 where s1: "callback_step g s s1" "sy_waiters s1 g = Some wt1" "wt_timer wt1 = CbLocking \<or> wt_watcher wt1 = CbLocking" by blast
    from callback_wakes [OF s1(2,3)] callback_runs.step [OF s1(1)] show ?thesis by blast
  qed
qed

text \<open>Once \<open>done\<close> is closed the scheduler can stop, wherever it is, so that \<open>Close\<close> can finish.\<close>

definition can_stop :: "('l, 'w) system \<Rightarrow> bool" where
  "can_stop s \<longleftrightarrow> (\<exists>s'. sched_runs s s' \<and> sc_pc (sy_sched s') = SStopped \<and> sy_closing s' = sy_closing s \<and> sy_w s' = sy_w s)"

lemma can_stop_step: "sched_step s s1 \<Longrightarrow> can_stop s1 \<Longrightarrow> sy_closing s1 = sy_closing s \<Longrightarrow> sy_w s1 = sy_w s \<Longrightarrow> can_stop s"
  unfolding can_stop_def using sched_runs.step by metis

lemma can_stop_select:
  assumes "sc_pc (sy_sched s) = SSelect" "q_done (sy_q s) = Some True"
  shows "can_stop s"
proof -
  have "can_stop (s\<lparr>sy_sched := select_done (sy_sched s)\<rparr>)"
    unfolding can_stop_def by (intro exI conjI, rule sched_runs.refl) (simp_all add: select_done_def)
  then show ?thesis by (rule can_stop_step [OF sched_step.on_done [OF assms]]) simp_all
qed

lemma can_stop_arm:
  assumes "sc_pc (sy_sched s) = SArm nxt" "q_done (sy_q s) = Some True"
  shows "can_stop s"
  by (rule can_stop_step [OF sched_step.arm [OF assms(1)] can_stop_select]) (use assms(2) in \<open>simp_all add: sched_arm_def\<close>)

lemma scheduler_stops:
  assumes inv: "sys_inv s" and d: "q_done (sy_q s) = Some True"
  shows "can_stop s"
proof (cases "sc_pc (sy_sched s)")
  case SLoop
  have qi: "queue_inv (sy_q s)" using inv by (simp add: sys_inv_def)
  obtain q where p: "processDue (sy_now s) (sy_q s) = Some (next_due q, q)" by (rule processDue_effect [OF qi])
  let ?s = "s\<lparr>sy_q := q, sy_sched := (sy_sched s)\<lparr>sc_pc := SArm (next_due q)\<rparr>\<rparr>"
  have st: "sched_step s ?s" by (rule sched_step.process [OF SLoop]) (simp add: sched_process_def p)
  have "q_done (sy_q ?s) = Some True" using processDue_signals(2) [OF qi p] d by simp
  then show ?thesis by (intro can_stop_step [OF st can_stop_arm]) simp_all
next
  case (SArm nxt)
  then show ?thesis by (rule can_stop_arm [OF _ d])
next
  case SSelect
  then show ?thesis by (rule can_stop_select [OF _ d])
next
  case SStopped
  then show ?thesis unfolding can_stop_def using sched_runs.refl [of s] by blast
qed

end
