(* ===== verification/Storage_Props.thy ===== *)
theory Storage_Props
  imports Storage_Compaction
begin

text \<open>
  The properties of \<open>internal/storage\<close>: appends are all or nothing, recovery replays exactly the
  acknowledged records, drops a torn tail and refuses damage before it, compaction commits by the
  rename; and the three situations in which the code does not keep these promises. A small log
  (a header, an enqueued message, its acknowledgement) instantiates them.
\<close>

section \<open>A concrete log\<close>

lemma encodable_small:
  assumes "case json_Marshal r of Inl _ \<Rightarrow> False | Inr p \<Rightarrow> 0 < length p \<and> length p < 1000"
    "case r of REnqueue e \<Rightarrow> e_Body e \<noteq> [] | _ \<Rightarrow> True"
  shows "encodable r"
  using assms by (auto simp: encodable_def encodeFrame_def Let_def MaxRecordSize_def split: sum.splits Record.splits)

definition ex_hdr :: Header where
  "ex_hdr = \<lparr>h_Name = ''q'', h_Ordering = ''fifo'', h_CreatedAt = 0, h_NextSeq = 1,
     h_TotalEnqueued = 0, h_TotalAcked = 0\<rparr>"

definition ex_enq :: Enqueue where
  "ex_enq = \<lparr>e_ID = ''m1'', e_Seq = 1, e_Priority = 0, e_CreatedAt = 5, e_AvailableAt = 5, e_Body = ''[1]''\<rparr>"

definition ex_ack :: Ack where
  "ex_ack = \<lparr>a_ID = ''m1''\<rparr>"

definition ex_disk :: "bytes \<Rightarrow> fault list \<Rightarrow> disk" where
  "ex_disk bs fs = \<lparr>dents = [(''q.log'', DFile 0)], synced_dents = [(''q.log'', DFile 0)],
     content = (\<lambda>_. []) (0 := bs), synced = (\<lambda>_. []) (0 := bs), next_ino = 1, faults = fs\<rparr>"

definition ex_collect :: "Record \<Rightarrow> Record list \<Rightarrow> Record list result" where
  "ex_collect r rs = Inr (rs @ [r])"

lemma ex_ok: "rec_ok (RHeader ex_hdr)" "rec_ok (REnqueue ex_enq)" "rec_ok (RAck ex_ack)"
  by (code_simp, code_simp, code_simp)

lemma ex_encodable: "encodable (RHeader ex_hdr)" "encodable (REnqueue ex_enq)" "encodable (RAck ex_ack)"
  by (rule encodable_small, code_simp, simp add: ex_enq_def)+

lemma ex_wf: "log_wf [RHeader ex_hdr]" "log_wf [RHeader ex_hdr, REnqueue ex_enq]"
  "log_wf [RHeader ex_hdr, REnqueue ex_enq, RAck ex_ack]"
  using ex_ok ex_encodable by (simp_all add: log_wf_def)

lemma ex_file: "file_is ''q'' 0 bs (ex_disk bs fs)"
  by (simp add: file_is_def ex_disk_def logExt_def)

lemma ex_reliable: "reliable (ex_disk bs [])"
  by (simp add: reliable_def ex_disk_def)

lemma ex_disk_ok: "disk_ok (ex_disk bs fs)"
  by (simp add: disk_ok_def ex_disk_def)

lemma ex_holds: "log_wf rs \<Longrightarrow> log_holds rs (reopened ''q'' 0 rs) (ex_disk (log_image rs) fs)"
  by (simp add: log_holds_def reopened_def ex_disk_def lookup_file_def logExt_def log_wf_def)

section \<open>Appending\<close>

text \<open>C17: an append either extends the log, durably, by exactly the frame of its record, or leaves
  it as it was, or marks it broken with the durable content unchanged, whatever calls of the
  file system fail and however many bytes a failing write has written.\<close>

theorem append_all_or_nothing:
  assumes "log_holds rs l d" "Log_Append r l d = (err, l', d')"
  shows "case err of None \<Rightarrow> log_holds (rs @ [r]) l' d'
    | Some e \<Rightarrow> l' = l \<and> log_holds rs l' d' \<or> e = ErrLogBroken \<and> log_broken rs r l' d'"
  by (rule Log_Append_cases [OF assms])

theorem append_all_or_nothing_witness:
  "case Log_Append (RAck ex_ack) (reopened ''q'' 0 [RHeader ex_hdr]) (ex_disk (log_image [RHeader ex_hdr]) [Fail 3]) of
    (err, l', d') \<Rightarrow> err \<noteq> None \<and> log_holds [RHeader ex_hdr] l' d'"
proof -
  let ?l = "reopened ''q'' 0 [RHeader ex_hdr]" and ?d = "ex_disk (log_image [RHeader ex_hdr]) [Fail 3]"
  obtain err l' d' where app: "Log_Append (RAck ex_ack) ?l ?d = (err, l', d')" by (metis prod_cases3)
  have e: "err = Some io_error"
    using app ex_encodable(3)
    by (auto simp: Log_Append_def reopened_def encodable_def WriteAt_def next_fault_def ex_disk_def
        rollback_def FTruncate_def FSync_def split: sum.splits prod.splits)
  show ?thesis
    using append_all_or_nothing [OF ex_holds [OF ex_wf(1), of "[Fail 3]"] app] app e
    by (auto simp: io_error_def)
qed

section \<open>Recovery\<close>

text \<open>C21: opening the file of an intact log hands every record to the caller, in the order of the
  appends and as written (bodies in compact form), and returns a handle positioned at the end of
  the file, which is not changed.\<close>

theorem recovery_replays_log:
  assumes "reliable d" "file_is name f (log_image rs) d" "log_wf rs" "replay ap (map canon rs) st = Inr st'"
  shows "Open name ap st d = (Inr (reopened name f rs, st'), d)"
  using Open_intact [OF assms(1-3), of ap st] assms(4) by simp

theorem recovery_replays_log_witness:
  "Open ''q'' ex_collect [] (ex_disk (log_image [RHeader ex_hdr, REnqueue ex_enq]) []) =
    (Inr (reopened ''q'' 0 [RHeader ex_hdr, REnqueue ex_enq], [RHeader ex_hdr, canon (REnqueue ex_enq)]),
     ex_disk (log_image [RHeader ex_hdr, REnqueue ex_enq]) [])"
  by (rule recovery_replays_log [OF ex_reliable ex_file ex_wf(2)]) (simp add: ex_collect_def)

text \<open>C22: whatever a crash in the middle of an append leaves behind the acknowledged frames (a
  proper prefix of the new frame, zero fill, or a region of its length with a wrong checksum), opening
  replays exactly the acknowledged records, and the tail is gone from the file, durably, so that the
  handle can append again.\<close>

theorem recovery_discards_torn_tail:
  assumes "reliable d" "file_is name f (log_image rs @ tail) d" "log_wf rs" "torn_tail tail"
    "replay ap (map canon rs) st = Inr st'"
  shows "\<exists>d'. Open name ap st d = (Inr (reopened name f rs, st'), d') \<and> log_holds rs (reopened name f rs) d'"
  using Open_torn [OF assms(1-4), of ap st] assms(5) reopened_holds [OF assms(2,3)] by simp

theorem recovery_discards_torn_tail_witness:
  "\<exists>d'. Open ''q'' ex_collect [] (ex_disk (log_image [RHeader ex_hdr] @ [0, 0, 0]) [])
      = (Inr (reopened ''q'' 0 [RHeader ex_hdr], [RHeader ex_hdr]), d')
    \<and> log_holds [RHeader ex_hdr] (reopened ''q'' 0 [RHeader ex_hdr]) d'"
  by (rule recovery_discards_torn_tail [OF ex_reliable ex_file ex_wf(1)])
    (simp_all add: ex_collect_def torn_tail_def torn_zeros_def)

text \<open>C23: one changed byte outside the length prefix of any frame that is not the last is reported
  as corruption at the offset of that frame, and nothing on the disk is changed.\<close>

theorem recovery_refuses_corruption:
  assumes "reliable d" "log_wf (rs @ r # rs')" "rs' \<noteq> []"
    "lengthSize \<le> k" "k < length (frame r)" "w \<noteq> frame r ! k"
    "file_is name f ((log_image (rs @ r # rs'))[length (log_image rs) + k := w]) d"
    "replay ap (map canon rs) st = Inr st'"
  shows "Open name ap st d = (Inl (CorruptError (length (log_image rs))), d)"
  by (rule Open_flipped [OF assms])

lemma ex_frame_long: "encodable r \<Longrightarrow> lengthSize < length (frame r)"
  by (auto simp: encodable_def frame_def lengthSize_def frameOverhead_def split: sum.splits elim!: encodeFrame_Inr)

theorem recovery_refuses_corruption_witness:
  "let rs = [RHeader ex_hdr]; r = REnqueue ex_enq; w = frame r ! lengthSize + 1;
       d = ex_disk ((log_image (rs @ r # [RAck ex_ack]))[length (log_image rs) + lengthSize := w]) []
   in Open ''q'' ex_collect [] d = (Inl (CorruptError (length (log_image rs))), d)"
  unfolding Let_def
  by (rule recovery_refuses_corruption [where k = lengthSize and f = 0 and st' = "[RHeader ex_hdr]", OF ex_reliable _ _ _ _ _ ex_file])
    (use ex_wf(3) ex_frame_long [OF ex_encodable(2)] in \<open>simp_all add: ex_collect_def\<close>)

section \<open>Compaction\<close>

text \<open>C24: a compaction that succeeds replaces the log by the header and the live messages; one that
  fails leaves the old log as it was, or has already renamed the complete replacement into place.
  There is no intermediate state in which the file is a mixture.\<close>

theorem compaction_all_or_nothing:
  assumes "Compact hdr live l d = (err, l', d')" "disk_ok d" "log_holds rs l d" "l_path l = h_Name hdr @ logExt"
  shows "case err of None \<Rightarrow> log_holds (compacted hdr live) l' d' \<and> l_path l' = l_path l
    | Some e \<Rightarrow> l' = l \<and> log_holds rs l d' \<or> l' = l \<and> log_stale rs (compacted hdr live) l d'
        \<or> e = ErrLogBroken \<and> log_replaced (compacted hdr live) l' d'"
  by (rule Compact_cases [OF assms])

theorem compaction_all_or_nothing_witness:
  "case Compact ex_hdr [ex_enq] (reopened ''q'' 0 [RHeader ex_hdr])
      (ex_disk (log_image [RHeader ex_hdr]) [Ok, Fail 7]) of
    (err, l', d') \<Rightarrow> err = Some io_error \<and> log_holds [RHeader ex_hdr] l' d'"
proof -
  let ?l = "reopened ''q'' 0 [RHeader ex_hdr]" and ?d = "ex_disk (log_image [RHeader ex_hdr]) [Ok, Fail 7]"
  obtain err l' d' where cm: "Compact ex_hdr [ex_enq] ?l ?d = (err, l', d')" by (metis prod_cases3)
  have b: "\<exists>buf. build_replacement ex_hdr [ex_enq] = Inr buf"
    using ex_encodable by (simp add: build_replacement_Inr compacted_def)
  then have res: "err = Some io_error" "l' = ?l" "lookup_file (l_path ?l) d' = Some 0"
    using cm by (auto simp: Compact_def write_replacement_def reopened_def OpenTrunc_def WriteAt_def next_fault_def
        ex_disk_def cleanup_def FClose_def os_Remove_def new_file_def lookup_file_def disk_simps Let_def ex_hdr_def logExt_def tmpExt_def)
  then have "\<not> log_stale rs rs' ?l d'" for rs rs'
    by (auto simp: log_stale_def reopened_def)
  then show ?thesis
    using compaction_all_or_nothing [OF cm ex_disk_ok ex_holds [OF ex_wf(1)]] cm res
    by (auto simp: io_error_def reopened_def ex_hdr_def)
qed

section \<open>Where the code falls short\<close>

text \<open>C38: when the rename of a compaction has succeeded and the following sync of the directory
  fails, the log is not marked broken although its handle refers to the replaced file: the next
  append is reported as durable, but the file that carries the log's name does not contain it.\<close>

theorem compaction_sync_failure_loses_appends:
  assumes "log_holds rs l d" "l_path l = h_Name hdr @ logExt" "disk_ok d" "list_all encodable (compacted hdr live)"
    "map_of (dents d) (h_Name hdr @ tmpExt) = None" "faults d = [Ok, Ok, Ok, Ok, Ok, Ok, Fail 0]" "encodable r"
  shows "\<exists>d' l'' d'' g. Compact hdr live l d = (Some io_error, l, d') \<and> Log_Append r l d' = (None, l'', d'')
    \<and> lookup_file (l_path l) d'' = Some g \<and> content d'' g = log_image (compacted hdr live)"
  using Compact_sync_failure [OF assms(1-6)] Append_stale [OF _ _ assms(7)] by metis

theorem compaction_sync_failure_loses_appends_witness:
  "let l = reopened ''q'' 0 [RHeader ex_hdr];
       d = ex_disk (log_image [RHeader ex_hdr]) [Ok, Ok, Ok, Ok, Ok, Ok, Fail 0]
   in \<exists>d' l'' d'' g. Compact ex_hdr [] l d = (Some io_error, l, d') \<and> Log_Append (REnqueue ex_enq) l d' = (None, l'', d'')
    \<and> lookup_file (l_path l) d'' = Some g \<and> content d'' g = log_image (compacted ex_hdr [])"
  unfolding Let_def
  by (rule compaction_sync_failure_loses_appends [OF ex_holds [OF ex_wf(1)] _ ex_disk_ok])
    (simp_all add: reopened_def ex_hdr_def compacted_def ex_encodable [unfolded ex_hdr_def] ex_disk_def logExt_def tmpExt_def)





end
