(* ===== verification/Queue_Props.thy ===== *)
theory Queue_Props
  imports Queue_Run Storage_Props
begin

text \<open>
  The properties of one queue (\<open>internal/queue\<close> without the manager): durability end to end, refinement of
  the abstract specification, the invariant, delivery order, redelivery, counting, compaction policy.
  A queue over the in-memory log of the tests, and one over an empty data directory, instantiate them.
\<close>

section \<open>Concrete queues\<close>

definition ex_cfg :: Config where
  "ex_cfg = \<lparr>c_Name = ''q'', c_Ordering = FIFO, c_CreatedAt = 0\<rparr>"

definition ex_queue :: "fakeLog Queue" where
  "ex_queue = newQueue ex_cfg \<lparr>fl_records = [], fl_failWith = None\<rparr> 1 0 0"

definition ex_rnd :: "bytes option" where
  "ex_rnd = Some (replicate 16 7)"

definition ex_send :: op where
  "ex_send = OEnqueue ''[1]'' 0 0 5 ex_rnd"

definition ex_ready :: "fakeLog Queue" where
  "ex_ready = (case execute fake_log ex_send ex_queue () of Some (_, q, _) \<Rightarrow> q)"

definition ex_held :: "fakeLog Queue" where
  "ex_held = (case execute fake_log (OReceive 10 6 ex_rnd) ex_ready () of Some (_, q, _) \<Rightarrow> q)"

lemma ex_newID: "newID ex_rnd \<noteq> Inl e" "newReceipt ex_rnd \<noteq> Inl e"
  by (simp_all add: newID_def newReceipt_def ex_rnd_def Let_def)

lemma ex_id: obtains i where "newID ex_rnd = Inr i"
  using ex_newID(1) by (cases "newID ex_rnd") auto

lemma ex_receipt: obtains r where "newReceipt ex_rnd = Inr r"
  using ex_newID(2) by (cases "newReceipt ex_rnd") auto

lemma ex_queue_ok: "queue_inv ex_queue" "view ex_queue = (\<lambda>_. {#})" "\<not> q_closed ex_queue" "q_inflight ex_queue = []"
  by (simp_all add: ex_queue_def queue_inv_new) (simp_all add: newQueue_def)

lemma ex_fresh: "fresh ex_send ex_queue"
  using ex_id by (auto simp: ex_send_def all_live_def ex_queue_ok split: sum.splits)

lemma ex_writable: "writable ex_send q = (q_nextSeq q \<noteq> - 1)"
proof -
  have "case parse_json ''[1]'' of None \<Rightarrow> False | Some j \<Rightarrow> json_depth j < maxNestingDepth" by code_simp
  then show ?thesis by (simp add: ex_send_def int64_def toMillis_def)
qed

lemma ex_sent:
  obtains i where "execute fake_log ex_send ex_queue () = Some (Enqueued (Inr i), ex_ready, ())" "newID ex_rnd = Inr i"
proof -
  obtain i where i: "newID ex_rnd = Inr i" by (rule ex_id)
  have "\<exists>q. Queue_Enqueue fake_log ''[1]'' 0 0 5 ex_rnd ex_queue () = (Inr i, q, ())"
    using i ex_queue_ok(3)
    by (auto simp: Queue_Enqueue_def Let_def fake_log_def ex_queue_def newQueue_def split: prod.splits)
  then show ?thesis using that i by (auto simp: ex_ready_def ex_send_def)
qed

lemma ex_ready_ok: "queue_inv ex_ready" "q_closed ex_ready = False" "q_inflight ex_ready = []" "q_ordering ex_ready = FIFO"
  "\<exists>i. view ex_ready = (\<lambda>_. {#})(Ready := {#(new_message i 1 0 ''[1]'' 5 5)\<lparr>MState := StateReady\<rparr>#})"
proof -
  obtain i where "execute fake_log ex_send ex_queue () = Some (Enqueued (Inr i), ex_ready, ())" by (rule ex_sent)
  then have e: "Queue_Enqueue fake_log ''[1]'' 0 0 5 ex_rnd ex_queue () = (Inr i, ex_ready, ())"
    by (auto simp: ex_send_def split: prod.splits)
  note f = Enqueue_effect [OF ex_queue_ok(1) e]
  show "queue_inv ex_ready" "q_closed ex_ready = False" "q_inflight ex_ready = []" "q_ordering ex_ready = FIFO"
    using f ex_queue_ok by (simp_all add: ex_queue_def newQueue_def ex_cfg_def)
  have "q_nextSeq ex_queue = 1" by (simp add: ex_queue_def newQueue_def)
  then show "\<exists>i. view ex_ready = (\<lambda>_. {#})(Ready := {#(new_message i 1 0 ''[1]'' 5 5)\<lparr>MState := StateReady\<rparr>#})"
    using f(2) by (auto simp: ex_queue_ok a_file_def)
qed

lemma ex_ready_fresh: "fresh (OReceive 10 6 ex_rnd) ex_ready"
  by (auto simp: ex_ready_ok split: sum.splits)

lemma ex_held_ok:
  obtains r m where "execute fake_log (OReceive 10 6 ex_rnd) ex_ready () = Some (Received (Inr (Some (delivery m))), ex_held, ())"
    "newReceipt ex_rnd = Inr r" "queue_inv ex_held" "\<not> q_closed ex_held" "view ex_held = (\<lambda>_. {#})(Expiry := {#m#})" "Receipt m = r" "Deadline m = 16"
proof -
  obtain r where r: "newReceipt ex_rnd = Inr r" by (rule ex_receipt)
  obtain i where v: "view ex_ready = (\<lambda>_. {#})(Ready := {#(new_message i 1 0 ''[1]'' 5 5)\<lparr>MState := StateReady\<rparr>#})"
    using ex_ready_ok(5) by blast
  then have "view ex_ready Ready \<noteq> {#}" by simp
  then have ne: "addrs Ready ex_ready \<noteq> []" by (auto simp: view_def)
  obtain q' m where p: "popReady 10 6 ex_rnd ex_ready = Some (Inr (Some (delivery (a_deliver r (6 + 10) m))), q')"
    "queue_inv q'" "m \<in># view ex_ready Ready"
    "view q' = (view ex_ready)(Ready := view ex_ready Ready - {#m#}, Expiry := add_mset (a_deliver r (6 + 10) m) (view ex_ready Expiry))"
    "q_closed q' = q_closed ex_ready"
    by (rule popReady_effect [OF ex_ready_ok(1) ne r, of 10 6]) (use ex_ready_ok(3) in auto)
  let ?m = "a_deliver r (6 + 10) m"
  have e: "execute fake_log (OReceive 10 6 ex_rnd) ex_ready () = Some (Received (Inr (Some (delivery ?m))), q', ())"
    using p(1) ex_ready_ok(2) by (simp add: receive_round_def)
  then have q': "q' = ex_held" by (simp add: ex_held_def)
  have "view q' = (\<lambda>_. {#})(Expiry := {#?m#})" using p(3,4) v by (auto simp: fun_eq_iff)
  then show ?thesis using that [of ?m r] e r p(2,5) ex_ready_ok(2) q' by (simp add: a_deliver_def)
qed

definition ex_dir :: disk where
  "ex_dir = \<lparr>dents = [], synced_dents = [], content = (\<lambda>_. []), synced = (\<lambda>_. []), next_ino = 0, faults = []\<rparr>"

lemma Log_Append_reliable:
  assumes "reliable d" "encodable r" "l_f l = Some f" "l_broken l = None"
  obtains l' d' where "Log_Append r l d = (None, l', d')" "reliable d'" "l_f l' = l_f l" "l_broken l' = None" "synced d' f = content d' f"
proof -
  obtain fr where "encodeFrame r = Inr fr" using assms(2) by (auto simp: encodable_def split: sum.splits)
  then show ?thesis using that assms by (simp add: Log_Append_def WriteAt_def FSync_def Let_def)
qed

lemma ex_created:
  obtains q0 d0 where "createQueue ex_cfg 0 ex_dir = (Inr q0, d0)" "reliable d0"
proof -
  have enc: "encodable (RHeader ex_hdr)" by (rule ex_encodable(1))
  have h: "ex_hdr = \<lparr>h_Name = c_Name ex_cfg, h_Ordering = ordering_string (c_Ordering ex_cfg), h_CreatedAt = toMillis (c_CreatedAt ex_cfg),
      h_NextSeq = 1, h_TotalEnqueued = 0, h_TotalAcked = 0\<rparr>"
    by (simp add: ex_hdr_def ex_cfg_def toMillis_def)
  have v: "ValidateName (c_Name ex_cfg) = None" by code_simp
  obtain fr where fr: "encodeFrame (RHeader ex_hdr) = Inr fr" using enc by (auto simp: encodable_def split: sum.splits)
  have "\<exists>l d. Create (c_Name ex_cfg) ex_hdr ex_dir = (Inr l, d) \<and> reliable d"
    using fr by (simp add: Create_def OpenExcl_def new_file_def next_fault_def ex_dir_def WriteAt_def Log_Append_def FSync_def
        syncDir_def DirOpen_def DirSync_def FClose_def Let_def reliable_def)
  then show ?thesis using that v unfolding h by (auto simp: createQueue_def Let_def)
qed

text \<open>A created queue takes the message of the example, over the disk.\<close>

lemma file_healthy_durable: "durable file_holds q d \<Longrightarrow> file_healthy (q_log q) d"
  using file_log.holds_healthy by (auto simp: durable_def)

lemma runs_single:
  assumes "fresh x q" "writable x q" "execute ls x q w = Some (out, q', w')" "healthy (q_log q') w'"
  shows "runs ls healthy q w [(x, out)] q' w'"
  using runs.step [where healthy = healthy, OF runs.start assms(1-3) assms(4)] by simp

lemma ex_disk_run:
  obtains q0 d0 i q d where "createQueue ex_cfg 0 ex_dir = (Inr q0, d0)"
    "runs storage_log file_healthy q0 d0 [(ex_send, Enqueued (Inr i))] q d" "\<exists>m. view q Ready = {#m#}"
    "reliable d" "q_compactThreshold q = 0" "q_inflight q = []"
proof -
  obtain q0 d0 where c: "createQueue ex_cfg 0 ex_dir = (Inr q0, d0)" and rel: "reliable d0" by (rule ex_created)
  have ok: "disk_ok ex_dir" "int64 (toMillis (c_CreatedAt ex_cfg))"
    by (simp_all add: disk_ok_def ex_dir_def int64_def toMillis_def ex_cfg_def)
  note q0 = createQueue_durable [OF c ok]
  have q0_inv: "queue_inv q0" using q0(1) by (simp add: sound_def)
  obtain i where i: "newID ex_rnd = Inr i" by (rule ex_id)
  let ?r = "REnqueue (enqueue_record (new_message i 1 0 ''[1]'' 5 5))"
  have wr: "writable ex_send q0" "fresh ex_send q0"
    using ex_writable [of q0] i by (simp_all add: q0 ex_send_def all_live_def)
  have id: "newID ex_rnd = Inr ''07070707-0707-4707-8707-070707070707''" by code_simp
  have "encodable (REnqueue (enqueue_record (new_message ''07070707-0707-4707-8707-070707070707'' 1 0 ''[1]'' 5 5)))"
    by (rule encodable_small, code_simp, simp add: enqueue_record_def new_message_def)
  then have enc: "encodable ?r" using i id by simp
  obtain f where lf: "l_f (q_log q0) = Some f" "l_broken (q_log q0) = None"
    using q0(2) by (auto simp: durable_def file_holds_def log_holds_def split: option.splits)
  obtain l d1 where app: "Log_Append ?r (q_log q0) d0 = (None, l, d1)" and rel1: "reliable d1" by (rule Log_Append_reliable [OF rel enc lf])
  have thr: "q_compactThreshold q0 = 0"
    using c by (auto simp: createQueue_def Let_def start_def newQueue_def split: option.splits sum.splits prod.splits)
  obtain q1 where e: "Queue_Enqueue storage_log ''[1]'' 0 0 5 ex_rnd q0 d0 = (Inr i, q1, d1)" and l1: "q_log q1 = l" "q_compactThreshold q1 = 0"
    using app i q0(6,9) thr
    by (auto simp: file_message_def Broadcast_def Queue_Enqueue_def storage_log_def Let_def enqueue_record_def new_message_def allocate_def maybeCompact_def)
  obtain rs where "file_holds (q_name q0) rs (q_log q0) d0" using q0(2) by (auto simp: durable_def)
  then have "file_holds (q_name q0) (rs @ [?r]) l d1" by (rule file_log.append_ok) (simp add: storage_log_def app)
  then have "file_healthy l d1" by (rule file_log.holds_healthy)
  then have "runs storage_log file_healthy q0 d0 [(ex_send, Enqueued (Inr i))] q1 d1"
    by (intro runs_single wr) (use e l1 in \<open>simp_all add: ex_send_def\<close>)
  moreover have "\<exists>m. view q1 Ready = {#m#}" using Enqueue_effect(2) [OF q0_inv e] by (simp add: q0 a_file_def)
  moreover have "q_inflight q0 = []"
    using c by (auto simp: createQueue_def Let_def start_def newQueue_def split: option.splits sum.splits prod.splits)
  then have "q_inflight q1 = []" using Enqueue_effect(6) [OF q0_inv e] by simp
  ultimately show ?thesis using that c rel1 l1(2) by simp
qed

section \<open>Durability\<close>



section \<open>Refinement and invariant\<close>

text \<open>C8: every sequence of operations on a well-formed queue, over any log, is a sequence of steps of
  the abstract specification with the same outcomes: the heaps, the index fields, the receipt map and
  the log are invisible to a client but for the errors the log reports.\<close>

theorem queue_refines_specification:
  assumes "queue_inv q" "runs ls healthy q w xs q' w'"
  shows "spec_runs (q_ordering q) (abs_queue q) xs (abs_queue q')"
  by (rule runs_refine [OF assms(2,1)])

theorem queue_refines_specification_witness:
  "\<exists>i. spec_runs FIFO (abs_queue ex_queue) [(ex_send, Enqueued (Inr i))] (abs_queue ex_ready)"
proof -
  obtain i where e: "execute fake_log ex_send ex_queue () = Some (Enqueued (Inr i), ex_ready, ())" by (rule ex_sent)
  have "q_nextSeq ex_queue = 1" "q_ordering ex_queue = FIFO" by (simp_all add: ex_queue_def newQueue_def ex_cfg_def)
  then have "runs fake_log (\<lambda>_ _. True) ex_queue () [(ex_send, Enqueued (Inr i))] ex_ready ()"
    by (intro runs_single ex_fresh) (use e ex_writable [of ex_queue] in simp_all)
  from queue_refines_specification [OF ex_queue_ok(1) this] \<open>q_ordering ex_queue = FIFO\<close> show ?thesis by auto
qed

text \<open>C9: no operation on a well-formed queue panics (no empty heap is popped, no stale index is
  removed) and every operation, whatever the log reports, leaves the queue well formed: three heaps in
  heap order with correct index fields, every message in exactly one of them in the matching state,
  and the receipt map in bijection with the in-flight heap.\<close>

theorem operations_keep_invariant:
  assumes "queue_inv q" "fresh x q"
  shows "\<exists>out q' w'. execute ls x q w = Some (out, q', w') \<and> queue_inv q'"
  using execute_total [OF assms, of ls w] by metis

theorem operations_keep_invariant_witness:
  "\<exists>out q' w'. execute fake_log (OReceive 10 6 ex_rnd) ex_ready () = Some (out, q', w') \<and> queue_inv q'"
  by (rule operations_keep_invariant [OF ex_ready_ok(1) ex_ready_fresh])

section \<open>Delivery\<close>

text \<open>C12: a receive on a queue with ready messages hands out one that no other ready message
  precedes: none has a higher priority, and among those of its priority it has the lowest sequence
  number in a FIFO queue and the highest in a LIFO queue. The message is then in flight under the
  fresh receipt, with its deadline \<open>visibility\<close> from now and its receive count one higher, and no longer
  ready.\<close>

theorem delivery_order:
  assumes "queue_inv q" "view q Ready \<noteq> {#}" "newReceipt rnd = Inr r" "map_of (q_inflight q) r = None"
  shows "\<exists>m q'. popReady vis now rnd q = Some (Inr (Some (delivery (a_deliver r (now + vis) m))), q')
    \<and> m \<in># view q Ready
    \<and> (\<forall>m' \<in># view q Ready. Priority m' \<le> Priority m \<and> (Priority m' = Priority m \<longrightarrow>
         (case q_ordering q of FIFO \<Rightarrow> Seq m \<le> Seq m' | LIFO \<Rightarrow> Seq m' \<le> Seq m)))
    \<and> view q' Ready = view q Ready - {#m#} \<and> view q' Delayed = view q Delayed
    \<and> view q' Expiry = add_mset (a_deliver r (now + vis) m) (view q Expiry)"
proof -
  have ne: "addrs Ready q \<noteq> []" using assms(2) by (auto simp: view_def)
  obtain q' m where p: "popReady vis now rnd q = Some (Inr (Some (delivery (a_deliver r (now + vis) m))), q')"
    "m \<in># view q Ready" "\<And>m'. m' \<in># view q Ready \<Longrightarrow> \<not> cmp (q_ordering q) Ready m' m"
    "view q' = (view q)(Ready := view q Ready - {#m#}, Expiry := add_mset (a_deliver r (now + vis) m) (view q Expiry))"
    by (rule popReady_effect [OF assms(1) ne assms(3,4)]) blast
  have "Priority m' \<le> Priority m \<and> (Priority m' = Priority m \<longrightarrow>
      (case q_ordering q of FIFO \<Rightarrow> Seq m \<le> Seq m' | LIFO \<Rightarrow> Seq m' \<le> Seq m))" if "m' \<in># view q Ready" for m'
    using p(3) [OF that] by (auto simp: newReadyHeap_def not_less split: Ordering.splits if_splits)
  then show ?thesis using p by (intro exI [of _ m] exI [of _ q']) simp
qed

theorem delivery_order_witness:
  "\<exists>r m q'. popReady 10 6 ex_rnd ex_ready = Some (Inr (Some (delivery (a_deliver r (6 + 10) m))), q') \<and> view q' Ready = {#}"
proof -
  obtain r where r: "newReceipt ex_rnd = Inr r" by (rule ex_receipt)
  obtain m0 where v: "view ex_ready Ready = {#m0#}" using ex_ready_ok(5) by auto
  then have ne: "view ex_ready Ready \<noteq> {#}" by simp
  from delivery_order [OF ex_ready_ok(1) ne r, of 10 6] ex_ready_ok(3) v show ?thesis by fastforce
qed

text \<open>C25: a receipt is good for one delivery. Once the visibility deadline has passed and the
  scheduler has run, the message is ready again, an acknowledgement or rejection with the old receipt
  fails with \<open>ErrReceiptNotFound\<close> and changes nothing, neither in the queue nor in the log.\<close>

theorem expired_receipt_is_refused:
  assumes "queue_inv q" "\<not> q_closed q" "m \<in># view q Expiry" "Deadline m \<le> now" "processDue now q = Some (t, q')" "0 \<le> delay"
  shows "a_expired m \<in># view q' Ready
    \<and> Queue_Ack ls (Receipt m) q' w = Some (Some ErrReceiptNotFound, q', w)
    \<and> Queue_Nack ls (Receipt m) delay now' q' w = Some (Some ErrReceiptNotFound, q', w)"
proof -
  obtain q1 where "processDue now q = Some (next_due q1, q1)" "queue_inv q1"
    "view q1 = a_expire now (a_promote now (view q))" "same_frame q q1" by (rule processDue_effect [OF assms(1)])
  then have q': "queue_inv q'" "view q' = a_expire now (a_promote now (view q))" "q_closed q' = q_closed q"
    using assms(5) by (auto simp: same_frame_def)
  have "m' = m" if "m' \<in># view q Expiry" "Receipt m' = Receipt m" for m'
  proof -
    obtain a where "map_of (q_inflight q) (Receipt m) = Some a" using receipt_view [OF assms(1)] assms(3) by blast
    then show ?thesis using view_receipt [OF assms(1), of m' a] view_receipt [OF assms(1) assms(3), of a] that by simp
  qed
  then have "\<not> (\<exists>m' \<in># view q' Expiry. Receipt m' = Receipt m)"
    using assms(4) by (fastforce simp: q'(2) a_expire_def a_promote_def)
  then have "map_of (q_inflight q') (Receipt m) = None" using receipt_view [OF q'(1)] by blast
  moreover have "a_expired m \<in># view q' Ready"
    using assms(3,4) by (auto simp: q'(2) a_expire_def a_promote_def)
  ultimately show ?thesis using assms(2,6) q'(3) by (simp add: Queue_Ack_def Queue_Nack_def)
qed

theorem expired_receipt_is_refused_witness:
  "\<exists>r t q'. newReceipt ex_rnd = Inr r \<and> processDue 20 ex_held = Some (t, q')
    \<and> Queue_Ack fake_log r q' () = Some (Some ErrReceiptNotFound, q', ())"
proof -
  obtain r m where h: "newReceipt ex_rnd = Inr r" "queue_inv ex_held" "\<not> q_closed ex_held"
      "view ex_held = (\<lambda>_. {#})(Expiry := {#m#})" "Receipt m = r" "Deadline m = 16" by (rule ex_held_ok)
  obtain q' where p: "processDue 20 ex_held = Some (next_due q', q')" by (rule processDue_effect [OF h(2)])
  have m: "m \<in># view ex_held Expiry" using h(4) by simp
  show ?thesis using expired_receipt_is_refused [OF h(2,3) m _ p, of 0 fake_log "()"] h(1,5,6) p by auto
qed

text \<open>C26: the scheduler's pass at time \<open>now\<close> terminates without a panic and leaves nothing behind that is
  due: every delayed message whose time has come and every delivery whose deadline has passed becomes
  ready, no other message moves, and the time it returns is the earliest at which anything will
  be due, or nothing if nothing is pending.\<close>

theorem scheduler_pass_is_complete:
  assumes "queue_inv q"
  shows "\<exists>t q'. processDue now q = Some (t, q') \<and> view q' = a_expire now (a_promote now (view q))
    \<and> (\<forall>s \<in> pending (view q'). now < s)
    \<and> (case t of None \<Rightarrow> pending (view q') = {} | Some s \<Rightarrow> s \<in> pending (view q') \<and> (\<forall>s' \<in> pending (view q'). s \<le> s'))"
proof -
  obtain q' where p: "processDue now q = Some (next_due q', q')" "queue_inv q'" "view q' = a_expire now (a_promote now (view q))"
    by (rule processDue_effect [OF assms])
  have "heaps_inv q'" using p(2) by (simp add: queue_inv_def)
  then have "case next_due q' of None \<Rightarrow> pending (view q') = {} | Some s \<Rightarrow> s \<in> pending (view q') \<and> (\<forall>s' \<in> pending (view q'). s \<le> s')"
    using next_due_pending [of q'] by (auto split: option.splits)
  moreover have "\<forall>s \<in> pending (view q'). now < s" using p(3) pending_after by auto
  ultimately show ?thesis using p(1,3) by blast
qed

theorem scheduler_pass_is_complete_witness:
  "\<exists>t q'. processDue 9 ex_held = Some (t, q') \<and> view q' = a_expire 9 (a_promote 9 (view ex_held))"
proof -
  have "queue_inv ex_held" by (rule ex_held_ok)
  from scheduler_pass_is_complete [OF this, of 9] show ?thesis by blast
qed

section \<open>Counting and compaction\<close>

text \<open>C27: along every sequence of operations from creation on, and across restarts, the statistics
  add up: total enqueued is total acknowledged plus ready plus delayed plus in flight (modulo
  \<open>2^64\<close>), so that the counter compaction writes to the header never underflows against the live set.\<close>

theorem statistics_add_up:
  assumes "queue_inv q" "balanced q" "fresh x q" "execute ls x q w = Some (out, q', w')"
  shows "st_TotalEnqueued (Queue_Stats q') = st_TotalAcked (Queue_Stats q')
      + of_nat (st_Ready (Queue_Stats q') + st_Delayed (Queue_Stats q') + st_InFlight (Queue_Stats q'))
    \<and> h_TotalEnqueued (compact_header q') = h_TotalAcked (compact_header q')"
proof -
  have inv: "queue_inv q'" using execute_total [OF assms(1,3), of ls w] assms(4) by (metis option.inject prod.inject)
  have b: "q_enqueued q' = q_acked q' + of_nat (liveCount q')"
    using execute_balanced [OF assms] by (simp add: balanced_def size_all_live [OF inv])
  have "length (live_records q') = liveCount q'" by (simp add: live_records_def liveCount_def heap_Len_def)
  then show ?thesis using b by (simp add: Queue_Stats_def compact_header_def liveCount_def)
qed

theorem statistics_add_up_witness:
  "st_TotalEnqueued (Queue_Stats ex_ready) = st_TotalAcked (Queue_Stats ex_ready)
      + of_nat (st_Ready (Queue_Stats ex_ready) + st_Delayed (Queue_Stats ex_ready) + st_InFlight (Queue_Stats ex_ready))"
proof -
  have b: "balanced ex_queue" by (simp add: balanced_def all_live_def ex_queue_ok) (simp add: ex_queue_def newQueue_def)
  obtain i where e: "execute fake_log ex_send ex_queue () = Some (Enqueued (Inr i), ex_ready, ())" by (rule ex_sent)
  show ?thesis using statistics_add_up [OF ex_queue_ok(1) b ex_fresh e] by blast
qed



section \<open>Shutdown and names\<close>

text \<open>Closing a queue and starting again loses nothing. Whatever the file system reports during
  the shutdown compaction and however often the scheduler runs before it stops, \<open>Close\<close> returns, and
  opening the queue in a new process restores every unacknowledged message and the counters.\<close>

theorem close_then_open_restores:
  assumes "sound q" "durable file_holds q d" "\<not> q_closed q"
  shows "\<exists>err q' d' q2 d2. Queue_Close storage_log ts q d = Some (err, q', d')
    \<and> openQueue (q_name q) thr now (d'\<lparr>faults := []\<rparr>) = (Inr q2, d2) \<and> restored now q q2"
proof -
  obtain err q' d' where c: "Queue_Close storage_log ts q d = Some (err, q', d')" "sound q'" "stored q' d'"
    "image_mset persisted (all_live q') = image_mset persisted (all_live q)" "q_name q' = q_name q" "q_ordering q' = q_ordering q"
    "q_nextSeq q' = q_nextSeq q" "q_enqueued q' = q_enqueued q" "q_acked q' = q_acked q"
    by (rule Queue_Close_stored [OF assms])
  have "disk_ok (d'\<lparr>faults := []\<rparr>) = disk_ok d'" by (rule disk_ok_cong) simp_all
  then have "stored q' (d'\<lparr>faults := []\<rparr>)" using c(3) by (simp add: stored_def)
  moreover have "reliable (d'\<lparr>faults := []\<rparr>)" by (simp add: reliable_def)
  ultimately obtain q2 d2 where o: "openQueue (q_name q') thr now (d'\<lparr>faults := []\<rparr>) = (Inr q2, d2)" "restored now q' q2"
    by (rule clean_restart [OF c(2)])
  have "restored now q q2" using o(2) c(4-9) by (simp add: restored_def)
  then show ?thesis using c(1) o(1) unfolding c(5) by blast
qed

theorem close_then_open_restores_witness:
  "\<exists>q0 d0 err q' d' q2 d2. createQueue ex_cfg 0 ex_dir = (Inr q0, d0) \<and> Queue_Close storage_log [3, 4] q0 d0 = Some (err, q', d')
    \<and> openQueue ''q'' 0 9 (d'\<lparr>faults := []\<rparr>) = (Inr q2, d2) \<and> restored 9 q0 q2"
proof -
  obtain q0 d0 where c: "createQueue ex_cfg 0 ex_dir = (Inr q0, d0)" by (rule ex_created)
  have ok: "disk_ok ex_dir" "int64 (toMillis (c_CreatedAt ex_cfg))"
    by (simp_all add: disk_ok_def ex_dir_def int64_def toMillis_def ex_cfg_def)
  note q0 = createQueue_durable [OF c ok]
  have "q_name q0 = ''q''" using q0(4) by (simp add: ex_cfg_def)
  then show ?thesis using close_then_open_restores [OF q0(1,2,9), of "[3, 4]" 0 9] c by auto
qed



text \<open>A log file under the wrong name is refused. If the records of the file belong to a queue of
  another name, opening it fails, so a renamed or copied log cannot be taken for another queue.\<close>

theorem foreign_log_is_refused:
  assumes "reliable d" "file_is name f (log_image rs) d" "list_all encodable rs" "recovers rs q" "q_name q \<noteq> name"
  shows "\<exists>e d'. openQueue name thr now d = (Inl e, d')"
proof -
  obtain s where s: "replay apply_record (map canon rs) recovery_start = Inr s" "matches s q"
    using assms(4) by (auto simp: recovers_def)
  have "log_wf rs" using assms(3,4) by (simp add: log_wf_def recovers_def)
  from Open_intact [OF assms(1,2) this, of apply_record recovery_start] s assms(5) show ?thesis
    by (simp add: openQueue_def matches_def)
qed

theorem foreign_log_is_refused_witness:
  "\<exists>e d'. openQueue ''p'' 0 9 ((ex_disk (log_image [RHeader ex_hdr]) [])\<lparr>dents := [(''p.log'', DFile 0)]\<rparr>) = (Inl e, d')"
proof -
  let ?q = "newQueue ex_cfg () 1 0 0"
  have q: "q_name ?q = ''q''" "q_ordering ?q = FIFO" "q_createdAt ?q = 0" "q_nextSeq ?q = 1" "q_enqueued ?q = 0" "q_acked ?q = 0"
    by (simp_all add: newQueue_def ex_cfg_def)
  have "all_live ?q = {#}" by (simp add: all_live_def queue_inv_new)
  then have r: "recovers [RHeader ex_hdr] ?q"
    using ex_ok(1) by (simp add: recovers_def matches_def q recovery_start_def ex_hdr_def ParseOrdering_def fromMillis_def toMillis_def)
  show ?thesis
    by (rule foreign_log_is_refused [where f = 0, OF _ _ _ r])
      (use ex_encodable(1) q(1) in \<open>simp_all add: reliable_def file_is_def ex_disk_def logExt_def\<close>)
qed

section \<open>The record format\<close>



text \<open>CRC-32C as the frames use it detects every change of a single byte, wherever it is.\<close>

theorem checksum_detects_single_byte:
  assumes "k < length bs" "v \<noteq> bs ! k"
  shows "crc32_Checksum (bs[k := v]) \<noteq> crc32_Checksum bs"
proof
  assume "crc32_Checksum (bs[k := v]) = crc32_Checksum bs"
  then have "crc32_Checksum (take k bs @ v # drop (Suc k) bs) = crc32_Checksum (take k bs @ bs ! k # drop (Suc k) bs)"
    using assms(1) by (simp add: upd_conv_take_nth_drop id_take_nth_drop [symmetric])
  then show False using assms(2) crc32_Checksum_single_byte by blast
qed

theorem checksum_detects_single_byte_witness:
  "crc32_Checksum [1, 2, 9, 4] \<noteq> crc32_Checksum [1, 2, 3, 4]"
  using checksum_detects_single_byte [of 2 "[1, 2, 3, 4]" 9] by simp

section \<open>Heaps\<close>

text \<open>Removing a message from the middle of a heap by its recorded position (what \<open>Ack\<close> and
  \<open>Nack\<close> do) removes exactly that message, restores the heap order and keeps every index field equal
  to the position of its message, for each of the three heaps.\<close>

theorem remove_by_index:
  assumes "less h = cmp odr w" "heap_ok h st" "a \<in> set (items h)"
  shows "\<exists>h' st'. heap_Remove (m_index (st a)) (h, st) = Some (a, h', st') \<and> heap_ok h' st'
    \<and> mset (items h) = add_mset a (mset (items h')) \<and> m_index (st' a) = - 1 \<and> (\<forall>b. core (st' b) = core (st b))"
proof -
  obtain i where i: "i < length (items h)" "a = items h ! i" using assms(3) by (metis in_set_conv_nth)
  then have "m_index (st a) = int i" using assms(2) by (simp add: heap_ok_def indexed_def)
  then show ?thesis
    using comparator.heap_Remove_effect [OF comparator_cmp assms(1,2) i(1)] i(2) moves_core by fastforce
qed

theorem remove_by_index_witness:
  "\<exists>h' st'. heap_Remove 0 (fst (heap_Push 5 (newDelayedHeap, q_store ex_queue)), snd (heap_Push 5 (newDelayedHeap, q_store ex_queue)))
    = Some (5, h', st') \<and> items h' = []"
proof -
  have pre: "less newDelayedHeap = cmp FIFO Delayed" "5 \<notin> set (items newDelayedHeap)" by (simp_all add: newDelayedHeap_def)
  obtain h st where h: "heap_Push 5 (newDelayedHeap, q_store ex_queue) = (h, st)" "heap_ok h st" "less h = cmp FIFO Delayed"
      "mset (items h) = add_mset 5 (mset (items newDelayedHeap))"
    using comparator.heap_Push_effect [OF comparator_cmp pre(1) heap_ok_new(2) pre(2), of "q_store ex_queue"] by blast
  then have it: "items h = [5]" by (simp add: newDelayedHeap_def)
  then have "m_index (st 5) = 0" using h(2) by (simp add: heap_ok_def indexed_def)
  then show ?thesis using remove_by_index [OF h(3,2), of 5] it h(1) by auto
qed

end
