(* ===== verification/System_Props.thy ===== *)
theory System_Props
  imports Queue_System Queue_Props
begin

text \<open>
  The properties of the concurrent queue: the scheduler does not oversleep and no receiver is left
  waiting. They hold in every state any interleaving of the goroutines can reach.
\<close>

section \<open>Concrete states\<close>

definition ex_init :: "(fakeLog, unit) system" where
  "ex_init = sys_init ex_queue () 0"

lemma ex_init_reachable: "reachable fake_log ex_init"
  unfolding ex_init_def by (rule reachable.init) (use ex_queue_ok in \<open>simp_all add: ex_queue_def newQueue_def\<close>)

definition ex_waiter :: waiter where
  "ex_waiter = Receive_enter 10 5 False None 0 5"

definition ex_parked :: "(fakeLog, unit) system" where
  "ex_parked = ex_init\<lparr>sy_q := (sy_q ex_init)\<lparr>q_parked := [1]\<rparr>, sy_waiters := [1 \<mapsto> ex_waiter]\<rparr>"

lemma ex_parked_reachable: "reachable fake_log ex_parked"
proof -
  have "view (sy_q ex_init) Ready = {#}" by (simp add: ex_init_def sys_init_def ex_queue_ok)
  then have q: "\<not> q_closed (sy_q ex_init)" "addrs Ready (sy_q ex_init) = []" "q_parked (sy_q ex_init) = []"
    by (simp_all add: view_def) (simp_all add: ex_init_def sys_init_def start_def ex_queue_def newQueue_def)
  have "receive_round 1 10 5 5 None 0 0 None (sy_q ex_init) = Some (Park, (sy_q ex_init)\<lparr>q_parked := [1]\<rparr>)"
    using q by (simp add: receive_round_def popReady_empty)
  then have "Receive_run 1 ex_waiter 0 0 None ex_init = Some ex_parked"
    by (simp add: Receive_run_def ex_waiter_def Receive_enter_def ex_parked_def) (simp add: ex_init_def sys_init_def)
  then have "sys_step fake_log ex_init ex_parked"
    by (intro sys_step.receive [where g = 1 and ?now0.0 = 0 and ?now1.0 = 0 and ?now2.0 = 0 and wait = 5 and fire = 5 and err = None
          and cancellable = False and vis = 10 and rnd = None])
      (simp_all add: ex_waiter_def ex_init_def sys_init_def newReceipt_def)
  then show ?thesis by (rule reachable.step [OF ex_init_reachable])
qed

lemma ex_held_reachable: "reachable fake_log (sys_init ex_held () now)"
proof (rule reachable.init)
  obtain i where "execute fake_log ex_send ex_queue () = Some (Enqueued (Inr i), ex_ready, ())" by (rule ex_sent)
  then have e: "Queue_Enqueue fake_log ''[1]'' 0 0 5 ex_rnd ex_queue () = (Inr i, ex_ready, ())"
    by (auto simp: ex_send_def split: prod.splits)
  have r: "q_parked ex_ready = []" by (rule Enqueue_effect(10) [OF ex_queue_ok(1) e])
  obtain m where h: "execute fake_log (OReceive 10 6 ex_rnd) ex_ready () = Some (Received (Inr (Some (delivery m))), ex_held, ())"
    by (rule ex_held_ok)
  then have "receive_round 0 10 0 zero_time None 6 6 ex_rnd ex_ready = Some (Return (Inr (Some (delivery m))), ex_held)"
    by (auto split: option.splits recv.splits)
  from receive_round_cases [OF ex_ready_ok(1) ex_ready_fresh this] r show "q_parked ex_held = []" by simp
  show "queue_inv ex_held" by (rule ex_held_ok)
  show "\<not> q_closed ex_held" by (rule ex_held_ok)
qed

section \<open>The scheduler\<close>

text \<open>C13: the scheduler does not oversleep. Whenever it waits in its select, in any reachable state, there
  is a kick or an expired timer to take, or its timer is armed no later than the earliest moment at
  which a delayed message or a visibility deadline comes due; if anything is pending, it is armed.\<close>

theorem scheduler_never_oversleeps:
  assumes "reachable ls s" "sc_pc (sy_sched s) = SSelect"
  shows "q_kick (sy_q s) = Some True \<or> t_C (sc_timer (sy_sched s))
    \<or> (\<forall>p \<in> pending (view (sy_q s)). \<exists>t. t_at (sc_timer (sy_sched s)) = Some t \<and> t \<le> p)"
  using reachable_inv [OF assms(1)] assms(2) by (auto simp: sys_inv_def sched_ok_def kicked_def covers_def)

theorem scheduler_never_oversleeps_witness:
  "\<exists>s. reachable fake_log s \<and> sc_pc (sy_sched s) = SSelect \<and> pending (view (sy_q s)) = {16}
    \<and> (q_kick (sy_q s) = Some True \<or> t_C (sc_timer (sy_sched s))
       \<or> (\<forall>p \<in> pending (view (sy_q s)). \<exists>t. t_at (sc_timer (sy_sched s)) = Some t \<and> t \<le> p))"
proof -
  obtain m where h: "queue_inv ex_held" "view ex_held = (\<lambda>_. {#})(Expiry := {#m#})" "Deadline m = 16" by (rule ex_held_ok)
  let ?s = "sys_init ex_held () 9"
  have qi: "queue_inv (sy_q ?s)" using h(1) by (simp add: sys_init_def)
  obtain q where p: "processDue 9 (sy_q ?s) = Some (next_due q, q)" "view q = a_expire 9 (a_promote 9 (view (sy_q ?s)))"
    by (rule processDue_effect [OF qi])
  let ?s1 = "?s\<lparr>sy_q := q, sy_sched := (sy_sched ?s)\<lparr>sc_pc := SArm (next_due q)\<rparr>\<rparr>"
  have s1: "sched_step ?s ?s1"
    by (rule sched_step.process) (use p(1) in \<open>simp_all add: sched_process_def sys_init_def sched_start_def\<close>)
  let ?s2 = "?s1\<lparr>sy_sched := sched_arm (next_due q) (sy_sched ?s1)\<rparr>"
  have s2: "sched_step ?s1 ?s2" by (rule sched_step.arm) simp
  have r: "reachable fake_log ?s2"
    by (intro reachable.step [OF reachable.step [OF ex_held_reachable]] sys_step.sched, rule s1, rule s2)
  have pc: "sc_pc (sy_sched ?s2) = SSelect" by (simp add: sched_arm_def)
  have "pending (view (sy_q ?s2)) = {16}" using h(2,3) by (simp add: p(2) sys_init_def pending_def a_expire_def a_promote_def)
  then show ?thesis using scheduler_never_oversleeps [OF r pc] r pc by blast
qed

text \<open>C14: what is due gets filed. In any reachable state in which the scheduler has not been stopped and
  something pending is due, steps of the scheduler alone lead to a state in which everything due has
  become ready and nothing pending is due any more.\<close>

theorem due_messages_become_ready:
  assumes "reachable ls s" "sc_pc (sy_sched s) \<noteq> SStopped" "p \<in> pending (view (sy_q s))" "p \<le> sy_now s"
  shows "\<exists>s'. sched_runs s s' \<and> sy_now s' = sy_now s
    \<and> view (sy_q s') = a_expire (sy_now s) (a_promote (sy_now s) (view (sy_q s)))
    \<and> (\<forall>p' \<in> pending (view (sy_q s')). sy_now s' < p')"
proof -
  obtain s' where s': "sched_runs s s'" "sy_now s' = sy_now s" "view (sy_q s') = a_expire (sy_now s) (a_promote (sy_now s) (view (sy_q s)))"
    using scheduler_progress [OF reachable_inv [OF assms(1)] assms(2-4)] by (auto simp: files_due_def)
  moreover have "\<forall>p' \<in> pending (view (sy_q s')). sy_now s' < p'" using s' pending_after by auto
  ultimately show ?thesis by blast
qed

theorem due_messages_become_ready_witness:
  "\<exists>s'. sched_runs (sys_init ex_held () 20) s' \<and> view (sy_q s') Expiry = {#} \<and> size (view (sy_q s') Ready) = 1"
proof -
  obtain m where h: "view ex_held = (\<lambda>_. {#})(Expiry := {#m#})" "Deadline m = 16" by (rule ex_held_ok)
  let ?s = "sys_init ex_held () 20"
  have v: "view (sy_q ?s) = (\<lambda>_. {#})(Expiry := {#m#})" "sy_now ?s = 20" by (simp_all add: sys_init_def h(1))
  have "sc_pc (sy_sched ?s) \<noteq> SStopped" by (simp add: sys_init_def sched_start_def)
  moreover have "16 \<in> pending (view (sy_q ?s))" "16 \<le> sy_now ?s" using h(2) by (auto simp: v pending_def)
  ultimately obtain s' where "sched_runs ?s s'" "view (sy_q s') = a_expire (sy_now ?s) (a_promote (sy_now ?s) (view (sy_q ?s)))"
    using due_messages_become_ready [OF ex_held_reachable] by metis
  then show ?thesis using h(2) by (intro exI [of _ s']) (simp add: v a_expire_def a_promote_def)
qed

section \<open>The receivers\<close>

text \<open>C15: no lost wake-up. A receiver is parked on the condition variable only while nothing is ready
  and the queue is open, and it can still be woken: its timer callback has not broadcast yet, and if
  its context is already over, neither has its watcher.\<close>

theorem parked_receivers_have_nothing_to_do:
  assumes "reachable ls s" "g \<in> set (q_parked (sy_q s))"
  shows "view (sy_q s) Ready = {#} \<and> \<not> q_closed (sy_q s) \<and> (\<exists>wt. sy_waiters s g = Some wt \<and> 0 < wt_wait wt
    \<and> wt_timer wt \<in> {CbWaiting, CbLocking} \<and> (wt_err wt \<noteq> None \<longrightarrow> wt_watcher wt \<in> {CbWaiting, CbLocking}))"
proof -
  have inv: "sys_inv s" by (rule reachable_inv [OF assms(1)])
  then obtain wt where "sy_waiters s g = Some wt" using assms(2) by (auto simp: sys_inv_def)
  moreover from this have "wakeable wt" using inv assms(2) by (simp add: sys_inv_def)
  moreover have "q_parked (sy_q s) \<noteq> []" using assms(2) by auto
  ultimately show ?thesis using inv by (auto simp: sys_inv_def parked_ok_def wakeable_def)
qed

theorem parked_receivers_have_nothing_to_do_witness:
  "view (sy_q ex_parked) Ready = {#} \<and> \<not> q_closed (sy_q ex_parked)"
  using parked_receivers_have_nothing_to_do [OF ex_parked_reachable, of 1] by (simp add: ex_parked_def)

text \<open>C16: no receiver waits past its deadline or its context. Once its timer is due, or its context is
  over, its own callbacks alone take a parked receiver off the condition variable.\<close>

theorem receivers_wake_up:
  assumes "reachable ls s" "g \<in> set (q_parked (sy_q s))" "sy_waiters s g = Some wt" "wt_fire wt \<le> sy_now s \<or> wt_err wt \<noteq> None"
  shows "\<exists>s'. callback_runs g s s' \<and> g \<notin> set (q_parked (sy_q s')) \<and> sy_waiters s' g \<noteq> None"
  by (rule receiver_progress [OF reachable_inv [OF assms(1)] assms(2-4)])

theorem receivers_wake_up_witness:
  "\<exists>s'. callback_runs 1 (ex_parked\<lparr>sy_now := 6\<rparr>) s' \<and> 1 \<notin> set (q_parked (sy_q s'))"
proof -
  have "sys_step fake_log ex_parked (ex_parked\<lparr>sy_now := 6\<rparr>)"
    by (rule sys_step.tick) (simp add: ex_parked_def ex_init_def sys_init_def)
  then have "reachable fake_log (ex_parked\<lparr>sy_now := 6\<rparr>)" by (rule reachable.step [OF ex_parked_reachable])
  from receivers_wake_up [OF this, of 1 ex_waiter] show ?thesis
    by (auto simp: ex_parked_def ex_waiter_def Receive_enter_def)
qed

text \<open>C29: shutdown terminates. While \<open>Close\<close> waits, the scheduler can stop by its own steps from wherever it
  is, and then \<open>Close\<close> can compact and close the log.\<close>

theorem close_terminates:
  assumes "reachable ls s" "sy_closing s"
  shows "\<exists>s' s''. sched_runs s s' \<and> sys_step ls s' s'' \<and> \<not> sy_closing s'' \<and> q_closed (sy_q s'')"
proof -
  have inv: "sys_inv s" by (rule reachable_inv [OF assms(1)])
  then have "q_done (sy_q s) = Some True" using assms(2) by (simp add: sys_inv_def)
  from scheduler_stops [OF inv this] obtain s' where s': "sched_runs s s'" "sc_pc (sy_sched s') = SStopped" "sy_closing s'"
    using assms(2) by (auto simp: can_stop_def)
  have "sys_inv s'" using s'(1) inv by (induction rule: sched_runs.induct) (auto intro: sys_inv_sched)
  then have c: "q_closed (sy_q s')" using s'(3) by (simp add: sys_inv_def)
  obtain err q w where f: "Close_finish ls (sy_q s') (sy_w s') = (err, q, w)" by (metis prod_cases3)
  have "q_closed q" using Close_finish_log [OF f] c by auto
  then show ?thesis using sys_step.finish [OF s'(3,2) f] s'(1) by (intro exI conjI) auto
qed

theorem close_terminates_witness:
  "\<exists>s' s''. sched_runs (ex_init\<lparr>sy_q := Close_begin (sy_q ex_init), sy_closing := True\<rparr>) s' \<and> sys_step fake_log s' s'' \<and> \<not> sy_closing s''"
proof -
  have "sys_step fake_log ex_init (ex_init\<lparr>sy_q := Close_begin (sy_q ex_init), sy_closing := True\<rparr>)"
    by (rule sys_step.close) (simp add: ex_init_def sys_init_def ex_queue_ok)
  then have "reachable fake_log (ex_init\<lparr>sy_q := Close_begin (sy_q ex_init), sy_closing := True\<rparr>)"
    by (rule reachable.step [OF ex_init_reachable])
  from close_terminates [OF this] show ?thesis by auto
qed

end
