(* ===== verification/Manager_Model.thy ===== *)
theory Manager_Model
  imports Queue_Run
begin

text \<open>
  \<open>internal/queue/manager.go\<close>: the registry of queues over one data directory. A Go map is an
  association list; where the code iterates over it, the order of the list stands for the order the
  iteration happens to take. \<open>Close\<close> of a queue lets its scheduler run on; \<open>ts\<close> are the times of those
  last passes. \<open>None\<close> is a run-time panic.
\<close>

record Manager =
  m_compactThreshold :: int
  m_queues :: "(string \<times> Log Queue) list"

text \<open>Closing all queues: the first error is kept, every queue is closed and removed from the map.\<close>

fun close_queues :: "(string \<Rightarrow> Time list) \<Rightarrow> (string \<times> Log Queue) list \<Rightarrow> goerror option \<Rightarrow> disk \<Rightarrow> (goerror option \<times> disk) option" where
  "close_queues ts [] firstErr d = Some (firstErr, d)"
| "close_queues ts ((name, q) # qs) firstErr d =
     (case Queue_Close storage_log (ts name) q d of
        None \<Rightarrow> None
      | Some (err, _, d1) \<Rightarrow> close_queues ts qs (if err \<noteq> None \<and> firstErr = None then err else firstErr) d1)"

definition Manager_Close :: "(string \<Rightarrow> Time list) \<Rightarrow> Manager \<Rightarrow> disk \<Rightarrow> (goerror option \<times> Manager \<times> disk) option" where
  "Manager_Close ts m d = map_option (\<lambda>(err, d1). (err, m\<lparr>m_queues := []\<rparr>, d1)) (close_queues ts (m_queues m) None d)"

text \<open>The recovery loop of \<open>NewManager\<close>; \<open>now name\<close> is the clock when the queue \<open>name\<close> is opened.\<close>

fun load_queues :: "(string \<Rightarrow> Time) \<Rightarrow> (string \<Rightarrow> Time list) \<Rightarrow> string list \<Rightarrow> Manager \<Rightarrow> disk \<Rightarrow> (Manager result \<times> disk) option" where
  "load_queues now ts [] m d = Some (Inr m, d)"
| "load_queues now ts (name # names) m d =
     (if ValidateName name \<noteq> None then load_queues now ts names m d
      else case openQueue name (m_compactThreshold m) (now name) d of
        (Inr q, d1) \<Rightarrow> load_queues now ts names (m\<lparr>m_queues := map_insert name q (m_queues m)\<rparr>) d1
      | (Inl e, d1) \<Rightarrow>
          if e = ErrIncompleteLog then
            (case Remove name d1 of
               (Some rerr, d2) \<Rightarrow> if rerr \<noteq> os_ErrNotExist then Some (Inl rerr, d2) else load_queues now ts names m d2
             | (None, d2) \<Rightarrow> load_queues now ts names m d2)
          else (case Manager_Close ts m d1 of None \<Rightarrow> None | Some (_, _, d2) \<Rightarrow> Some (Inl e, d2)))"

definition NewManager :: "int \<Rightarrow> (string \<Rightarrow> Time) \<Rightarrow> (string \<Rightarrow> Time list) \<Rightarrow> disk \<Rightarrow> (Manager result \<times> disk) option" where
  "NewManager compactThreshold now ts d0 =
     (case EnsureDir d0 of (Some e, d1) \<Rightarrow> Some (Inl e, d1) | (None, d1) \<Rightarrow>
     (case CleanTemps d1 of (Some e, d2) \<Rightarrow> Some (Inl e, d2) | (None, d2) \<Rightarrow>
     (case ListLogs d2 of (Inl e, d3) \<Rightarrow> Some (Inl e, d3) | (Inr names, d3) \<Rightarrow>
      load_queues now ts names \<lparr>m_compactThreshold = compactThreshold, m_queues = []\<rparr> d3)))"

definition Manager_Create :: "string \<Rightarrow> Ordering \<Rightarrow> Time \<Rightarrow> Manager \<Rightarrow> disk \<Rightarrow> Log Queue result \<times> Manager \<times> disk" where
  "Manager_Create name odr now m d =
     (case ValidateName name of Some e \<Rightarrow> (Inl e, m, d) | None \<Rightarrow>
      if map_of (m_queues m) name \<noteq> None then (Inl ErrQueueExists, m, d)
      else case createQueue \<lparr>c_Name = name, c_Ordering = odr, c_CreatedAt = now\<rparr> (m_compactThreshold m) d of
        (Inl e, d1) \<Rightarrow> (Inl (if e = ErrExists then ErrQueueExists else e), m, d1)
      | (Inr q, d1) \<Rightarrow> (Inr q, m\<lparr>m_queues := map_insert name q (m_queues m)\<rparr>, d1))"

definition Manager_Get :: "string \<Rightarrow> Manager \<Rightarrow> Log Queue result" where
  "Manager_Get name m = (case map_of (m_queues m) name of None \<Rightarrow> Inl ErrQueueNotFound | Some q \<Rightarrow> Inr q)"

definition Manager_List :: "Manager \<Rightarrow> Log Queue list" where
  "Manager_List m = sort_key q_name (map snd (m_queues m))"

definition Manager_Delete :: "string \<Rightarrow> Time list \<Rightarrow> Manager \<Rightarrow> disk \<Rightarrow> (goerror option \<times> Manager \<times> disk) option" where
  "Manager_Delete name ts m d =
     (case map_of (m_queues m) name of None \<Rightarrow> Some (Some ErrQueueNotFound, m, d) | Some q \<Rightarrow>
      (let m1 = m\<lparr>m_queues := map_delete name (m_queues m)\<rparr> in
       case Queue_Close storage_log ts q d of
         None \<Rightarrow> None
       | Some (Some e, _, d1) \<Rightarrow> Some (Some e, m1, d1)
       | Some (None, _, d1) \<Rightarrow> (case Remove name d1 of (err, d2) \<Rightarrow> Some (err, m1, d2))))"

text \<open>A client's operation on the queue \<open>name\<close>: the queue is shared, so the map sees its new state.\<close>

definition on_queue :: "string \<Rightarrow> op \<Rightarrow> Manager \<Rightarrow> disk \<Rightarrow> (outcome result \<times> Manager \<times> disk) option" where
  "on_queue name x m d = (case Manager_Get name m of
      Inl e \<Rightarrow> Some (Inl e, m, d)
    | Inr q \<Rightarrow> (case execute storage_log x q d of
        None \<Rightarrow> None
      | Some (out, q', d') \<Rightarrow> Some (Inr out, m\<lparr>m_queues := map (\<lambda>(n, p). (n, if n = name then q' else p)) (m_queues m)\<rparr>, d')))"

section \<open>The invariant\<close>

definition mgr_ok :: "Manager \<Rightarrow> disk \<Rightarrow> bool" where
  "mgr_ok m d \<longleftrightarrow> disk_ok d \<and> distinct (map fst (m_queues m))
     \<and> (\<forall>(n, q) \<in> set (m_queues m). ValidateName n = None \<and> q_name q = n \<and> sound q \<and> durable file_holds q d \<and> balanced q \<and> \<not> q_closed q)"

lemma other_names:
  assumes "n \<noteq> n'"
  shows "n @ logExt \<notin> log_names n'" "n @ logExt \<notin> {n' @ logExt}"
proof -
  have "last (n @ logExt) \<noteq> last (n' @ tmpExt)" by (simp add: logExt_def tmpExt_def)
  then have "n @ logExt \<noteq> n' @ tmpExt" by metis
  then show "n @ logExt \<notin> log_names n'" "n @ logExt \<notin> {n' @ logExt}" using assms by (simp_all add: log_names_def)
qed

text \<open>What does not touch the files of a queue keeps it durable.\<close>

lemma durable_frame:
  assumes dur: "durable file_holds q d" and fr: "only_names P d d'" and n: "q_name q @ logExt \<notin> P"
  shows "durable file_holds q d'"
proof -
  obtain rs where h: "file_holds (q_name q) rs (q_log q) d" and rec: "recovers rs q" using dur by (auto simp: durable_def)
  let ?n = "q_name q @ logExt"
  have f: "map_of (dents d') ?n = map_of (dents d) ?n" "map_of (synced_dents d') ?n \<in> {map_of (synced_dents d) ?n, map_of (dents d) ?n}"
      "\<And>g. map_of (dents d) ?n = Some (DFile g) \<Longrightarrow> content d' g = content d g \<and> synced d' g = synced d g"
    using fr n unfolding only_names_def by blast+
  have "file_holds (q_name q) rs (q_log q) d'"
    using h f only_names_ok [OF fr] by (auto simp: file_holds_def log_holds_def lookup_file_Some split: option.splits)
  then show ?thesis using rec by (auto simp: durable_def)
qed

text \<open>An operation touches only the files of its own queue.\<close>

lemma storage_log_Append [simp]: "ls_Append storage_log = Log_Append"
  by (simp add: storage_log_def)

lemma maybeCompact_frame:
  assumes "disk_ok d" "l_path (q_log q) = q_name q @ logExt" "maybeCompact storage_log q d = (q', d')"
  shows "only_names (log_names (q_name q)) d d'"
proof -
  have nm: "h_Name (compact_header q) = q_name q" by (simp add: compact_header_def)
  have "only_names (log_names (q_name q)) d (snd (snd (compactLocked storage_log q d)))"
    using only_names_Compact(1) [OF _ assms(1), of "compact_header q" "live_records q" "q_log q"] assms(2)
    by (auto simp: compactLocked_def storage_log_def nm split: prod.splits)
  then show ?thesis using assms(1,3) by (auto simp: maybeCompact_def Let_def split: if_splits)
qed

lemma append_frame:
  assumes "file_holds n rs l d" "Log_Append r l d = (err, l', d')"
  shows "only_names (log_names n) d d'"
proof -
  have h: "log_holds rs l d" "l_path l = n @ logExt" "disk_ok d" using assms(1) by (auto simp: file_holds_def)
  obtain f where "l_f l = Some f" "map_of (dents d) (l_path l) = Some (DFile f)" by (rule log_holds_entry [OF h(1)])
  then show ?thesis using only_names_Append [OF assms(2) _ _ h(3)] h(2) by (simp add: log_names_def)
qed

lemma append_compact_frame:
  assumes h: "file_holds (q_name q) rs (q_log q) d" and app: "Log_Append r (q_log q) d = (None, l, d1)"
    and mc: "maybeCompact storage_log (q'\<lparr>q_log := l\<rparr>) d1 = (q', d')" and nm: "q_name q' = q_name q"
  shows "only_names (log_names (q_name q)) d d'"
proof -
  have a: "only_names (log_names (q_name q)) d d1" by (rule append_frame [OF h app])
  have "l_path l = q_name q @ logExt" using Log_Append_path [OF app] h by (simp add: file_holds_def)
  then have "only_names (log_names (q_name q)) d1 d'" using maybeCompact_frame [OF only_names_ok [OF a] _ mc] nm by simp
  then show ?thesis by (rule only_names_trans [OF a])
qed

lemma execute_frame:
  assumes inv: "queue_inv q" and dur: "durable file_holds q d" and fr: "fresh x q" and ex: "execute storage_log x q d = Some (out, q', d')"
  shows "only_names (log_names (q_name q)) d d'"
proof -
  obtain rs where h: "file_holds (q_name q) rs (q_log q) d" using dur by (auto simp: durable_def)
  then have ok: "disk_ok d" by (simp add: file_holds_def)
  have nm: "q_name q' = q_name q" using execute_total [OF inv fr, of storage_log d] ex by (metis option.inject prod.inject)
  note app = append_frame [OF h]
  show ?thesis
  proof (cases x)
    case (OEnqueue body prio delay now rnd)
    obtain res where e: "Queue_Enqueue storage_log body prio delay now rnd q d = (res, q', d')" using ex OEnqueue by (auto split: prod.splits)
    show ?thesis
    proof (cases res)
      case (Inl er)
      then show ?thesis using e ok app
        by (auto simp: Queue_Enqueue_def Let_def storage_log_def split: if_splits sum.splits prod.splits option.splits)
    next
      case (Inr i)
      show ?thesis by (rule Enqueue_log [OF e [unfolded Inr]]) (rule append_compact_frame [OF h _ _ nm]; simp)
    qed
  next
    case (OReceive vis now rnd)
    then show ?thesis using ex ok by (auto split: option.splits recv.splits)
  next
    case (OAck r)
    then obtain err where e: "Queue_Ack storage_log r q d = Some (err, q', d')" using ex by auto
    show ?thesis
    proof (cases err)
      case (Some er)
      then show ?thesis using e ok app
        by (auto simp: Queue_Ack_def Let_def storage_log_def split: if_splits prod.splits option.splits)
    next
      case None
      show ?thesis by (rule Ack_log [OF e [unfolded None]]) (rule append_compact_frame [OF h _ _ nm]; simp)
    qed
  next
    case (ONack r delay now)
    then obtain err where e: "Queue_Nack storage_log r delay now q d = Some (err, q', d')" using ex by auto
    show ?thesis
    proof (cases err)
      case (Some er)
      then show ?thesis using e ok app
        by (auto simp: Queue_Nack_def Let_def storage_log_def split: if_splits prod.splits option.splits)
    next
      case None
      show ?thesis by (rule Nack_log [OF e [unfolded None]]) (rule append_compact_frame [OF h _ _ nm]; simp)
    qed
  next
    case (ODue now)
    then show ?thesis using ex ok by auto
  qed
qed

section \<open>The operations keep the invariant\<close>

lemma mgr_ok_queue:
  assumes "mgr_ok m d" "map_of (m_queues m) n = Some q"
  shows "ValidateName n = None" "q_name q = n" "sound q" "durable file_holds q d" "balanced q" "\<not> q_closed q"
  using assms map_of_SomeD [OF assms(2)] by (auto simp: mgr_ok_def)

lemma mgr_frame:
  assumes "mgr_ok m d" "only_names P d d'" "(n, q) \<in> set (m_queues m)" "n @ logExt \<notin> P"
  shows "ValidateName n = None \<and> q_name q = n \<and> sound q \<and> durable file_holds q d' \<and> balanced q \<and> \<not> q_closed q"
  using assms durable_frame [OF _ assms(2)] by (auto simp: mgr_ok_def)

lemma createQueue_frame:
  assumes "createQueue cfg thr d = (res, d')" "disk_ok d"
  shows "only_names {c_Name cfg @ logExt} d d'"
  using assms only_names_Create [OF _ assms(2)]
  by (auto simp: createQueue_def Let_def split: option.splits sum.splits prod.splits)

lemma createQueue_refused:
  assumes "createQueue cfg thr d = (Inl e, d')" "map_of (dents d) (c_Name cfg @ logExt) = Some (DFile f)"
  shows "dents d' = dents d \<and> synced_dents d' = synced_dents d \<and> content d' = content d \<and> synced d' = synced d \<and> next_ino d' = next_ino d"
  using assms by (auto simp: createQueue_def Create_def OpenExcl_def Let_def split: option.splits sum.splits prod.splits if_splits
      dest!: next_fault_effect)

lemma Manager_Create_ok:
  assumes ok: "mgr_ok m d" and cr: "Manager_Create name odr now m d = (res, m', d')" and t: "int64 (toMillis now)"
  shows "mgr_ok m' d'" "case res of
      Inl e \<Rightarrow> m' = m
    | Inr q \<Rightarrow> map_of (m_queues m) name = None \<and> map_of (m_queues m') = (map_of (m_queues m))(name \<mapsto> q)
        \<and> view q = (\<lambda>_. {#}) \<and> q_name q = name \<and> q_ordering q = odr"
proof -
  let ?cfg = "\<lparr>c_Name = name, c_Ordering = odr, c_CreatedAt = now\<rparr>"
  have dok: "disk_ok d" using ok by (simp add: mgr_ok_def)
  show "case res of Inl e \<Rightarrow> m' = m | Inr q \<Rightarrow> map_of (m_queues m) name = None \<and> map_of (m_queues m') = (map_of (m_queues m))(name \<mapsto> q)
        \<and> view q = (\<lambda>_. {#}) \<and> q_name q = name \<and> q_ordering q = odr"
    using cr createQueue_durable [OF _ dok, of ?cfg "m_compactThreshold m"] t
    by (auto simp: Manager_Create_def split: option.splits sum.splits prod.splits if_splits)
  show "mgr_ok m' d'"
  proof (cases "ValidateName name \<noteq> None \<or> map_of (m_queues m) name \<noteq> None")
    case True
    then have "m' = m" "d' = d" using cr by (auto simp: Manager_Create_def split: option.splits if_splits)
    then show ?thesis using ok by simp
  next
    case False
    obtain cres where c: "createQueue ?cfg (m_compactThreshold m) d = (cres, d')"
      using cr False by (auto simp: Manager_Create_def split: option.splits sum.splits prod.splits)
    have fr: "only_names {name @ logExt} d d'" using createQueue_frame [OF c dok] by simp
    have "n \<noteq> name" if "(n, q) \<in> set (m_queues m)" for n q
      using that False map_of_eq_None_iff [of "m_queues m" name] by force
    then have old: "ValidateName n = None \<and> q_name q = n \<and> sound q \<and> durable file_holds q d' \<and> balanced q \<and> \<not> q_closed q"
      if "(n, q) \<in> set (m_queues m)" for n q using that mgr_frame [OF ok fr that] other_names(2) by blast
    show ?thesis
    proof (cases cres)
      case (Inl e)
      then have "m' = m" using cr False c by (auto simp: Manager_Create_def split: option.splits)
      then show ?thesis using old ok only_names_ok [OF fr] by (auto simp: mgr_ok_def)
    next
      case (Inr q)
      then have m': "m' = m\<lparr>m_queues := map_insert name q (m_queues m)\<rparr>" using cr False c by (auto simp: Manager_Create_def split: option.splits)
      note q = createQueue_durable [OF c [unfolded Inr] dok] t
      have "balanced q" using q by (simp add: balanced_def all_live_def)
      moreover have "map_delete name (m_queues m) = m_queues m" using False by (simp add: map_delete_new)
      moreover have "name \<notin> fst ` set (m_queues m)" using False by (simp add: map_of_eq_None_iff)
      ultimately show ?thesis using old ok only_names_ok [OF fr] q False unfolding m'
        by (auto simp: mgr_ok_def map_insert_def)
    qed
  qed
qed

lemma map_of_replace: "map_of xs k = Some v \<Longrightarrow> map_of (map (\<lambda>(n, p). (n, if n = k then u else p)) xs) k = Some u"
  by (induction xs) (auto split: if_splits)

lemma execute_closed:
  assumes "queue_inv q" "fresh x q" "execute ls x q w = Some (out, q', w')"
  shows "q_closed q' = q_closed q"
  using execute_refines [OF assms] by (cases rule: spec_step.cases) (auto simp: abs_queue_def)

lemma on_queue_ok:
  assumes ok: "mgr_ok m d" and ex: "on_queue name x m d = Some (res, m', d')"
    and side: "\<And>q. map_of (m_queues m) name = Some q \<Longrightarrow> fresh x q \<and> writable x q"
    and h: "\<And>q. map_of (m_queues m') name = Some q \<Longrightarrow> file_healthy (q_log q) d'"
  shows "mgr_ok m' d' \<and> map fst (m_queues m') = map fst (m_queues m)"
proof (cases "map_of (m_queues m) name")
  case None
  then show ?thesis using ex ok by (auto simp: on_queue_def Manager_Get_def)
next
  case (Some q)
  note q = mgr_ok_queue [OF ok Some]
  have inv: "queue_inv q" using q(3) by (simp add: sound_def)
  obtain out q' where e: "execute storage_log x q d = Some (out, q', d')"
      and m': "m' = m\<lparr>m_queues := map (\<lambda>(n, p). (n, if n = name then q' else p)) (m_queues m)\<rparr>"
    using ex Some by (auto simp: on_queue_def Manager_Get_def split: option.splits)
  have s: "fresh x q" "writable x q" using side [OF Some] by auto
  have fr: "only_names (log_names name) d d'" using execute_frame [OF inv q(4) s(1) e] q(2) by simp
  have keys: "map fst (m_queues m') = map fst (m_queues m)" unfolding m' by (simp add: case_prod_beta comp_def)
  have "map_of (m_queues m') name = Some q'"
    unfolding m' using map_of_replace [OF Some] by simp
  then have "file_healthy (q_log q') d'" using h by blast
  then have q': "sound q'" "durable file_holds q' d'" "balanced q'"
    using file_log.execute_durable [OF q(3,4) s e] execute_balanced [OF inv q(5) s(1) e] by auto
  have nm: "q_name q' = name" using execute_total [OF inv s(1), of storage_log d] e q(2) by (metis option.inject prod.inject)
  have cl: "\<not> q_closed q'" using execute_closed [OF inv s(1) e] q(6) by simp
  have "ValidateName n = None \<and> q_name p = n \<and> sound p \<and> durable file_holds p d' \<and> balanced p \<and> \<not> q_closed p"
    if "(n, p) \<in> set (m_queues m')" for n p
  proof (cases "n = name")
    case True
    then show ?thesis using that q' nm cl q(1) unfolding m' by auto
  next
    case False
    then have "(n, p) \<in> set (m_queues m)" using that unfolding m' by auto
    then show ?thesis using mgr_frame [OF ok fr] other_names(1) [OF False] by blast
  qed
  then show ?thesis using keys ok only_names_ok [OF fr] by (auto simp: mgr_ok_def)
qed

section \<open>Deletion\<close>

lemma only_names_handle:
  assumes "only_file f d d'" "disk_ok d" "\<And>m. m \<notin> P \<Longrightarrow> map_of (dents d) m \<noteq> Some (DFile f)"
  shows "only_names P d d'"
proof -
  have "disk_ok d'" using assms(1,2) by (simp add: only_file_def disk_ok_cong [of d' d])
  then show ?thesis using assms(1,3) by (force simp: only_names_def only_file_def)
qed

lemma Log_Close_frame:
  assumes "Log_Close l d = (err, l', d')" "disk_ok d" "\<And>f m. l_f l = Some f \<Longrightarrow> m \<notin> P \<Longrightarrow> map_of (dents d) m \<noteq> Some (DFile f)"
  shows "only_names P d d'"
proof (cases "l_f l")
  case (Some f)
  obtain e1 d1 where s: "FSync f d = (e1, d1)" by force
  have o1: "only_names P d d1" by (rule only_names_handle [OF only_file_calls(2) [OF s] assms(2) assms(3) [OF Some]])
  obtain e2 d2 where c: "FClose f d1 = (e2, d2)" by force
  show ?thesis using assms(1) Some s c only_names_trans [OF o1 only_names_FClose [OF c only_names_ok [OF o1]]]
    by (auto simp: Log_Close_def)
qed (use assms in \<open>auto simp: Log_Close_def\<close>)

lemma Close_finish_frame:
  assumes h: "file_holds (q_name q) rs (q_log q) d" and cl: "Close_finish storage_log q d = (err, q', d')"
  shows "only_names (log_names (q_name q)) d d'"
proof -
  let ?P = "log_names (q_name q)" and ?n = "q_name q @ logExt"
  have lh: "log_holds rs (q_log q) d" "l_path (q_log q) = ?n" "disk_ok d" using h by (auto simp: file_holds_def)
  obtain f where f: "l_f (q_log q) = Some f" "map_of (dents d) ?n = Some (DFile f)" using log_holds_entry [OF lh(1)] lh(2) by auto
  have nm: "h_Name (compact_header q) = q_name q" by (simp add: compact_header_def)
  obtain q1 d1 where q1: "(if q_compactThreshold q > 0 then snd (compactLocked storage_log q d) else (q, d)) = (q1, d1)" by force
  obtain l2 where lc: "Log_Close (q_log q1) d1 = (err, l2, d')"
    using cl unfolding Close_finish_def q1 by (auto simp: storage_log_def split: prod.splits)
  have c1: "only_names ?P d d1 \<and> (l_f (q_log q1) = Some f \<or> (\<exists>g. l_f (q_log q1) = Some g \<and> map_of (dents d1) ?n = Some (DFile g)))"
  proof (cases "q_compactThreshold q > 0")
    case True
    obtain err1 l1 where cm: "Compact (compact_header q) (live_records q) (q_log q) d = (err1, l1, d1)" and q1': "q1 = q\<lparr>q_log := l1\<rparr>"
      using q1 True by (auto simp: compactLocked_def storage_log_def split: prod.splits)
    have "l_f l1 = Some f \<or> (\<exists>g. l_f l1 = Some g \<and> map_of (dents d1) ?n = Some (DFile g))"
    proof (cases err1)
      case None
      then have "log_holds (compacted (compact_header q) (live_records q)) l1 d1 \<and> l_path l1 = ?n"
        using Compact_cases [OF cm lh(3,1)] lh(2) nm by simp
      then show ?thesis using log_holds_entry by metis
    next
      case (Some e)
      then show ?thesis using cm f(1)
        by (auto simp: Compact_def commit_replacement_def Let_def split: option.splits sum.splits prod.splits)
    qed
    then show ?thesis using only_names_Compact(1) [OF cm lh(3)] lh(2) nm q1' by simp
  qed (use q1 f lh(3) in auto)
  have n: "?n \<in> ?P" by (simp add: log_names_def)
  have "map_of (dents d1) m \<noteq> Some (DFile g)" if "l_f (q_log q1) = Some g" "m \<notin> ?P" for g m
  proof
    assume m: "map_of (dents d1) m = Some (DFile g)"
    then have "map_of (dents d) m = Some (DFile g)" using c1 that(2) by (auto simp: only_names_def)
    then have "g \<noteq> f" using f(2) lh(3) n that(2) unfolding disk_ok_def by metis
    then have "map_of (dents d1) ?n = Some (DFile g)" using c1 that(1) by auto
    moreover have "disk_ok d1" using c1 only_names_ok by blast
    ultimately show False using m n that(2) unfolding disk_ok_def by metis
  qed
  then have "only_names ?P d1 d'" using Log_Close_frame [OF lc] c1 only_names_ok by blast
  then show ?thesis using c1 only_names_trans by blast
qed

lemma Queue_Close_frame:
  assumes snd: "sound q" and dur: "durable file_holds q d" and cl: "Queue_Close storage_log ts q d = Some (err, q', d')"
  shows "only_names (log_names (q_name q)) d d'"
proof (cases "q_closed q")
  case True
  then show ?thesis using cl dur by (auto simp: Queue_Close_def durable_def file_holds_def)
next
  case False
  obtain rs where h: "file_holds (q_name q) rs (q_log q) d" using dur by (auto simp: durable_def)
  have inv: "queue_inv (Close_begin q)" using snd by (simp add: sound_def)
  obtain q1 where r: "run_due ts (Close_begin q) = Some q1" "same_core (Close_begin q) q1" using run_due_effect [OF inv] by blast
  have core: "same_core q q1" using same_core_trans [OF Close_begin_fields(3) r(2)] .
  have "Close_finish storage_log q1 d = (err, q', d')" using cl False r(1) by (simp add: Queue_Close_def)
  then show ?thesis using Close_finish_frame [of q1 rs d err q' d'] h core by (simp add: same_core_def)
qed

lemma Manager_Delete_ok:
  assumes ok: "mgr_ok m d"
  obtains err m' d' where "Manager_Delete name ts m d = Some (err, m', d')" "mgr_ok m' d'"
    "map_of (m_queues m) name = None \<Longrightarrow> err = Some ErrQueueNotFound \<and> m' = m \<and> d' = d"
    "map_of (m_queues m') = (map_of (m_queues m))(name := None)"
    "err = None \<Longrightarrow> map_of (dents d') (name @ logExt) = None \<and> synced_dents d' = dents d'"
proof (cases "map_of (m_queues m) name")
  case None
  then have "(map_of (m_queues m))(name := None) = map_of (m_queues m)" by (simp add: fun_upd_idem)
  then show ?thesis using that [of "Some ErrQueueNotFound" m d] ok None by (simp add: Manager_Delete_def)
next
  case (Some q)
  note q = mgr_ok_queue [OF ok Some]
  let ?m = "m\<lparr>m_queues := map_delete name (m_queues m)\<rparr>"
  obtain cerr q1 d1 where c: "Queue_Close storage_log ts q d = Some (cerr, q1, d1)" by (rule Queue_Close_stored [OF q(3,4,6), of ts])
  have f1: "only_names (log_names name) d d1" using Queue_Close_frame [OF q(3,4) c] q(2) by simp
  have done1: "mgr_ok ?m d2" if fr: "only_names (log_names name) d d2" for d2
  proof -
    have "ValidateName n = None \<and> q_name p = n \<and> sound p \<and> durable file_holds p d2 \<and> balanced p \<and> \<not> q_closed p"
      if "(n, p) \<in> set (m_queues ?m)" for n p
    proof -
      have n: "(n, p) \<in> set (m_queues m)" "n \<noteq> name" using that by (auto simp: map_delete_def)
      then show ?thesis using mgr_frame [OF ok fr n(1)] other_names(1) [OF n(2)] by blast
    qed
    then show ?thesis using ok only_names_ok [OF fr] distinct_map_delete [of "m_queues m" name] by (auto simp: mgr_ok_def)
  qed
  show ?thesis
  proof (cases cerr)
    case (Some e)
    have "Manager_Delete name ts m d = Some (Some e, ?m, d1)" using \<open>map_of (m_queues m) name = Some q\<close> c Some by (simp add: Manager_Delete_def)
    then show ?thesis by (rule that [OF _ done1 [OF f1]]) (use \<open>map_of (m_queues m) name = Some q\<close> in simp_all)
  next
    case None
    obtain err d2 where r: "Remove name d1 = (err, d2)" by force
    have f2: "only_names (log_names name) d d2"
      by (rule only_names_trans [OF f1], rule only_names_mono [OF only_names_delete [OF r only_names_ok [OF f1]]]) (simp add: log_names_def)
    have del: "Manager_Delete name ts m d = Some (err, ?m, d2)" using \<open>map_of (m_queues m) name = Some q\<close> c None r by (simp add: Manager_Delete_def)
    have "map_of (dents d2) (name @ logExt) = None \<and> synced_dents d2 = dents d2" if "err = None"
      using Remove_effect [of name d1 d2] r that by (simp add: map_of_del_dent)
    then show ?thesis by (intro that [OF del done1 [OF f2]]) (use \<open>map_of (m_queues m) name = Some q\<close> in simp_all)
  qed
qed

end
