(* ===== verification/Manager_Start.thy ===== *)
theory Manager_Start
  imports Manager_Model
begin

text \<open>
  Starting up: \<open>NewManager\<close> on the data directory a crash has left behind opens every queue again
  and discards the logs of queues whose creation was interrupted.
\<close>

section \<open>Preparing the directory\<close>

lemma syncDir_reliable:
  assumes "reliable d" "disk_ok d"
  obtains d' where "syncDir d = (None, d')" "reliable d'" "only_names P d d'" "dents d' = dents d"
proof -
  have "syncDir d = (None, d\<lparr>synced_dents := dents d\<rparr>)" using assms(1) by (simp add: syncDir_def DirOpen_def DirSync_def FClose_def)
  moreover have "only_names P d (d\<lparr>synced_dents := dents d\<rparr>)" by (rule only_names_quiet) (use assms(2) in simp_all)
  ultimately show ?thesis using that assms(1) by simp
qed

lemma has_suffix_iff: "has_suffix s suf \<longleftrightarrow> (\<exists>p. s = p @ suf)"
proof
  assume "has_suffix s suf"
  then have "s = take (length s - length suf) s @ suf" by (metis append_take_drop_id has_suffix_def)
  then show "\<exists>p. s = p @ suf" by blast
qed (auto simp: has_suffix_def)

lemma log_not_temp: "\<not> has_suffix (n @ logExt) tmpExt"
proof
  assume "has_suffix (n @ logExt) tmpExt"
  then obtain p where "n @ logExt = p @ tmpExt" by (auto simp: has_suffix_iff)
  then have "last (n @ logExt) = last (p @ tmpExt)" by simp
  then show False by (simp add: logExt_def tmpExt_def)
qed

lemma clean_entries_reliable:
  assumes "reliable d" "disk_ok d" "distinct (map fst es)" "\<And>x. x \<in> set es \<Longrightarrow> map_of (dents d) (fst x) \<noteq> None"
    "distinct (map fst (dents d))"
  shows "\<exists>r' d'. clean_entries es r d = (Inr r', d') \<and> reliable d' \<and> only_names {n. has_suffix n tmpExt} d d' \<and> distinct (map fst (dents d'))"
  using assms
proof (induction es arbitrary: d r)
  case (Cons e es)
  show ?case
  proof (cases "snd e = DDir \<or> \<not> has_suffix (fst e) tmpExt")
    case True
    then show ?thesis using Cons by simp
  next
    case False
    let ?d = "d\<lparr>dents := del_dent (fst e) (dents d)\<rparr>"
    have "map_of (dents d) (fst e) \<noteq> None" using Cons.prems(4) by simp
    then have rm: "os_Remove (fst e) d = (None, ?d)" using Cons.prems(1) by (simp add: os_Remove_def)
    have o: "only_names {n. has_suffix n tmpExt} d ?d" by (rule only_names_Remove [OF rm Cons.prems(2)]) (use False in simp)
    have "distinct (map fst (del_dent (fst e) (dents d)))" using Cons.prems(5) by (simp add: del_dent_def distinct_map_filter)
    moreover have "map_of (dents ?d) (fst x) \<noteq> None" if "x \<in> set es" for x
    proof -
      have "fst x \<in> fst ` set es" using that by (rule imageI)
      then have "fst x \<noteq> fst e" using Cons.prems(3) by (metis distinct.simps(2) list.simps(9) list.set_map)
      then show ?thesis using Cons.prems(4) [of x] that by (simp add: map_of_del_dent)
    qed
    ultimately obtain r' d' where d': "clean_entries es True ?d = (Inr r', d')" "reliable d'" "only_names {n. has_suffix n tmpExt} ?d d'"
        "distinct (map fst (dents d'))"
      using Cons.IH [of ?d True] Cons.prems(1,3) only_names_ok [OF o] by auto
    then show ?thesis using False rm only_names_trans [OF o] by auto
  qed
qed auto

lemma CleanTemps_reliable:
  assumes "reliable d" "disk_ok d" "distinct (map fst (dents d))"
  obtains d' where "CleanTemps d = (None, d')" "reliable d'" "only_names {n. has_suffix n tmpExt} d d'" "distinct (map fst (dents d'))"
proof -
  have rd: "os_ReadDir d = (Inr (sort_key fst (dents d)), d)" using assms(1) by (simp add: os_ReadDir_def)
  have "mset (map fst (sort_key fst (dents d))) = mset (map fst (dents d))" by simp
  then have "distinct (map fst (sort_key fst (dents d)))" using assms(3) mset_eq_imp_distinct_iff by blast
  moreover have "map_of (dents d) (fst x) \<noteq> None" if "x \<in> set (sort_key fst (dents d))" for x
    using that by (simp add: map_of_eq_None_iff)
  ultimately obtain r d1 where c: "clean_entries (sort_key fst (dents d)) False d = (Inr r, d1)" "reliable d1"
      "only_names {n. has_suffix n tmpExt} d d1" "distinct (map fst (dents d1))"
    using clean_entries_reliable [OF assms(1,2) _ _ assms(3)] by metis
  obtain d2 where s: "syncDir d1 = (None, d2)" "reliable d2" "only_names {n. has_suffix n tmpExt} d1 d2" "dents d2 = dents d1"
    by (rule syncDir_reliable [OF c(2) only_names_ok [OF c(3)]])
  show ?thesis
  proof (cases r)
    case True
    then show ?thesis using that [of d2] rd c s only_names_trans [OF c(3) s(3)] by (simp add: CleanTemps_def)
  next
    case False
    then show ?thesis using that [of d1] rd c by (simp add: CleanTemps_def)
  qed
qed

lemma ListLogs_reliable:
  assumes "reliable d" "distinct (map fst (dents d))"
  obtains names where "ListLogs d = (Inr names, d)" "distinct names"
    "\<And>n. n \<in> set names \<longleftrightarrow> (\<exists>i. map_of (dents d) (n @ logExt) = Some (DFile i))"
proof -
  let ?es = "filter (\<lambda>e. \<not> (snd e = DDir \<or> \<not> has_suffix (fst e) logExt)) (sort_key fst (dents d))"
  let ?names = "map (\<lambda>e. trim_suffix (fst e) logExt) ?es"
  have l: "ListLogs d = (Inr ?names, d)" using assms(1) by (simp add: ListLogs_def os_ReadDir_def)
  have "mset (map fst (sort_key fst (dents d))) = mset (map fst (dents d))" by simp
  then have "distinct (map fst (sort_key fst (dents d)))" using assms(2) mset_eq_imp_distinct_iff by blast
  then have "distinct (map fst ?es)" by (rule distinct_map_filter)
  moreover have "trim_suffix a logExt = trim_suffix b logExt \<longleftrightarrow> a = b" if "has_suffix a logExt" "has_suffix b logExt" for a b
    using that by (auto simp: trim_suffix_def has_suffix_iff)
  then have "inj_on (\<lambda>s. trim_suffix s logExt) (set (map fst ?es))" by (auto simp: inj_on_def)
  ultimately have "distinct (map (\<lambda>s. trim_suffix s logExt) (map fst ?es))" by (simp only: distinct_map)
  then have dn: "distinct ?names" by (simp add: comp_def)
  have "(n @ logExt, DFile i) \<in> set (dents d) \<longleftrightarrow> map_of (dents d) (n @ logExt) = Some (DFile i)" for n i
    using assms(2) by simp
  then show ?thesis using that [OF l dn] ListLogs_names [OF l] by simp
qed

section \<open>Loading the queues\<close>

lemma crashed_frame:
  assumes "crashed d0 n tail d" "only_names P d d'" "n @ logExt \<notin> P" "reliable d'"
  shows "crashed d0 n tail d'"
proof -
  have f: "map_of (dents d') (n @ logExt) = map_of (dents d) (n @ logExt)"
      "map_of (synced_dents d') (n @ logExt) \<in> {map_of (synced_dents d) (n @ logExt), map_of (dents d) (n @ logExt)}"
      "\<And>g. map_of (dents d) (n @ logExt) = Some (DFile g) \<Longrightarrow> content d' g = content d g \<and> synced d' g = synced d g"
    using assms(2,3) unfolding only_names_def by blast+
  then show ?thesis using assms(1,4) only_names_ok [OF assms(2)]
    by (auto simp: crashed_def split: option.splits dirent.splits)
qed

text \<open>The log of a queue whose creation was interrupted: the file header or the header record never
  landed completely.\<close>

definition unborn :: "string \<Rightarrow> disk \<Rightarrow> bool" where
  "unborn n d \<longleftrightarrow> (case map_of (dents d) (n @ logExt) of
      Some (DFile f) \<Rightarrow> length (content d f) < fileHeaderSize
        \<or> (\<exists>tail. content d f = encodeFileHeader @ tail \<and> (tail = [] \<or> torn_tail tail))
    | _ \<Rightarrow> False)"

lemma unborn_frame:
  assumes "unborn n d" "only_names P d d'" "n @ logExt \<notin> P"
  shows "unborn n d'"
proof -
  obtain f where "map_of (dents d) (n @ logExt) = Some (DFile f)"
    using assms(1) by (auto simp: unborn_def split: option.splits dirent.splits)
  moreover from this have "map_of (dents d') (n @ logExt) = Some (DFile f)" "content d' f = content d f"
    using assms(2,3) by (simp_all add: only_names_def)
  ultimately show ?thesis using assms(1) by (simp add: unborn_def)
qed

lemma openQueue_unborn:
  assumes d: "reliable d" "disk_ok d" and u: "unborn n d"
  obtains d' where "openQueue n thr now d = (Inl ErrIncompleteLog, d')" "reliable d'" "only_names {n @ logExt} d d'"
    "map_of (dents d') (n @ logExt) \<noteq> None"
proof -
  obtain f where f: "map_of (dents d) (n @ logExt) = Some (DFile f)" using u by (auto simp: unborn_def split: option.splits dirent.splits)
  show ?thesis
  proof (cases "length (content d f) < fileHeaderSize")
    case True
    then have "openQueue n thr now d = (Inl ErrIncompleteLog, d)"
      using d(1) f by (simp add: openQueue_def Open_def OpenRdwr_def FStat_def close_fail_def FClose_def)
    then show ?thesis using that d f by simp
  next
    case False
    then obtain tail where t: "content d f = encodeFileHeader @ tail" "tail = [] \<or> torn_tail tail" using u f by (auto simp: unborn_def)
    then have fi: "file_is n f (encodeFileHeader @ tail) d" using f by (simp add: file_is_def)
    have sc: "\<exists>torn. scan_loop apply_record (scan_at tail fileHeaderSize) 0 recovery_start = Inr (0, recovery_start, torn)"
      using t(2) by (auto simp: scan_loop_eof scan_loop_torn)
    have cut: "only_names {n @ logExt} d (cut f off d)" for off by (rule only_names_cut [OF d(2)]) (use f in simp_all)
    obtain torn where "openQueue n thr now d = (Inl ErrIncompleteLog, case torn of None \<Rightarrow> d | Some off \<Rightarrow> cut f off d)"
      using sc Open_scan [OF d(1) fi, of apply_record recovery_start] by (auto simp: openQueue_def Let_def)
    then show ?thesis
      using that d f cut by (cases torn) (auto simp: cut_def Let_def)
  qed
qed

lemma Remove_reliable:
  assumes "reliable d" "disk_ok d" "map_of (dents d) (n @ logExt) \<noteq> None"
  obtains d' where "Remove n d = (None, d')" "reliable d'" "only_names {n @ logExt} d d'" "map_of (dents d') (n @ logExt) = None"
proof -
  obtain d1 where s: "Remove n d = (None, d1)" "reliable d1" using assms(1,3)
    by (auto simp: Remove_def os_Remove_def syncDir_def DirOpen_def DirSync_def FClose_def)
  then show ?thesis using that only_names_delete [OF s(1) assms(2)] Remove_effect [of n d d1] by (simp add: map_of_del_dent)
qed

text \<open>The registry \<open>m0\<close> on the disk \<open>d0\<close> before the crash, and what a queue of it has become.\<close>

definition survivor :: "Manager \<Rightarrow> disk \<Rightarrow> (string \<Rightarrow> bytes) \<Rightarrow> string \<Rightarrow> disk \<Rightarrow> bool" where
  "survivor m0 d0 tails n d \<longleftrightarrow> map_of (m_queues m0) n \<noteq> None \<and> crashed d0 n (tails n) d \<and> (tails n = [] \<or> torn_tail (tails n))"

definition brought_back :: "(string \<Rightarrow> Time) \<Rightarrow> Manager \<Rightarrow> string \<Rightarrow> Log Queue \<Rightarrow> bool" where
  "brought_back now m0 n q2 \<longleftrightarrow> (\<exists>q. map_of (m_queues m0) n = Some q \<and> restored (now n) q q2)"

lemma survivor_frame:
  "survivor m0 d0 tails n d \<Longrightarrow> only_names P d d' \<Longrightarrow> n @ logExt \<notin> P \<Longrightarrow> reliable d' \<Longrightarrow> survivor m0 d0 tails n d'"
  by (auto simp: survivor_def intro: crashed_frame)

text \<open>What a valid log name in the directory can belong to.\<close>

definition leftover :: "Manager \<Rightarrow> disk \<Rightarrow> (string \<Rightarrow> bytes) \<Rightarrow> string \<Rightarrow> disk \<Rightarrow> bool" where
  "leftover m0 d0 tails n d \<longleftrightarrow> survivor m0 d0 tails n d \<or> map_of (m_queues m0) n = None \<and> unborn n d"

lemma leftover_frame:
  "leftover m0 d0 tails n d \<Longrightarrow> only_names P d d' \<Longrightarrow> n @ logExt \<notin> P \<Longrightarrow> reliable d' \<Longrightarrow> leftover m0 d0 tails n d'"
  unfolding leftover_def by (blast intro: survivor_frame unborn_frame)

lemma open_survivor:
  assumes m0: "mgr_ok m0 d0" and m: "mgr_ok m d" and sv: "survivor m0 d0 tails name d" and nw: "map_of (m_queues m) name = None"
  obtains q2 d2 where "openQueue name (m_compactThreshold m) (now name) d = (Inr q2, d2)"
    "mgr_ok (m\<lparr>m_queues := map_insert name q2 (m_queues m)\<rparr>) d2" "brought_back now m0 name q2"
    "only_names {name @ logExt} d d2" "reliable d2"
proof -
  obtain q where q: "map_of (m_queues m0) name = Some q" "crashed d0 name (tails name) d" "tails name = [] \<or> torn_tail (tails name)"
    using sv by (auto simp: survivor_def)
  note qo = mgr_ok_queue [OF m0 q(1)]
  obtain q2 d2 where o: "openQueue (q_name q) (m_compactThreshold m) (now name) d = (Inr q2, d2)" "restored (now name) q q2" "durable file_holds q2 d2"
      "only_names {q_name q @ logExt} d d2" "reliable d2"
    by (rule crash_recovery [OF qo(3,4) _ q(3)]) (use q(2) qo(2) in auto)
  have fr: "only_names {name @ logExt} d d2" using o(4) qo(2) by simp
  have b2: "balanced q2" using balanced_cong [of persisted q2 q] o(2) qo(5) by (simp add: restored_def)
  have old: "ValidateName n = None \<and> q_name p = n \<and> sound p \<and> durable file_holds p d2 \<and> balanced p \<and> \<not> q_closed p"
    if "(n, p) \<in> set (m_queues m)" for n p
  proof -
    have "n \<noteq> name" using that nw by (force simp: map_of_eq_None_iff)
    then show ?thesis using mgr_frame [OF m fr that] other_names(2) by blast
  qed
  have "mgr_ok (m\<lparr>m_queues := map_insert name q2 (m_queues m)\<rparr>) d2"
    using old m only_names_ok [OF fr] o(2,3) b2 qo(1,2) nw
    unfolding map_insert_def map_delete_new [OF nw] mgr_ok_def by (auto simp: restored_def map_of_eq_None_iff)
  then show ?thesis using that [OF _ _ _ fr o(5)] o(1,2) q(1) qo(2) by (auto simp: brought_back_def)
qed

lemma load_queues_restores:
  assumes m0: "mgr_ok m0 d0"
  shows "mgr_ok m d \<Longrightarrow> reliable d \<Longrightarrow> distinct names \<Longrightarrow> set names \<inter> fst ` set (m_queues m) = {}
    \<Longrightarrow> (\<And>n. n \<in> set names \<Longrightarrow> ValidateName n = None \<Longrightarrow> leftover m0 d0 tails n d)
    \<Longrightarrow> \<exists>m' d'. load_queues now ts names m d = Some (Inr m', d') \<and> mgr_ok m' d' \<and> m_compactThreshold m' = m_compactThreshold m
      \<and> (\<forall>n. map_of (m_queues m') n \<noteq> None \<longleftrightarrow> map_of (m_queues m) n \<noteq> None
          \<or> n \<in> set names \<and> ValidateName n = None \<and> map_of (m_queues m0) n \<noteq> None)
      \<and> (\<forall>n q. map_of (m_queues m') n = Some q \<longrightarrow> map_of (m_queues m) n = Some q \<or> brought_back now m0 n q)"
proof (induction names arbitrary: m d)
  case Nil
  then show ?case by auto
next
  case (Cons name names)
  have lo: "leftover m0 d0 tails n d2" if "only_names {name @ logExt} d d2" "reliable d2" "n \<in> set names" "ValidateName n = None" for n d2
  proof -
    have "n \<noteq> name" using that(3) Cons.prems(3) by auto
    then show ?thesis using leftover_frame [OF Cons.prems(5) [of n] that(1) other_names(2) that(2)] that(3,4) by simp
  qed
  consider (ignored) "ValidateName name \<noteq> None" | (kept) "ValidateName name = None" "survivor m0 d0 tails name d"
    | (discarded) "ValidateName name = None" "map_of (m_queues m0) name = None" "unborn name d"
    using Cons.prems(5) [of name] by (cases "ValidateName name = None"; cases "survivor m0 d0 tails name d") (simp_all add: leftover_def)
  then show ?case
  proof cases
    case ignored
    then show ?thesis using Cons.IH [OF Cons.prems(1,2)] Cons.prems(3-5) by (auto simp: disjoint_iff)
  next
    case kept
    have nw: "map_of (m_queues m) name = None" using Cons.prems(4) by (force simp: map_of_eq_None_iff)
    obtain q2 d2 where o: "openQueue name (m_compactThreshold m) (now name) d = (Inr q2, d2)"
        "mgr_ok (m\<lparr>m_queues := map_insert name q2 (m_queues m)\<rparr>) d2" "brought_back now m0 name q2"
        "only_names {name @ logExt} d d2" "reliable d2"
      by (rule open_survivor [OF m0 Cons.prems(1) kept(2) nw])
    let ?m = "m\<lparr>m_queues := map_insert name q2 (m_queues m)\<rparr>"
    have ins: "map_insert name q2 (m_queues m) = m_queues m @ [(name, q2)]" by (simp add: map_insert_def map_delete_new [OF nw])
    have "set names \<inter> fst ` set (m_queues ?m) = {}" using Cons.prems(3,4) unfolding ins by auto
    from Cons.IH [OF o(2,5) _ this lo [OF o(4,5)]] Cons.prems(3) obtain m' d' where
      l: "load_queues now ts names ?m d2 = Some (Inr m', d')" "mgr_ok m' d'" "m_compactThreshold m' = m_compactThreshold m"
        "\<And>n. map_of (m_queues m') n \<noteq> None \<longleftrightarrow> map_of (m_queues ?m) n \<noteq> None
          \<or> n \<in> set names \<and> ValidateName n = None \<and> map_of (m_queues m0) n \<noteq> None"
        "\<And>n q. map_of (m_queues m') n = Some q \<Longrightarrow> map_of (m_queues ?m) n = Some q \<or> brought_back now m0 n q" by auto
    have "load_queues now ts (name # names) m d = Some (Inr m', d')" using kept(1) o(1) l(1) by simp
    moreover have "map_of (m_queues m') n \<noteq> None \<longleftrightarrow> map_of (m_queues m) n \<noteq> None
        \<or> n \<in> set (name # names) \<and> ValidateName n = None \<and> map_of (m_queues m0) n \<noteq> None" for n
      using l(4) [of n] kept by (auto simp: survivor_def)
    moreover have "map_of (m_queues m) n = Some p \<or> brought_back now m0 n p" if "map_of (m_queues m') n = Some p" for n p
      using l(5) [OF that] o(3) by (auto split: if_splits)
    ultimately show ?thesis using l(2,3) by blast
  next
    case discarded
    have dok: "disk_ok d" using Cons.prems(1) by (simp add: mgr_ok_def)
    obtain d1 where o: "openQueue name (m_compactThreshold m) (now name) d = (Inl ErrIncompleteLog, d1)" "reliable d1"
        "only_names {name @ logExt} d d1" "map_of (dents d1) (name @ logExt) \<noteq> None"
      by (rule openQueue_unborn [OF Cons.prems(2) dok discarded(3)])
    obtain d2 where r: "Remove name d1 = (None, d2)" "reliable d2" "only_names {name @ logExt} d1 d2"
      by (rule Remove_reliable [OF o(2) only_names_ok [OF o(3)] o(4)])
    have fr: "only_names {name @ logExt} d d2" by (rule only_names_trans [OF o(3) r(3)])
    have "name \<notin> fst ` set (m_queues m)" using Cons.prems(4) by auto
    then have "n \<noteq> name" if "(n, p) \<in> set (m_queues m)" for n p using that by force
    then have "mgr_ok m d2" using mgr_frame [OF Cons.prems(1) fr] other_names(2) Cons.prems(1) only_names_ok [OF fr]
      unfolding mgr_ok_def by blast
    from Cons.IH [OF this r(2) _ _ lo [OF fr r(2)]] Cons.prems(3,4) show ?thesis
      using discarded o(1) r(1) by (auto simp: disjoint_iff)
  qed
qed

text \<open>The state of the data directory after a crash: every queue of the registry has its log, possibly
  with a torn tail, and every other file with the name of a log is that of an interrupted creation.\<close>

definition crashed_dir :: "Manager \<Rightarrow> disk \<Rightarrow> (string \<Rightarrow> bytes) \<Rightarrow> disk \<Rightarrow> bool" where
  "crashed_dir m0 d0 tails d \<longleftrightarrow> reliable d \<and> disk_ok d \<and> distinct (map fst (dents d))
     \<and> (\<forall>n \<in> fst ` set (m_queues m0). survivor m0 d0 tails n d)
     \<and> (\<forall>n i. ValidateName n = None \<longrightarrow> map_of (dents d) (n @ logExt) = Some (DFile i) \<longrightarrow> leftover m0 d0 tails n d)"

lemma survivor_listed:
  assumes m0: "mgr_ok m0 d0" and sv: "survivor m0 d0 tails n d"
  shows "ValidateName n = None" "\<exists>i. map_of (dents d) (n @ logExt) = Some (DFile i)"
proof -
  obtain q where q: "map_of (m_queues m0) n = Some q" using sv by (auto simp: survivor_def)
  note qo = mgr_ok_queue [OF m0 q]
  obtain f where "map_of (synced_dents d0) (n @ logExt) = Some (DFile f)" using durable_entry [OF qo(4)] qo(2) by metis
  then show "ValidateName n = None" "\<exists>i. map_of (dents d) (n @ logExt) = Some (DFile i)"
    using sv qo(1) by (auto simp: survivor_def crashed_def)
qed

lemma NewManager_restores:
  assumes m0: "mgr_ok m0 d0" and cr: "crashed_dir m0 d0 tails d"
  shows "\<exists>m' d'. NewManager thr now ts d = Some (Inr m', d') \<and> mgr_ok m' d' \<and> m_compactThreshold m' = thr
    \<and> fst ` set (m_queues m') = fst ` set (m_queues m0)
    \<and> (\<forall>n q2. map_of (m_queues m') n = Some q2 \<longrightarrow> brought_back now m0 n q2)"
proof -
  have d: "reliable d" "disk_ok d" "distinct (map fst (dents d))" using cr by (auto simp: crashed_dir_def)
  let ?P = "{n. has_suffix n tmpExt}"
  obtain d1 where e: "EnsureDir d = (None, d1)" "reliable d1" "only_names ?P d d1" "dents d1 = dents d"
    by (rule syncDir_reliable [OF d(1,2), of ?P]) (use d(1) in \<open>simp add: EnsureDir_def os_MkdirAll_def\<close>)
  have dd1: "distinct (map fst (dents d1))" using d(3) e(4) by simp
  obtain d2 where c: "CleanTemps d1 = (None, d2)" "reliable d2" "only_names ?P d1 d2" "distinct (map fst (dents d2))"
    by (rule CleanTemps_reliable [OF e(2) only_names_ok [OF e(3)] dd1])
  have fr: "only_names ?P d d2" by (rule only_names_trans [OF e(3) c(3)])
  obtain names where l: "ListLogs d2 = (Inr names, d2)" "distinct names"
    "\<And>n. n \<in> set names \<longleftrightarrow> (\<exists>i. map_of (dents d2) (n @ logExt) = Some (DFile i))" by (rule ListLogs_reliable [OF c(2,4)]) blast
  have same: "map_of (dents d2) (n @ logExt) = map_of (dents d) (n @ logExt)" for n
    using fr log_not_temp [of n] by (auto simp: only_names_def)
  have sv: "survivor m0 d0 tails n d2" if "n \<in> fst ` set (m_queues m0)" for n
    using cr that survivor_frame [OF _ fr _ c(2)] log_not_temp [of n] by (auto simp: crashed_dir_def)
  have lo: "leftover m0 d0 tails n d2" if "n \<in> set names" "ValidateName n = None" for n
  proof -
    have "leftover m0 d0 tails n d" using cr that l(3) same unfolding crashed_dir_def by metis
    then show ?thesis using leftover_frame [OF _ fr _ c(2)] log_not_temp [of n] by auto
  qed
  have nm: "n \<in> set names \<and> ValidateName n = None \<and> map_of (m_queues m0) n \<noteq> None \<longleftrightarrow> n \<in> fst ` set (m_queues m0)" for n
    using survivor_listed [OF m0 sv] l(3) by (auto simp: map_of_eq_None_iff)
  let ?m = "\<lparr>m_compactThreshold = thr, m_queues = []\<rparr>"
  have "mgr_ok ?m d2" using only_names_ok [OF fr] by (simp add: mgr_ok_def)
  then have "\<exists>m' d'. load_queues now ts names ?m d2 = Some (Inr m', d') \<and> mgr_ok m' d' \<and> m_compactThreshold m' = m_compactThreshold ?m
      \<and> (\<forall>n. map_of (m_queues m') n \<noteq> None \<longleftrightarrow> map_of (m_queues ?m) n \<noteq> None \<or> n \<in> set names \<and> ValidateName n = None \<and> map_of (m_queues m0) n \<noteq> None)
      \<and> (\<forall>n q. map_of (m_queues m') n = Some q \<longrightarrow> map_of (m_queues ?m) n = Some q \<or> brought_back now m0 n q)"
    by (intro load_queues_restores [OF m0 _ c(2) l(2), where tails = tails]) (simp_all add: lo)
  then obtain m' d' where
    r: "load_queues now ts names ?m d2 = Some (Inr m', d')" "mgr_ok m' d'" "m_compactThreshold m' = thr"
      "\<And>n. map_of (m_queues m') n \<noteq> None \<longleftrightarrow> n \<in> set names \<and> ValidateName n = None \<and> map_of (m_queues m0) n \<noteq> None"
      "\<And>n q. map_of (m_queues m') n = Some q \<Longrightarrow> brought_back now m0 n q" by auto
  have "NewManager thr now ts d = Some (Inr m', d')" using e(1) c(1) l(1) r(1) by (simp add: NewManager_def)
  moreover have "n \<in> fst ` set (m_queues m') \<longleftrightarrow> n \<in> fst ` set (m_queues m0)" for n
    using r(4) [of n] nm [of n] by (simp add: map_of_eq_None_iff)
  ultimately show ?thesis using r(2,3,5) by blast
qed

end
