(* ===== verification/Manager_Run.thy ===== *)
theory Manager_Run
  imports Manager_Start
begin

text \<open>
  Sequences of registry operations, orderly shutdown, and the order of \<open>List\<close>.
\<close>

section \<open>Runs\<close>

text \<open>What the operations of a run are allowed to be: identifiers and receipts are fresh, values can be
  encoded, the clock fits in an \<open>int64\<close>, and the queue's log has not been lost to a failed compaction.\<close>

inductive mgr_runs :: "Manager \<Rightarrow> disk \<Rightarrow> Manager \<Rightarrow> disk \<Rightarrow> bool" where
  start: "mgr_runs m d m d"
| create: "mgr_runs m d m1 d1 \<Longrightarrow> Manager_Create name odr now m1 d1 = (res, m2, d2) \<Longrightarrow> int64 (toMillis now)
    \<Longrightarrow> mgr_runs m d m2 d2"
| operate: "mgr_runs m d m1 d1 \<Longrightarrow> on_queue name x m1 d1 = Some (res, m2, d2)
    \<Longrightarrow> (\<And>q. map_of (m_queues m1) name = Some q \<Longrightarrow> fresh x q \<and> writable x q)
    \<Longrightarrow> (\<And>q. map_of (m_queues m2) name = Some q \<Longrightarrow> file_healthy (q_log q) d2)
    \<Longrightarrow> mgr_runs m d m2 d2"
| delete: "mgr_runs m d m1 d1 \<Longrightarrow> Manager_Delete name ts m1 d1 = Some (err, m2, d2) \<Longrightarrow> mgr_runs m d m2 d2"

lemma mgr_runs_ok: "mgr_runs m d m' d' \<Longrightarrow> mgr_ok m d \<Longrightarrow> mgr_ok m' d'"
proof (induction rule: mgr_runs.induct)
  case (create m d m1 d1 name odr now res m2 d2)
  then show ?case using Manager_Create_ok(1) by blast
next
  case (operate m d m1 d1 name x res m2 d2)
  then show ?case using on_queue_ok [of m1 d1 name x res m2 d2] by blast
next
  case (delete m d m1 d1 name ts err m2 d2)
  obtain err' m' d' where "Manager_Delete name ts m1 d1 = Some (err', m', d')" "mgr_ok m' d'"
    by (rule Manager_Delete_ok [OF delete.IH [OF delete.prems]])
  then show ?case using delete.hyps(2) by simp
qed

section \<open>Shutdown\<close>

lemma stored_frame:
  assumes "stored q d" "only_names P d d'" "q_name q @ logExt \<notin> P"
  shows "stored q d'"
proof -
  obtain rs f where h: "recovers rs q" "list_all encodable rs" "map_of (dents d) (q_name q @ logExt) = Some (DFile f)"
      "content d f = log_image rs" "synced d f = log_image rs" using assms(1) by (auto simp: stored_def)
  then have "map_of (dents d') (q_name q @ logExt) = Some (DFile f)" "content d' f = log_image rs" "synced d' f = log_image rs"
    using assms(2,3) by (simp_all add: only_names_def)
  then show ?thesis using h(1,2) only_names_ok [OF assms(2)] by (auto simp: stored_def)
qed

text \<open>A queue that has been put away: its file alone determines what it held.\<close>

definition put_away :: "Log Queue \<Rightarrow> disk \<Rightarrow> bool" where
  "put_away q d \<longleftrightarrow> (\<exists>q' :: Log Queue. sound q' \<and> stored q' d \<and> q_name q' = q_name q \<and> q_ordering q' = q_ordering q
     \<and> image_mset persisted (all_live q') = image_mset persisted (all_live q)
     \<and> q_nextSeq q' = q_nextSeq q \<and> q_enqueued q' = q_enqueued q \<and> q_acked q' = q_acked q)"

lemma put_away_frame:
  "put_away q d \<Longrightarrow> only_names P d d' \<Longrightarrow> q_name q @ logExt \<notin> P \<Longrightarrow> put_away q d'"
  unfolding put_away_def using stored_frame by metis

lemma put_away_opens:
  assumes "put_away q d" "reliable d"
  obtains q2 d2 where "openQueue (q_name q) thr now d = (Inr q2, d2)" "restored now q q2"
proof -
  obtain q' :: "Log Queue" where q': "sound q'" "stored q' d" "q_name q' = q_name q" "q_ordering q' = q_ordering q"
      "image_mset persisted (all_live q') = image_mset persisted (all_live q)"
      "q_nextSeq q' = q_nextSeq q" "q_enqueued q' = q_enqueued q" "q_acked q' = q_acked q" using assms(1) by (auto simp: put_away_def)
  obtain q2 d2 where "openQueue (q_name q') thr now d = (Inr q2, d2)" "restored now q' q2" by (rule clean_restart [OF q'(1,2) assms(2)])
  then show ?thesis using that [of q2 d2] q'(3-) by (simp add: restored_def)
qed

lemma reopens:
  assumes "disk_ok d" "put_away q d"
  shows "\<exists>q2 d2. openQueue (q_name q) thr now (d\<lparr>faults := []\<rparr>) = (Inr q2, d2) \<and> restored now q q2"
proof -
  have "only_names {} d (d\<lparr>faults := []\<rparr>)" by (rule only_names_quiet) (use assms(1) in simp_all)
  then have "put_away q (d\<lparr>faults := []\<rparr>)" using put_away_frame [OF assms(2)] by blast
  moreover have "reliable (d\<lparr>faults := []\<rparr>)" by (simp add: reliable_def)
  ultimately show ?thesis using put_away_opens by blast
qed

lemma Queue_Close_put_away:
  assumes "sound q" "durable file_holds q d" "\<not> q_closed q" "Queue_Close storage_log ts q d = Some (err, q1, d1)"
  shows "put_away q d1"
proof -
  obtain err' q' d' where "Queue_Close storage_log ts q d = Some (err', q', d')" "sound q'" "stored q' d'"
    "image_mset persisted (all_live q') = image_mset persisted (all_live q)" "q_name q' = q_name q" "q_ordering q' = q_ordering q"
    "q_nextSeq q' = q_nextSeq q" "q_enqueued q' = q_enqueued q" "q_acked q' = q_acked q"
    by (rule Queue_Close_stored [OF assms(1-3)])
  then show ?thesis using assms(4) unfolding put_away_def by fastforce
qed

lemma close_queues_ok:
  assumes "distinct (map fst qs)"
    "\<And>n q. (n, q) \<in> set qs \<Longrightarrow> q_name q = n \<and> sound q \<and> durable file_holds q d \<and> \<not> q_closed q" "disk_ok d"
  shows "\<exists>err d'. close_queues ts qs first d = Some (err, d') \<and> only_names (\<Union>n \<in> fst ` set qs. log_names n) d d'
    \<and> (\<forall>(n, q) \<in> set qs. put_away q d') \<and> (first \<noteq> None \<longrightarrow> err = first)"
  using assms
proof (induction qs arbitrary: first d)
  case (Cons p qs)
  obtain n q where p: "p = (n, q)" by force
  have q: "q_name q = n" "sound q" "durable file_holds q d" "\<not> q_closed q" using Cons.prems(2) p by auto
  obtain err q1 d1 where c: "Queue_Close storage_log (ts n) q d = Some (err, q1, d1)" by (rule Queue_Close_stored [OF q(2,3,4)])
  have pa: "put_away q d1" by (rule Queue_Close_put_away [OF q(2,3,4) c])
  have fr: "only_names (log_names n) d d1" using Queue_Close_frame [OF q(2,3) c] q(1) by simp
  have ne: "n' \<noteq> n" if "(n', q') \<in> set qs" for n' q' using that Cons.prems(1) p by force
  have "q_name q' = n' \<and> sound q' \<and> durable file_holds q' d1 \<and> \<not> q_closed q'" if "(n', q') \<in> set qs" for n' q'
    using Cons.prems(2) [of n' q'] that durable_frame [OF _ fr, of q'] other_names(1) [OF ne [OF that]] by simp
  then obtain err' d' where r: "close_queues ts qs (if err \<noteq> None \<and> first = None then err else first) d1 = Some (err', d')"
      "only_names (\<Union>n \<in> fst ` set qs. log_names n) d1 d'" "\<And>n q. (n, q) \<in> set qs \<Longrightarrow> put_away q d'"
      "first \<noteq> None \<longrightarrow> err' = first"
    using Cons.IH [of d1 "if err \<noteq> None \<and> first = None then err else first"] Cons.prems(1) only_names_ok [OF fr] p by fastforce
  have "n @ logExt \<notin> (\<Union>n \<in> fst ` set qs. log_names n)" using ne other_names(1) by fastforce
  then have "put_away q d'" using put_away_frame [OF pa r(2)] q(1) by simp
  moreover have "only_names (\<Union>n \<in> fst ` set (p # qs). log_names n) d d'"
    by (rule only_names_trans [OF only_names_mono [OF fr] only_names_mono [OF r(2)]]) (auto simp: p)
  ultimately show ?case using c r p by auto
qed auto

lemma Manager_Close_ok:
  assumes "mgr_ok m d"
  obtains err m' d' where "Manager_Close ts m d = Some (err, m', d')" "m_queues m' = []" "disk_ok d'"
    "\<And>n q. map_of (m_queues m) n = Some q \<Longrightarrow> put_away q d'"
proof -
  have "\<exists>err d'. close_queues ts (m_queues m) None d = Some (err, d') \<and> only_names (\<Union>n \<in> fst ` set (m_queues m). log_names n) d d'
    \<and> (\<forall>(n, q) \<in> set (m_queues m). put_away q d') \<and> (None \<noteq> (None :: goerror option) \<longrightarrow> err = None)"
    by (rule close_queues_ok) (use assms in \<open>auto simp: mgr_ok_def\<close>)
  then obtain err d' where c: "close_queues ts (m_queues m) None d = Some (err, d')" "only_names (\<Union>n \<in> fst ` set (m_queues m). log_names n) d d'"
    "\<And>n q. (n, q) \<in> set (m_queues m) \<Longrightarrow> put_away q d'" by blast
  then show ?thesis using that only_names_ok [OF c(2)] by (auto simp: Manager_Close_def dest: map_of_SomeD)
qed

section \<open>Listing\<close>

lemma sorted_unique:
  assumes "sorted (map f xs)" "sorted (map f ys)" "mset xs = mset ys" "distinct (map f xs)"
  shows "xs = ys"
proof (rule map_inj_on)
  show "map f xs = map f ys"
    using assms by (metis mset_map properties_for_sort sorted_sort_id)
  have "inj_on f (set xs)" using assms(4) by (simp add: distinct_map)
  then show "inj_on f (set xs \<union> set ys)" using mset_eq_setD [OF assms(3)] by simp
qed

lemma mgr_ok_names:
  assumes "mgr_ok m d"
  shows "map q_name (map snd (m_queues m)) = map fst (m_queues m)" "distinct (map q_name (map snd (m_queues m)))"
proof -
  show eq: "map q_name (map snd (m_queues m)) = map fst (m_queues m)" using assms by (auto simp: mgr_ok_def)
  show "distinct (map q_name (map snd (m_queues m)))" unfolding eq using assms by (simp add: mgr_ok_def)
qed

end
