(* ===== verification/Api_Json.thy ===== *)
theory Api_Json
  imports Frames Message
begin

text \<open>
  How \<open>internal/api/handlers.go\<close> reads a request: \<open>decodeBody\<close>, the request structs of the handlers and
  \<open>seconds\<close>.

  \<open>json.Decoder.Decode\<close> reads the first JSON value of the body and ignores what follows it; a body of white
  space only is \<open>io.EOF\<close>. \<open>http.MaxBytesReader\<close> delivers the first \<open>MaxRecordSize\<close> bytes of a longer body
  and then reports an error, which the decoder meets only if the value has not ended and no syntax error
  has been seen by then. The scanner below is the decoder's state machine; it decides which of the two
  comes first.
\<close>

section \<open>The decoder's scanner\<close>

datatype parse_state = ParseObjectKey | ParseObjectValue | ParseArrayValue

datatype scan_state =
    BeginValue | BeginValueOrEmpty | BeginString | BeginStringOrEmpty | EndValue | EndTop
  | InString | InStringEsc | InStringEscU nat | InNeg | InDigits | InZero | InDot | InDot0 | InE | InESign | InE0
  | InLit string

type_synonym scan_conf = "scan_state \<times> parse_state list"

definition pushParseState :: "parse_state \<Rightarrow> scan_state \<Rightarrow> parse_state list \<Rightarrow> scan_conf option" where
  "pushParseState p s st = (if length st + 1 \<le> maxNestingDepth then Some (s, p # st) else None)"

definition popParseState :: "parse_state list \<Rightarrow> scan_conf" where
  "popParseState st = (if tl st = [] then (EndTop, []) else (EndValue, tl st))"

definition stateBeginValue :: "char \<Rightarrow> parse_state list \<Rightarrow> scan_conf option" where
  "stateBeginValue c st =
     (if is_ws c then Some (BeginValue, st)
      else if c = CHR ''{'' then pushParseState ParseObjectKey BeginStringOrEmpty st
      else if c = CHR ''['' then pushParseState ParseArrayValue BeginValueOrEmpty st
      else if c = dquote then Some (InString, st)
      else if c = CHR ''-'' then Some (InNeg, st)
      else if c = CHR ''0'' then Some (InZero, st)
      else if is_digit c then Some (InDigits, st)
      else if c = CHR ''t'' then Some (InLit ''rue'', st)
      else if c = CHR ''f'' then Some (InLit ''alse'', st)
      else if c = CHR ''n'' then Some (InLit ''ull'', st)
      else None)"

definition stateBeginString :: "char \<Rightarrow> parse_state list \<Rightarrow> scan_conf option" where
  "stateBeginString c st = (if is_ws c then Some (BeginString, st) else if c = dquote then Some (InString, st) else None)"

definition stateEndValue :: "char \<Rightarrow> parse_state list \<Rightarrow> scan_conf option" where
  "stateEndValue c st =
     (case st of [] \<Rightarrow> Some (EndTop, [])
      | p # st' \<Rightarrow>
          if is_ws c then Some (EndValue, st)
          else (case p of
            ParseObjectKey \<Rightarrow> if c = CHR '':'' then Some (BeginValue, ParseObjectValue # st') else None
          | ParseObjectValue \<Rightarrow> if c = CHR '','' then Some (BeginString, ParseObjectKey # st')
              else if c = CHR ''}'' then Some (popParseState st) else None
          | ParseArrayValue \<Rightarrow> if c = CHR '','' then Some (BeginValue, st)
              else if c = CHR '']'' then Some (popParseState st) else None))"

fun scan_byte :: "char \<Rightarrow> scan_conf \<Rightarrow> scan_conf option" where
  "scan_byte c (BeginValue, st) = stateBeginValue c st"
| "scan_byte c (BeginValueOrEmpty, st) =
     (if is_ws c then Some (BeginValueOrEmpty, st) else if c = CHR '']'' then stateEndValue c st else stateBeginValue c st)"
| "scan_byte c (BeginString, st) = stateBeginString c st"
| "scan_byte c (BeginStringOrEmpty, st) =
     (if is_ws c then Some (BeginStringOrEmpty, st)
      else if c = CHR ''}'' then Some (popParseState st) else stateBeginString c st)"
| "scan_byte c (EndValue, st) = stateEndValue c st"
| "scan_byte c (EndTop, st) = Some (EndTop, st)"
| "scan_byte c (InString, st) =
     (if c = dquote then Some (EndValue, st) else if c = bslash then Some (InStringEsc, st)
      else if code c < 32 then None else Some (InString, st))"
| "scan_byte c (InStringEsc, st) =
     (if c = CHR ''u'' then Some (InStringEscU 4, st) else if simple_esc c then Some (InString, st) else None)"
| "scan_byte c (InStringEscU k, st) =
     (if is_hex c then Some (if k \<le> 1 then InString else InStringEscU (k - 1), st) else None)"
| "scan_byte c (InNeg, st) = (if c = CHR ''0'' then Some (InZero, st) else if is_digit c then Some (InDigits, st) else None)"
| "scan_byte c (InDigits, st) =
     (if is_digit c then Some (InDigits, st) else if c = CHR ''.'' then Some (InDot, st)
      else if c = CHR ''e'' \<or> c = CHR ''E'' then Some (InE, st) else stateEndValue c st)"
| "scan_byte c (InZero, st) =
     (if c = CHR ''.'' then Some (InDot, st) else if c = CHR ''e'' \<or> c = CHR ''E'' then Some (InE, st) else stateEndValue c st)"
| "scan_byte c (InDot, st) = (if is_digit c then Some (InDot0, st) else None)"
| "scan_byte c (InDot0, st) =
     (if is_digit c then Some (InDot0, st) else if c = CHR ''e'' \<or> c = CHR ''E'' then Some (InE, st) else stateEndValue c st)"
| "scan_byte c (InE, st) = (if c = CHR ''+'' \<or> c = CHR ''-'' then Some (InESign, st) else if is_digit c then Some (InE0, st) else None)"
| "scan_byte c (InESign, st) = (if is_digit c then Some (InE0, st) else None)"
| "scan_byte c (InE0, st) = (if is_digit c then Some (InE0, st) else stateEndValue c st)"
| "scan_byte c (InLit w, st) =
     (if w \<noteq> [] \<and> c = hd w then Some (if tl w = [] then EndValue else InLit (tl w), st) else None)"

fun scan_all :: "string \<Rightarrow> scan_conf \<Rightarrow> scan_conf option" where
  "scan_all [] cf = Some cf"
| "scan_all (c # s) cf = (case scan_byte c cf of None \<Rightarrow> None | Some cf' \<Rightarrow> scan_all s cf')"

text \<open>No byte has been refused and the value has not ended: the decoder asks for more.\<close>

definition wants_more :: "string \<Rightarrow> bool" where
  "wants_more s = (case scan_all s (BeginValue, []) of None \<Rightarrow> False | Some (s', _) \<Rightarrow> s' \<noteq> EndTop)"

section \<open>Decoding\<close>

datatype decode_err = TooLarge | Malformed

fun self_delimiting :: "json \<Rightarrow> bool" where
  "self_delimiting (JObj _) = True"
| "self_delimiting (JArr _) = True"
| "self_delimiting _ = False"

definition Decode :: "(string \<Rightarrow> string \<Rightarrow> 'r \<Rightarrow> 'r result) \<Rightarrow> string list \<Rightarrow> 'r \<Rightarrow> string \<Rightarrow> decode_err + 'r" where
  "Decode step names zero body =
     (let p = take MaxRecordSize body; over = length body > MaxRecordSize in
      case parse_value (Suc (length p)) p of
        None \<Rightarrow> if over then Inl (if wants_more p then TooLarge else Malformed)
                else if skip_ws p = [] then Inr zero else Inl Malformed
      | Some (j, rest) \<Rightarrow>
          if json_depth j > maxNestingDepth then Inl Malformed
          else if over \<and> rest = [] \<and> \<not> self_delimiting j then Inl TooLarge
          else (case unmarshal_members (take (length p - length rest) p) of
              Inl _ \<Rightarrow> Inl Malformed
            | Inr ms \<Rightarrow> (case fold_fields step names ms zero of Inl _ \<Rightarrow> Inl Malformed | Inr x \<Rightarrow> Inr x)))"

text \<open>A pointer to an integer: \<open>null\<close> makes it nil.\<close>

definition field_pointer :: "string \<Rightarrow> int option result" where
  "field_pointer raw = (case parse_json raw of
      Some (JNum t) \<Rightarrow> (case ParseInt64 t of Some n \<Rightarrow> Inr (Some n) | None \<Rightarrow> Inl (ErrOther ''json''))
    | Some (JLit l) \<Rightarrow> if l = ''null'' then Inr None else Inl (ErrOther ''json'')
    | _ \<Rightarrow> Inl (ErrOther ''json''))"

record createReq =
  cr_Name :: string
  cr_Ordering :: string

record sendReq =
  sd_Body :: RawMessage
  sd_Priority :: "int option"
  sd_DelaySeconds :: "int option"

record receiveReq =
  rc_VisibilityTimeoutSeconds :: "int option"
  rc_WaitSeconds :: "int option"

record ackReq =
  ak_Receipt :: string

record nackReq =
  nk_Receipt :: string
  nk_DelaySeconds :: "int option"

definition create_field :: "string \<Rightarrow> string \<Rightarrow> createReq \<Rightarrow> createReq result" where
  "create_field n raw r =
     (if n = ''name'' then upd_field (field_string raw (cr_Name r)) (\<lambda>x. r\<lparr>cr_Name := x\<rparr>)
      else upd_field (field_string raw (cr_Ordering r)) (\<lambda>x. r\<lparr>cr_Ordering := x\<rparr>))"

definition send_field :: "string \<Rightarrow> string \<Rightarrow> sendReq \<Rightarrow> sendReq result" where
  "send_field n raw r =
     (if n = ''body'' then Inr (r\<lparr>sd_Body := raw\<rparr>)
      else if n = ''priority'' then upd_field (field_pointer raw) (\<lambda>x. r\<lparr>sd_Priority := x\<rparr>)
      else upd_field (field_pointer raw) (\<lambda>x. r\<lparr>sd_DelaySeconds := x\<rparr>))"

definition receive_field :: "string \<Rightarrow> string \<Rightarrow> receiveReq \<Rightarrow> receiveReq result" where
  "receive_field n raw r =
     (if n = ''visibility_timeout_seconds'' then upd_field (field_pointer raw) (\<lambda>x. r\<lparr>rc_VisibilityTimeoutSeconds := x\<rparr>)
      else upd_field (field_pointer raw) (\<lambda>x. r\<lparr>rc_WaitSeconds := x\<rparr>))"

definition ack_req_field :: "string \<Rightarrow> string \<Rightarrow> ackReq \<Rightarrow> ackReq result" where
  "ack_req_field n raw r = upd_field (field_string raw (ak_Receipt r)) (\<lambda>x. r\<lparr>ak_Receipt := x\<rparr>)"

definition nack_req_field :: "string \<Rightarrow> string \<Rightarrow> nackReq \<Rightarrow> nackReq result" where
  "nack_req_field n raw r =
     (if n = ''receipt'' then upd_field (field_string raw (nk_Receipt r)) (\<lambda>x. r\<lparr>nk_Receipt := x\<rparr>)
      else upd_field (field_pointer raw) (\<lambda>x. r\<lparr>nk_DelaySeconds := x\<rparr>))"

section \<open>Durations\<close>

definition Second :: Duration where
  "Second = 1000000000"

definition defaultVisibility :: Duration where
  "defaultVisibility = 30 * Second"

definition maxVisibility :: Duration where
  "maxVisibility = 12 * 3600 * Second"

definition maxWait :: Duration where
  "maxWait = 60 * Second"

definition maxDelay :: Duration where
  "maxDelay = 7 * 24 * 3600 * Second"

text \<open>A \<open>time.Duration\<close> is an \<open>int64\<close>, and the product wraps around.\<close>

definition duration_mult :: "int \<Rightarrow> Duration \<Rightarrow> Duration" where
  "duration_mult v d = sint (word_of_int v * word_of_int d :: 64 word)"

definition seconds :: "int option \<Rightarrow> Duration \<Rightarrow> Duration \<Rightarrow> string \<Rightarrow> Duration result" where
  "seconds v def mx field =
     (case v of None \<Rightarrow> Inr def
      | Some n \<Rightarrow>
          if n < 0 then Inl (ErrOther (field @ '' must not be negative''))
          else let d = duration_mult n Second in
            if d > mx then Inl (ErrOther (field @ '' must not exceed '' @ show_int (mx div Second))) else Inr d)"

end
