(* ===== verification/Api_Model.thy ===== *)
theory Api_Model
  imports Manager_Run Api_Json
begin

text \<open>
  \<open>internal/api/handlers.go\<close> and \<open>routes.go\<close>: the HTTP surface. A response is its status and the value that
  is encoded; the text of an error that comes from the engine is the error. A handler works on the registry
  and the disk; \<open>None\<close> is a run-time panic. The readings of the clock, the random bytes, the state of
  the request's context and the last passes of a closing queue's scheduler come with the request.
\<close>

section \<open>Responses\<close>

record queueView =
  v_Name :: string
  v_Ordering :: string
  v_CreatedAt :: Time
  v_Stats :: Stats

record deliveryView =
  dv_MessageID :: string
  dv_Body :: RawMessage
  dv_Priority :: int
  dv_Sequence :: "64 word"
  dv_ReceiveCount :: int
  dv_CreatedAt :: Time
  dv_AvailableAt :: Time
  dv_Receipt :: string
  dv_VisibilityDeadline :: Time

datatype payload =
    PNone
  | PError string
  | PEngine goerror
  | PQueue queueView
  | PQueues "queueView list"
  | PStats Stats
  | PDelivery deliveryView
  | PFields "(string \<times> string) list"

record response =
  rs_status :: nat
  rs_payload :: payload

abbreviation "StatusOK \<equiv> 200 :: nat"
abbreviation "StatusCreated \<equiv> 201 :: nat"
abbreviation "StatusNoContent \<equiv> 204 :: nat"
abbreviation "StatusBadRequest \<equiv> 400 :: nat"
abbreviation "StatusNotFound \<equiv> 404 :: nat"
abbreviation "StatusMethodNotAllowed \<equiv> 405 :: nat"
abbreviation "StatusConflict \<equiv> 409 :: nat"
abbreviation "StatusRequestEntityTooLarge \<equiv> 413 :: nat"
abbreviation "StatusInternalServerError \<equiv> 500 :: nat"
abbreviation "StatusServiceUnavailable \<equiv> 503 :: nat"

definition writeJSON :: "nat \<Rightarrow> payload \<Rightarrow> response" where
  "writeJSON status v = \<lparr>rs_status = status, rs_payload = v\<rparr>"

definition writeError :: "nat \<Rightarrow> string \<Rightarrow> response" where
  "writeError status msg = writeJSON status (PError msg)"

definition writeEngineError :: "goerror \<Rightarrow> response" where
  "writeEngineError err = writeJSON
     (if err = ErrQueueNotFound \<or> err = ErrQueueDeleted then StatusNotFound
      else if err = ErrReceiptNotFound then StatusNotFound
      else if err = ErrQueueExists then StatusConflict
      else if err = ErrEmptyBody then StatusBadRequest
      else if err = ErrLogBroken then StatusServiceUnavailable
      else StatusInternalServerError) (PEngine err)"

text \<open>A validation error that the handler itself answers with 400.\<close>

definition badRequest :: "goerror \<Rightarrow> response" where
  "badRequest err = writeJSON StatusBadRequest (PEngine err)"

definition decodeBody :: "(string \<Rightarrow> string \<Rightarrow> 'r \<Rightarrow> 'r result) \<Rightarrow> string list \<Rightarrow> 'r \<Rightarrow> string \<Rightarrow> response + 'r" where
  "decodeBody step names zero body = (case Decode step names zero body of
      Inr x \<Rightarrow> Inr x
    | Inl TooLarge \<Rightarrow> Inl (writeError StatusRequestEntityTooLarge ''request body exceeds 8388608 bytes'')
    | Inl Malformed \<Rightarrow> Inl (writeError StatusBadRequest ''invalid JSON''))"

definition viewOf :: "'l Queue \<Rightarrow> queueView" where
  "viewOf q = (let cfg = Queue_Config q in
     \<lparr>v_Name = c_Name cfg, v_Ordering = ordering_string (c_Ordering cfg), v_CreatedAt = c_CreatedAt cfg, v_Stats = Queue_Stats q\<rparr>)"

definition deliveryView_of :: "Delivery \<Rightarrow> deliveryView" where
  "deliveryView_of d = \<lparr>dv_MessageID = d_ID d, dv_Body = d_Body d, dv_Priority = d_Priority d, dv_Sequence = d_Seq d,
     dv_ReceiveCount = d_ReceiveCount d, dv_CreatedAt = d_CreatedAt d, dv_AvailableAt = d_AvailableAt d,
     dv_Receipt = d_Receipt d, dv_VisibilityDeadline = d_Deadline d\<rparr>"

section \<open>Handlers\<close>

text \<open>\<open>en_now\<close>: \<open>time.Now\<close> in \<open>Create\<close>, \<open>Enqueue\<close>, \<open>Nack\<close> and on entry of \<open>Receive\<close>; \<open>en_pop\<close>, \<open>en_check\<close>: in
  the loop of \<open>Receive\<close>; \<open>en_ctx\<close>: the context's error there; \<open>en_gone\<close>: whether it is set when \<open>Receive\<close> has
  returned; \<open>en_id\<close>: the goroutine.\<close>

record env =
  en_now :: Time
  en_pop :: Time
  en_check :: Time
  en_rnd :: "bytes option"
  en_ctx :: "goerror option"
  en_gone :: bool
  en_id :: nat
  en_ts :: "Time list"

text \<open>\<open>Parked\<close> is a long poll that waits, with its visibility timeout, wait and deadline; its later rounds
  are those of \<open>Receive_run\<close>, and \<open>receive_reply\<close> answers it.\<close>

datatype reply = Reply response | NoReply | Parked Duration Duration Time

type_synonym served = "(reply \<times> Manager \<times> disk) option"

text \<open>The handler holds the registered queue itself: what happens to it is seen through the map.\<close>

definition put_queue :: "string \<Rightarrow> Log Queue \<Rightarrow> Manager \<Rightarrow> Manager" where
  "put_queue name q' m = m\<lparr>m_queues := map (\<lambda>(n, p). (n, if n = name then q' else p)) (m_queues m)\<rparr>"

definition h_createQueue :: "env \<Rightarrow> string \<Rightarrow> Manager \<Rightarrow> disk \<Rightarrow> served" where
  "h_createQueue env body m d =
     (case decodeBody create_field [''name'', ''ordering''] \<lparr>cr_Name = '''', cr_Ordering = ''''\<rparr> body of
        Inl resp \<Rightarrow> Some (Reply resp, m, d)
      | Inr req \<Rightarrow> (case ValidateName (cr_Name req) of
          Some err \<Rightarrow> Some (Reply (badRequest err), m, d)
        | None \<Rightarrow> (case ParseOrdering (cr_Ordering req) of
            Inl err \<Rightarrow> Some (Reply (badRequest err), m, d)
          | Inr odr \<Rightarrow> (case Manager_Create (cr_Name req) odr (en_now env) m d of
              (Inl err, m1, d1) \<Rightarrow> Some (Reply (writeEngineError err), m1, d1)
            | (Inr q, m1, d1) \<Rightarrow> Some (Reply (writeJSON StatusCreated (PQueue (viewOf q))), m1, d1)))))"

definition h_listQueues :: "Manager \<Rightarrow> disk \<Rightarrow> served" where
  "h_listQueues m d = Some (Reply (writeJSON StatusOK (PQueues (map viewOf (Manager_List m)))), m, d)"

definition h_getQueue :: "string \<Rightarrow> Manager \<Rightarrow> disk \<Rightarrow> served" where
  "h_getQueue name m d = (case Manager_Get name m of
      Inl err \<Rightarrow> Some (Reply (writeEngineError err), m, d)
    | Inr q \<Rightarrow> Some (Reply (writeJSON StatusOK (PQueue (viewOf q))), m, d))"

definition h_deleteQueue :: "env \<Rightarrow> string \<Rightarrow> Manager \<Rightarrow> disk \<Rightarrow> served" where
  "h_deleteQueue env name m d = (case Manager_Delete name (en_ts env) m d of
      None \<Rightarrow> None
    | Some (Some err, m1, d1) \<Rightarrow> Some (Reply (writeEngineError err), m1, d1)
    | Some (None, m1, d1) \<Rightarrow> Some (Reply (writeJSON StatusNoContent PNone), m1, d1))"

definition h_stats :: "string \<Rightarrow> Manager \<Rightarrow> disk \<Rightarrow> served" where
  "h_stats name m d = (case Manager_Get name m of
      Inl err \<Rightarrow> Some (Reply (writeEngineError err), m, d)
    | Inr q \<Rightarrow> Some (Reply (writeJSON StatusOK (PStats (Queue_Stats q))), m, d))"

text \<open>What \<open>sendMessage\<close> passes to \<open>Enqueue\<close>: body, priority, delay.\<close>

definition send_args :: "string \<Rightarrow> response + (RawMessage \<times> int \<times> Duration)" where
  "send_args body =
     (case decodeBody send_field [''body'', ''priority'', ''delay_seconds'']
             \<lparr>sd_Body = '''', sd_Priority = None, sd_DelaySeconds = None\<rparr> body of
        Inl resp \<Rightarrow> Inl resp
      | Inr req \<Rightarrow>
          if length (sd_Body req) = 0 then Inl (writeError StatusBadRequest ''body is required'')
          else (case seconds (sd_DelaySeconds req) 0 maxDelay ''delay_seconds'' of
              Inl err \<Rightarrow> Inl (badRequest err)
            | Inr delay \<Rightarrow> Inr (sd_Body req, (case sd_Priority req of None \<Rightarrow> 0 | Some p \<Rightarrow> p), delay)))"

definition h_sendMessage :: "env \<Rightarrow> string \<Rightarrow> string \<Rightarrow> Manager \<Rightarrow> disk \<Rightarrow> served" where
  "h_sendMessage env name body m d =
     (case Manager_Get name m of
        Inl err \<Rightarrow> Some (Reply (writeEngineError err), m, d)
      | Inr q \<Rightarrow> (case send_args body of
          Inl resp \<Rightarrow> Some (Reply resp, m, d)
        | Inr (msg, priority, delay) \<Rightarrow>
            (case Queue_Enqueue storage_log msg priority delay (en_now env) (en_rnd env) q d of
               (Inl err, q1, d1) \<Rightarrow> Some (Reply (writeEngineError err), put_queue name q1 m, d1)
             | (Inr i, q1, d1) \<Rightarrow>
                 Some (Reply (writeJSON StatusCreated (PFields [(''message_id'', i)])), put_queue name q1 m, d1))))"

text \<open>What \<open>receive\<close> passes to \<open>Receive\<close>: visibility timeout and wait; and what it makes of the result.\<close>

definition receive_args :: "string \<Rightarrow> response + (Duration \<times> Duration)" where
  "receive_args body =
     (case decodeBody receive_field [''visibility_timeout_seconds'', ''wait_seconds'']
             \<lparr>rc_VisibilityTimeoutSeconds = None, rc_WaitSeconds = None\<rparr> body of
        Inl resp \<Rightarrow> Inl resp
      | Inr req \<Rightarrow> (case seconds (rc_VisibilityTimeoutSeconds req) defaultVisibility maxVisibility ''visibility_timeout_seconds'' of
          Inl err \<Rightarrow> Inl (badRequest err)
        | Inr visibility \<Rightarrow> (case seconds (rc_WaitSeconds req) 0 maxWait ''wait_seconds'' of
            Inl err \<Rightarrow> Inl (badRequest err)
          | Inr wait \<Rightarrow> Inr (visibility, wait))))"

definition receive_reply :: "bool \<Rightarrow> Delivery option result \<Rightarrow> reply" where
  "receive_reply gone res = (case res of
      Inl err \<Rightarrow> if gone then NoReply else Reply (writeEngineError err)
    | Inr None \<Rightarrow> Reply (writeJSON StatusNoContent PNone)
    | Inr (Some dl) \<Rightarrow> Reply (writeJSON StatusOK (PDelivery (deliveryView_of dl))))"

definition h_receive :: "env \<Rightarrow> string \<Rightarrow> string \<Rightarrow> Manager \<Rightarrow> disk \<Rightarrow> served" where
  "h_receive env name body m d =
     (case Manager_Get name m of
        Inl err \<Rightarrow> Some (Reply (writeEngineError err), m, d)
      | Inr q \<Rightarrow> (case receive_args body of
          Inl resp \<Rightarrow> Some (Reply resp, m, d)
        | Inr (visibility, wait) \<Rightarrow>
            (let deadline = (if wait > 0 then en_now env + wait else zero_time) in
             case receive_round (en_id env) visibility wait deadline (en_ctx env) (en_pop env) (en_check env) (en_rnd env) q of
               None \<Rightarrow> None
             | Some (Return res, q1) \<Rightarrow> Some (receive_reply (en_gone env) res, put_queue name q1 m, d)
             | Some (Park, q1) \<Rightarrow> Some (Parked visibility wait deadline, put_queue name q1 m, d))))"

definition ack_args :: "string \<Rightarrow> response + string" where
  "ack_args body =
     (case decodeBody ack_req_field [''receipt''] \<lparr>ak_Receipt = ''''\<rparr> body of
        Inl resp \<Rightarrow> Inl resp
      | Inr req \<Rightarrow> if ak_Receipt req = '''' then Inl (writeError StatusBadRequest ''receipt is required'') else Inr (ak_Receipt req))"

definition h_ack :: "string \<Rightarrow> string \<Rightarrow> Manager \<Rightarrow> disk \<Rightarrow> served" where
  "h_ack name body m d =
     (case Manager_Get name m of
        Inl err \<Rightarrow> Some (Reply (writeEngineError err), m, d)
      | Inr q \<Rightarrow> (case ack_args body of
          Inl resp \<Rightarrow> Some (Reply resp, m, d)
        | Inr receipt \<Rightarrow> (case Queue_Ack storage_log receipt q d of
            None \<Rightarrow> None
          | Some (Some err, q1, d1) \<Rightarrow> Some (Reply (writeEngineError err), put_queue name q1 m, d1)
          | Some (None, q1, d1) \<Rightarrow> Some (Reply (writeJSON StatusOK (PFields [(''status'', ''acked'')])), put_queue name q1 m, d1))))"

definition nack_args :: "string \<Rightarrow> response + (string \<times> Duration)" where
  "nack_args body =
     (case decodeBody nack_req_field [''receipt'', ''delay_seconds''] \<lparr>nk_Receipt = '''', nk_DelaySeconds = None\<rparr> body of
        Inl resp \<Rightarrow> Inl resp
      | Inr req \<Rightarrow>
          if nk_Receipt req = '''' then Inl (writeError StatusBadRequest ''receipt is required'')
          else (case seconds (nk_DelaySeconds req) 0 maxDelay ''delay_seconds'' of
              Inl err \<Rightarrow> Inl (badRequest err)
            | Inr delay \<Rightarrow> Inr (nk_Receipt req, delay)))"

definition h_nack :: "env \<Rightarrow> string \<Rightarrow> string \<Rightarrow> Manager \<Rightarrow> disk \<Rightarrow> served" where
  "h_nack env name body m d =
     (case Manager_Get name m of
        Inl err \<Rightarrow> Some (Reply (writeEngineError err), m, d)
      | Inr q \<Rightarrow> (case nack_args body of
          Inl resp \<Rightarrow> Some (Reply resp, m, d)
        | Inr (receipt, delay) \<Rightarrow> (case Queue_Nack storage_log receipt delay (en_now env) q d of
            None \<Rightarrow> None
          | Some (Some err, q1, d1) \<Rightarrow> Some (Reply (writeEngineError err), put_queue name q1 m, d1)
          | Some (None, q1, d1) \<Rightarrow> Some (Reply (writeJSON StatusOK (PFields [(''status'', ''nacked'')])), put_queue name q1 m, d1))))"

section \<open>Routing\<close>

text \<open>The mux matches cleaned paths segment by segment, none of them empty; a \<open>GET\<close> pattern serves \<open>HEAD\<close> too.
  A path that only patterns of other methods match is answered with 405. The patterns differ in
  length or in a literal, apart from the catch-all \<open>GET /\<close>, which every other pattern outranks.\<close>

datatype meth = GET | HEAD | POST | DELETE | OtherMethod

datatype segment = Lit string | Wild

datatype endpoint =
    CreateQueue | ListQueues | GetQueue | DeleteQueue | SendMessage | ReceiveMessage | AckMessage | NackMessage
  | StatsQueue | Health

definition routes :: "(meth \<times> segment list \<times> endpoint) list" where
  "routes =
     [(POST, [Lit ''queues''], CreateQueue),
      (GET, [Lit ''queues''], ListQueues),
      (GET, [Lit ''queues'', Wild], GetQueue),
      (DELETE, [Lit ''queues'', Wild], DeleteQueue),
      (POST, [Lit ''queues'', Wild, Lit ''messages''], SendMessage),
      (POST, [Lit ''queues'', Wild, Lit ''receive''], ReceiveMessage),
      (POST, [Lit ''queues'', Wild, Lit ''ack''], AckMessage),
      (POST, [Lit ''queues'', Wild, Lit ''nack''], NackMessage),
      (GET, [Lit ''queues'', Wild, Lit ''stats''], StatsQueue),
      (GET, [Lit ''health''], Health)]"

fun seg_matches :: "segment \<Rightarrow> string \<Rightarrow> bool" where
  "seg_matches (Lit w) s \<longleftrightarrow> s = w"
| "seg_matches Wild s \<longleftrightarrow> s \<noteq> []"

definition meth_matches :: "meth \<Rightarrow> meth \<Rightarrow> bool" where
  "meth_matches p r \<longleftrightarrow> p = r \<or> p = GET \<and> r = HEAD"

record request =
  rq_method :: meth
  rq_path :: "string list"
  rq_body :: string

datatype target = To endpoint | ToFiles | Refuse nat

definition route :: "bool \<Rightarrow> request \<Rightarrow> target" where
  "route web req =
     (let here = filter (\<lambda>(_, ps, _). list_all2 seg_matches ps (rq_path req)) routes in
      case find (\<lambda>(mt, _, _). meth_matches mt (rq_method req)) here of
        Some (_, _, e) \<Rightarrow> To e
      | None \<Rightarrow> if web \<and> meth_matches GET (rq_method req) then ToFiles
                else if web \<or> here \<noteq> [] then Refuse StatusMethodNotAllowed else Refuse StatusNotFound)"

text \<open>\<open>files\<close> answers for the embedded user interface, if there is one.\<close>

definition serve :: "(string list \<Rightarrow> response) option \<Rightarrow> env \<Rightarrow> request \<Rightarrow> Manager \<Rightarrow> disk \<Rightarrow> served" where
  "serve web env req m d =
     (let name = rq_path req ! 1; body = rq_body req in
      case route (web \<noteq> None) req of
        Refuse st \<Rightarrow> Some (Reply (writeJSON st PNone), m, d)
      | ToFiles \<Rightarrow> Some (Reply ((the web) (rq_path req)), m, d)
      | To e \<Rightarrow> (case e of
          CreateQueue \<Rightarrow> h_createQueue env body m d
        | ListQueues \<Rightarrow> h_listQueues m d
        | GetQueue \<Rightarrow> h_getQueue name m d
        | DeleteQueue \<Rightarrow> h_deleteQueue env name m d
        | SendMessage \<Rightarrow> h_sendMessage env name body m d
        | ReceiveMessage \<Rightarrow> h_receive env name body m d
        | AckMessage \<Rightarrow> h_ack name body m d
        | NackMessage \<Rightarrow> h_nack env name body m d
        | StatsQueue \<Rightarrow> h_stats name m d
        | Health \<Rightarrow> Some (Reply (writeJSON StatusOK (PFields [(''status'', ''ok'')])), m, d)))"

end
