(* ===== verification/Json_Prefix.thy ===== *)
theory Json_Prefix
  imports Json_Struct
begin

text \<open>
  The parser reads a prefix of its input and is not influenced by what follows, and the fuel it needs is
  bounded by what it reads. Hence the raw text of an object's member, as the decoder stores it in a
  \<open>json.RawMessage\<close>, is itself a JSON document, nested less deeply than the object.
\<close>

lemma skip_ws_append: "skip_ws u = c # v \<Longrightarrow> skip_ws (u @ r) = c # v @ r"
  by (induction u) (auto simp: skip_ws_def split: if_splits)

lemma skip_ws_idem [simp]: "skip_ws (skip_ws s) = skip_ws s"
  by (simp add: skip_ws_def dropWhile_idem)

lemma skip_ws_split: "skip_ws s = c # t \<Longrightarrow> \<exists>w. s = w @ c # t \<and> (\<forall>x. skip_ws (w @ c # x) = c # x)"
proof (induction s)
  case (Cons a s)
  show ?case
  proof (cases "is_ws a")
    case True
    then obtain w where "s = w @ c # t" "\<And>x. skip_ws (w @ c # x) = c # x" using Cons by (auto simp: skip_ws_def)
    then show ?thesis using True by (intro exI [of _ "a # w"]) (simp add: skip_ws_def)
  next
    case False
    then show ?thesis using Cons.prems by (intro exI [of _ "[]"]) (auto simp: skip_ws_def)
  qed
qed (simp add: skip_ws_def)

text \<open>What a number may be followed by.\<close>

definition tail_ok :: "string \<Rightarrow> bool" where
  "tail_ok r \<longleftrightarrow> r = [] \<or> \<not> num_char (hd r)"

lemma parse_num_prefix:
  assumes "parse_num s = Some (j, r)"
  shows "\<exists>u. s = u @ r \<and> (\<forall>r'. tail_ok r' \<longrightarrow> parse_num (u @ r') = Some (j, r'))"
proof -
  let ?t = "takeWhile num_char s"
  have j: "j = JNum ?t" "r = dropWhile num_char s" "valid_num ?t" using assms by (auto simp: parse_num_def Let_def split: if_splits)
  have "parse_num (?t @ r') = Some (j, r')" if "tail_ok r'" for r'
  proof -
    have "takeWhile num_char (?t @ r') = ?t" "dropWhile num_char (?t @ r') = r'"
      using that by (cases r'; force simp: tail_ok_def takeWhile_append dropWhile_append dest: set_takeWhileD)+
    then show ?thesis using j by (simp add: parse_num_def)
  qed
  then show ?thesis using j(2) takeWhile_dropWhile_id [of num_char s] by metis
qed

lemma parse_lit_prefix:
  assumes "parse_lit s = Some (j, r)"
  shows "\<exists>u. s = u @ r \<and> (\<forall>r'. parse_lit (u @ r') = Some (j, r'))"
proof -
  consider "take 4 s = ''null''" "j = JLit ''null''" "r = drop 4 s" | "take 4 s = ''true''" "j = JLit ''true''" "r = drop 4 s"
    | "take 5 s = ''false''" "j = JLit ''false''" "r = drop 5 s"
    using assms by (auto simp: parse_lit_def split: if_splits)
  then show ?thesis
  proof cases
    case 1
    then show ?thesis by (intro exI [of _ "''null''"]) (use append_take_drop_id [of 4 s] in \<open>auto simp: parse_lit_def\<close>)
  next
    case 2
    then show ?thesis by (intro exI [of _ "''true''"]) (use append_take_drop_id [of 4 s] in \<open>auto simp: parse_lit_def\<close>)
  next
    case 3
    then show ?thesis by (intro exI [of _ "''false''"]) (use append_take_drop_id [of 5 s] in \<open>auto simp: parse_lit_def\<close>)
  qed
qed


text \<open>The parser is a function of the prefix it reads; fuel beyond the length of that prefix is enough.\<close>

definition reads :: "(nat \<Rightarrow> string \<Rightarrow> ('a \<times> string) option) \<Rightarrow> (string \<Rightarrow> bool) \<Rightarrow> string \<Rightarrow> 'a \<Rightarrow> string \<Rightarrow> bool" where
  "reads p ok s x r \<longleftrightarrow> (\<exists>u. s = u @ r \<and> skip_ws u \<noteq> [] \<and> (\<forall>g r'. length u < g \<longrightarrow> ok r' \<longrightarrow> p g (u @ r') = Some (x, r')))"

lemma readsE:
  assumes "reads p ok s x r"
  obtains u c v where "s = u @ r" "skip_ws u = c # v" "\<And>t. skip_ws (u @ t) = c # v @ t"
    "\<And>g r'. length u < g \<Longrightarrow> ok r' \<Longrightarrow> p g (u @ r') = Some (x, r')"
proof -
  obtain u where u: "s = u @ r" "skip_ws u \<noteq> []" "\<And>g r'. length u < g \<Longrightarrow> ok r' \<Longrightarrow> p g (u @ r') = Some (x, r')"
    using assms by (auto simp: reads_def)
  obtain c v where "skip_ws u = c # v" using u(2) by (cases "skip_ws u") auto
  then show ?thesis using that u skip_ws_append by metis
qed

lemma punct_tail_ok: "skip_ws r = c # t \<Longrightarrow> \<not> num_char c \<Longrightarrow> tail_ok r"
  by (cases r) (auto simp: tail_ok_def skip_ws_def num_char_def is_ws_def is_digit_def code_def split: if_splits)

lemma punct_not_num [simp]: "\<not> num_char (CHR '','')" "\<not> num_char (CHR '']'')" "\<not> num_char (CHR ''}'')"
  by (simp_all add: num_char_def is_digit_def code_def)

lemma parse_elems_reads:
  assumes v: "\<And>s j r. parse_value f s = Some (j, r) \<Longrightarrow> reads parse_value tail_ok s j r"
    and e: "\<And>s xs r. parse_elems f s = Some (xs, r) \<Longrightarrow> reads parse_elems (\<lambda>_. True) s xs r"
    and p: "parse_elems (Suc f) s = Some (xs, r)"
  shows "reads parse_elems (\<lambda>_. True) s xs r"
proof -
  obtain j r0 c r1 where j: "parse_value f s = Some (j, r0)" and sk: "skip_ws r0 = c # r1"
      and c: "c = CHR '','' \<and> (\<exists>ys. parse_elems f r1 = Some (ys, r) \<and> xs = j # ys) \<or> c = CHR '']'' \<and> xs = [j] \<and> r = r1"
    using p by (auto split: option.splits list.splits if_splits)
  obtain u a b where u: "s = u @ r0" "skip_ws u = a # b" "\<And>g r'. length u < g \<Longrightarrow> tail_ok r' \<Longrightarrow> parse_value g (u @ r') = Some (j, r')"
    by (rule readsE [OF v [OF j]]) blast
  obtain w where w: "r0 = w @ c # r1" "\<And>x. skip_ws (w @ c # x) = c # x" using skip_ws_split [OF sk] by blast
  have t: "tail_ok (w @ c # x)" for x using punct_tail_ok [OF w(2)] c by auto
  show ?thesis using c
  proof
    assume "c = CHR '','' \<and> (\<exists>ys. parse_elems f r1 = Some (ys, r) \<and> xs = j # ys)"
    then obtain ys where ys: "c = CHR '',''" "parse_elems f r1 = Some (ys, r)" "xs = j # ys" by blast
    obtain u1 where u1: "r1 = u1 @ r" "\<And>g r'. length u1 < g \<Longrightarrow> parse_elems g (u1 @ r') = Some (ys, r')"
      by (rule readsE [OF e [OF ys(2)]]) blast
    have "parse_elems g ((u @ w @ c # u1) @ r') = Some (xs, r')" if "length (u @ w @ c # u1) < g" for g r'
      using that u(3) t w(2) u1(2) ys(1,3) by (cases g) auto
    then show ?thesis unfolding reads_def using u(1,2) w(1) u1(1)
      by (intro exI [of _ "u @ w @ c # u1"]) (auto simp: skip_ws_append)
  next
    assume d: "c = CHR '']'' \<and> xs = [j] \<and> r = r1"
    have "parse_elems g ((u @ w @ [c]) @ r') = Some (xs, r')" if "length (u @ w @ [c]) < g" for g r'
      using that u(3) t w(2) d by (cases g) auto
    then show ?thesis unfolding reads_def using u(1,2) w(1) d
      by (intro exI [of _ "u @ w @ [c]"]) (auto simp: skip_ws_append)
  qed
qed

lemma parse_members_reads:
  assumes v: "\<And>s j r. parse_value f s = Some (j, r) \<Longrightarrow> reads parse_value tail_ok s j r"
    and e: "\<And>s ms r. parse_members f s = Some (ms, r) \<Longrightarrow> reads parse_members (\<lambda>_. True) s ms r"
    and p: "parse_members (Suc f) s = Some (ms, r)"
  shows "reads parse_members (\<lambda>_. True) s ms r"
proof -
  obtain k r1 r2 r3 j c r4 where k: "skip_ws s = dquote # k @ dquote # r1" "vstr k" "skip_ws r1 = CHR '':'' # r2" "parse_value f r2 = Some (j, r3)"
      "skip_ws r3 = c # r4"
      and c: "c = CHR '','' \<and> (\<exists>ys. parse_members f r4 = Some (ys, r) \<and> ms = (k, j) # ys) \<or> c = CHR ''}'' \<and> ms = [(k, j)] \<and> r = r4"
    using p by (auto split: option.splits list.splits if_splits dest!: str_body_vstr)
  obtain w0 where w0: "s = w0 @ dquote # k @ dquote # r1" "\<And>x. skip_ws (w0 @ dquote # x) = dquote # x" using skip_ws_split [OF k(1)] by blast
  obtain w1 where w1: "r1 = w1 @ CHR '':'' # r2" "\<And>x. skip_ws (w1 @ CHR '':'' # x) = CHR '':'' # x" using skip_ws_split [OF k(3)] by blast
  obtain u where u: "r2 = u @ r3" "\<And>g r'. length u < g \<Longrightarrow> tail_ok r' \<Longrightarrow> parse_value g (u @ r') = Some (j, r')"
    by (rule readsE [OF v [OF k(4)]]) blast
  obtain w where w: "r3 = w @ c # r4" "\<And>x. skip_ws (w @ c # x) = c # x" using skip_ws_split [OF k(5)] by blast
  have t: "tail_ok (w @ c # x)" for x using punct_tail_ok [OF w(2)] c by auto
  let ?h = "w0 @ dquote # k @ dquote # w1 @ CHR '':'' # u @ w @ [c]"
  have st: "s = ?h @ r4" using w0(1) w1(1) u(1) w(1) by simp
  have ne: "skip_ws (?h @ x) \<noteq> []" for x using w0(2) by simp
  show ?thesis using c
  proof
    assume "c = CHR '','' \<and> (\<exists>ys. parse_members f r4 = Some (ys, r) \<and> ms = (k, j) # ys)"
    then obtain ys where ys: "c = CHR '',''" "parse_members f r4 = Some (ys, r)" "ms = (k, j) # ys" by blast
    obtain u1 where u1: "r4 = u1 @ r" "\<And>g r'. length u1 < g \<Longrightarrow> parse_members g (u1 @ r') = Some (ys, r')"
      by (rule readsE [OF e [OF ys(2)]]) blast
    have "parse_members g ((?h @ u1) @ r') = Some (ms, r')" if "length (?h @ u1) < g" for g r'
      using that u(2) t w0(2) w1(2) w(2) u1(2) ys(1,3) vstr_str_body [OF k(2)] by (cases g) auto
    then show ?thesis unfolding reads_def using st u1(1) ne by (intro exI [of _ "?h @ u1"]) auto
  next
    assume d: "c = CHR ''}'' \<and> ms = [(k, j)] \<and> r = r4"
    have "parse_members g (?h @ r') = Some (ms, r')" if "length ?h < g" for g r'
      using that u(2) t w0(2) w1(2) w(2) d vstr_str_body [OF k(2)] by (cases g) auto
    then show ?thesis unfolding reads_def using st ne [of "[]"] d by (intro exI [of _ ?h]) auto
  qed
qed

lemma parse_value_reads:
  assumes e: "\<And>s xs r. parse_elems f s = Some (xs, r) \<Longrightarrow> reads parse_elems (\<lambda>_. True) s xs r"
    and m: "\<And>s ms r. parse_members f s = Some (ms, r) \<Longrightarrow> reads parse_members (\<lambda>_. True) s ms r"
    and p: "parse_value (Suc f) s = Some (j, r)"
  shows "reads parse_value tail_ok s j r"
proof -
  obtain c t where sk: "skip_ws s = c # t" using p by (auto split: list.splits)
  obtain w where w: "s = w @ c # t" "\<And>x. skip_ws (w @ c # x) = c # x" using skip_ws_split [OF sk] by blast
  have done1: ?thesis if "t = u @ r" "\<And>g r'. Suc (length u) < g \<Longrightarrow> tail_ok r' \<Longrightarrow> parse_value g (w @ c # u @ r') = Some (j, r')" for u
  proof -
    have "skip_ws (w @ c # u) \<noteq> []" using w(2) by simp
    then show ?thesis unfolding reads_def using that w(1) by (intro exI [of _ "w @ c # u"]) auto
  qed
  consider (str) "c = dquote" | (arr) "c = CHR ''[''" | (obj) "c = CHR ''{''" | (num) "c \<noteq> dquote" "c \<noteq> CHR ''[''" "c \<noteq> CHR ''{''" "c = CHR ''-'' \<or> is_digit c"
    | (lit) "c \<noteq> dquote" "c \<noteq> CHR ''[''" "c \<noteq> CHR ''{''" "\<not> (c = CHR ''-'' \<or> is_digit c)" by blast
  then show ?thesis
  proof cases
    case str
    then obtain x where x: "t = x @ dquote # r" "vstr x" "j = JStr x" using p sk by (auto dest!: str_body_vstr)
    show ?thesis by (rule done1 [of "x @ [dquote]"]) (use x str w(2) vstr_str_body [OF x(2)] in \<open>auto simp: Suc_less_eq2\<close>)
  next
    case arr
    show ?thesis
    proof (cases "skip_ws t \<noteq> [] \<and> hd (skip_ws t) = CHR '']''")
      case True
      then have "skip_ws t = CHR '']'' # r" "j = JArr []" using p sk arr by (auto simp: neq_Nil_conv)
      then obtain w' where w': "t = w' @ CHR '']'' # r" "\<And>x. skip_ws (w' @ CHR '']'' # x) = CHR '']'' # x" using skip_ws_split by blast
      show ?thesis by (rule done1 [of "w' @ [CHR '']'']"]) (use w' arr w(2) \<open>j = JArr []\<close> in \<open>auto simp: Suc_less_eq2\<close>)
    next
      case False
      then obtain xs where xs: "parse_elems f t = Some (xs, r)" "j = JArr xs" using p sk arr by auto
      obtain u a b where u: "t = u @ r" "\<And>t. skip_ws (u @ t) = a # b @ t" "\<And>g r'. length u < g \<Longrightarrow> parse_elems g (u @ r') = Some (xs, r')"
        by (rule readsE [OF e [OF xs(1)]]) blast
      show ?thesis by (rule done1 [of u]) (use u arr w(2) xs(2) False in \<open>auto simp: Suc_less_eq2\<close>)
    qed
  next
    case obj
    show ?thesis
    proof (cases "skip_ws t \<noteq> [] \<and> hd (skip_ws t) = CHR ''}''")
      case True
      then have "skip_ws t = CHR ''}'' # r" "j = JObj []" using p sk obj by (auto simp: neq_Nil_conv)
      then obtain w' where w': "t = w' @ CHR ''}'' # r" "\<And>x. skip_ws (w' @ CHR ''}'' # x) = CHR ''}'' # x" using skip_ws_split by blast
      show ?thesis by (rule done1 [of "w' @ [CHR ''}'']"]) (use w' obj w(2) \<open>j = JObj []\<close> in \<open>auto simp: Suc_less_eq2\<close>)
    next
      case False
      then obtain ms where ms: "parse_members f t = Some (ms, r)" "j = JObj ms" using p sk obj by auto
      obtain u a b where u: "t = u @ r" "\<And>t. skip_ws (u @ t) = a # b @ t" "\<And>g r'. length u < g \<Longrightarrow> parse_members g (u @ r') = Some (ms, r')"
        by (rule readsE [OF m [OF ms(1)]]) blast
      show ?thesis by (rule done1 [of u]) (use u obj w(2) ms(2) False in \<open>auto simp: Suc_less_eq2\<close>)
    qed
  next
    case num
    then have "parse_num (c # t) = Some (j, r)" using p sk by auto
    then obtain u where u: "c # t = u @ r" "\<And>r'. tail_ok r' \<Longrightarrow> parse_num (u @ r') = Some (j, r')" using parse_num_prefix by blast
    have "u \<noteq> []" using u(2) [of "[]"] by (auto simp: parse_num_def tail_ok_def valid_num_def num_int_def digits1_def)
    then obtain u' where u': "u = c # u'" using u(1) by (cases u) auto
    show ?thesis by (rule done1 [of u']) (use u u' num w(2) in \<open>auto simp: Suc_less_eq2\<close>)
  next
    case lit
    then have "parse_lit (c # t) = Some (j, r)" using p sk by auto
    then obtain u where u: "c # t = u @ r" "\<And>r'. parse_lit (u @ r') = Some (j, r')" using parse_lit_prefix by blast
    have "u \<noteq> []" using u(2) [of "[]"] by (auto simp: parse_lit_def)
    then obtain u' where u': "u = c # u'" using u(1) by (cases u) auto
    show ?thesis by (rule done1 [of u']) (use u u' lit w(2) in \<open>auto simp: Suc_less_eq2\<close>)
  qed
qed

lemma parse_reads:
  "(\<forall>s j r. parse_value f s = Some (j, r) \<longrightarrow> reads parse_value tail_ok s j r)
   \<and> (\<forall>s xs r. parse_elems f s = Some (xs, r) \<longrightarrow> reads parse_elems (\<lambda>_. True) s xs r)
   \<and> (\<forall>s ms r. parse_members f s = Some (ms, r) \<longrightarrow> reads parse_members (\<lambda>_. True) s ms r)"
proof (induction f)
  case (Suc f)
  then show ?case using parse_value_reads [of f] parse_elems_reads [of f] parse_members_reads [of f] by blast
qed simp

text \<open>The text of a value, cut out of what surrounds it, is a document with that value.\<close>

lemma parse_value_text:
  assumes "parse_value f s = Some (j, r)"
  obtains u where "s = u @ r" "parse_value (Suc (length u)) u = Some (j, [])" "\<And>g. length u < g \<Longrightarrow> tail_ok r \<Longrightarrow> parse_value g s = Some (j, r)"
proof -
  have "reads parse_value tail_ok s j r" using assms parse_reads by blast
  then obtain u where u: "s = u @ r" "\<And>g r'. length u < g \<Longrightarrow> tail_ok r' \<Longrightarrow> parse_value g (u @ r') = Some (j, r')"
    by (auto simp: reads_def)
  then show ?thesis using that u(2) [of "Suc (length u)" "[]"] by (simp add: tail_ok_def)
qed

lemma parse_json_text:
  assumes "parse_value f s = Some (j, r)" "json_depth j \<le> maxNestingDepth"
  shows "parse_json (take (length s - length r) s) = Some j"
  by (rule parse_value_text [OF assms(1)]) (use assms(2) in \<open>simp add: parse_json_def skip_ws_def\<close>)

section \<open>Members\<close>

lemma parse_value_skip: "parse_value f (skip_ws s) = parse_value f s"
  by (cases f) simp_all

lemma raw_members_values:
  "parse_members f s = Some (ms, r) \<Longrightarrow> (k, raw) \<in> set (raw_members g s)
   \<Longrightarrow> \<exists>v \<in> snd ` set ms. parse_value (Suc (length raw)) raw = Some (v, [])"
proof (induction f arbitrary: s ms g)
  case (Suc f)
  obtain k1 r1 r2 r3 j c r4 where a: "skip_ws s = dquote # k1 @ dquote # r1" "vstr k1" "skip_ws r1 = CHR '':'' # r2" "parse_value f r2 = Some (j, r3)"
      "skip_ws r3 = c # r4"
      and c: "c = CHR '','' \<and> (\<exists>ys. parse_members f r4 = Some (ys, r) \<and> ms = (k1, j) # ys) \<or> c = CHR ''}'' \<and> ms = [(k1, j)]"
    using Suc.prems(1) by (auto split: option.splits list.splits if_splits dest!: str_body_vstr)
  have t: "tail_ok r3" using punct_tail_ok [OF a(5)] c by auto
  have "parse_value f (skip_ws r2) = Some (j, r3)" using a(4) by (simp add: parse_value_skip)
  then obtain u where u: "skip_ws r2 = u @ r3" "parse_value (Suc (length u)) u = Some (j, [])"
      "\<And>g. length u < g \<Longrightarrow> tail_ok r3 \<Longrightarrow> parse_value g (skip_ws r2) = Some (j, r3)" by (rule parse_value_text) blast
  have pv: "parse_value (Suc (length (u @ r3))) (u @ r3) = Some (j, r3)" using u(3) [of "Suc (length (u @ r3))"] u(1) t by simp
  obtain g' where g: "g = Suc g'" using Suc.prems(2) by (cases g) auto
  have "raw_members g s = (k1, u) # (if c = CHR '','' then raw_members g' r4 else [])"
    using a(1,3,5) vstr_str_body [OF a(2)] pv u(1) g by (simp add: Let_def del: parse_value.simps)
  then consider "raw = u" | "c = CHR '',''" "(k, raw) \<in> set (raw_members g' r4)" using Suc.prems(2) by (auto split: if_splits)
  then show ?case
  proof cases
    case 1
    then show ?thesis using u(2) c by auto
  next
    case 2
    then show ?thesis using c Suc.IH [of r4] by fastforce
  qed
qed simp

lemma fold_max_ge: "x \<in> set xs \<Longrightarrow> x \<le> fold max xs (a :: nat)"
  unfolding Max.set_eq_fold [symmetric] by simp

lemma parse_value_object:
  assumes p: "parse_value (Suc f) s = Some (JObj ms, r)" and ne: "ms \<noteq> []"
  shows "parse_members f (tl (skip_ws s)) = Some (ms, r)"
proof -
  obtain c t where sk: "skip_ws s = c # t" using p by (auto split: list.splits)
  have "parse_num (c # t) \<noteq> Some (JObj ms, r)" "parse_lit (c # t) \<noteq> Some (JObj ms, r)"
    by (simp_all add: parse_num_def parse_lit_def Let_def)
  then have "c = CHR ''{''" using p sk by (auto split: if_splits)
  then show ?thesis using p sk ne by (auto split: if_splits)
qed

lemma unmarshal_members_Inr:
  assumes "unmarshal_members s = Inr ms" "ms \<noteq> []"
  obtains os where "parse_json s = Some (JObj os)" "os \<noteq> []" "ms = raw_members (length s) (tl (skip_ws s))"
proof -
  obtain j where j: "parse_json s = Some j" using assms(1) by (cases "parse_json s") (simp_all add: unmarshal_members_def)
  show ?thesis
  proof (cases j)
    case (JObj os)
    then show ?thesis using that assms j by (cases "os = []") (simp_all add: unmarshal_members_def)
  next
    case (JLit l)
    then show ?thesis using assms j by (cases "l = ''null''") (simp_all add: unmarshal_members_def)
  qed (use assms(1) j in \<open>simp_all add: unmarshal_members_def\<close>)
qed

lemma parse_json_Some:
  "parse_json s = Some j \<longleftrightarrow> (\<exists>r. parse_value (Suc (length s)) s = Some (j, r) \<and> skip_ws r = []) \<and> json_depth j \<le> maxNestingDepth"
  unfolding parse_json_def by (cases "parse_value (Suc (length s)) s") (auto simp del: parse_value.simps split: if_splits)

lemma unmarshal_members_values:
  assumes "unmarshal_members s = Inr ms" "(k, raw) \<in> set ms"
  shows "\<exists>v. parse_json raw = Some v \<and> json_depth v < maxNestingDepth"
proof -
  have ne: "ms \<noteq> []" using assms(2) by auto
  obtain os where j: "parse_json s = Some (JObj os)" "os \<noteq> []" and ms: "ms = raw_members (length s) (tl (skip_ws s))"
    by (rule unmarshal_members_Inr [OF assms(1) ne])
  obtain r where p: "parse_value (Suc (length s)) s = Some (JObj os, r)" and d: "json_depth (JObj os) \<le> maxNestingDepth"
    using j(1) unfolding parse_json_Some by blast
  obtain v where v: "v \<in> snd ` set os" "parse_value (Suc (length raw)) raw = Some (v, [])"
    using raw_members_values [OF parse_value_object [OF p j(2)] assms(2) [unfolded ms]] by blast
  have "json_depth v \<in> set (map (\<lambda>m. json_depth (snd m)) os)" using v(1) by auto
  then have "json_depth v < maxNestingDepth" using d fold_max_ge [of "json_depth v" "map (\<lambda>m. json_depth (snd m)) os" 0] by simp
  moreover have "skip_ws [] = []" by (simp add: skip_ws_def)
  ultimately show ?thesis using v(2) unfolding parse_json_Some by (intro exI [of _ v]) (use less_imp_le_nat in blast)
qed

text \<open>Decoding keeps what every field keeps.\<close>

lemma fold_fields_keeps:
  assumes "fold_fields step names ms r = Inr r'" "P r" "\<And>k raw. (k, raw) \<in> set ms \<Longrightarrow> Q raw"
    and "\<And>n raw r r'. Q raw \<Longrightarrow> P r \<Longrightarrow> step n raw r = Inr r' \<Longrightarrow> P r'"
  shows "P r'"
  using assms
proof (induction ms arbitrary: r)
  case (Cons a ms)
  obtain k raw where a: "a = (k, raw)" by force
  show ?case
  proof (cases "match_field names k")
    case None
    then show ?thesis using Cons a by auto
  next
    case (Some n)
    then obtain r1 where r1: "step n raw r = Inr r1" "fold_fields step names ms r1 = Inr r'" using Cons.prems(1) a by (auto split: sum.splits)
    have "P r1" using Cons.prems(4) [OF _ Cons.prems(2) r1(1)] Cons.prems(3) a by auto
    then show ?thesis using Cons.IH [OF r1(2)] Cons.prems(3,4) by auto
  qed
qed simp

end
