(* ===== verification/Api_Inv.thy ===== *)
theory Api_Inv
  imports Api_Model Json_Prefix
begin

text \<open>
  What the handlers keep and what they answer: a request of an HTTP client is at most one operation of the
  registry, malformed and misdirected requests change nothing, and no request makes the server panic.
\<close>

section \<open>Errors of the engine\<close>

text \<open>The errors that \<open>writeEngineError\<close> answers with a status below 500.\<close>

fun client_error :: "goerror \<Rightarrow> bool" where
  "client_error ErrQueueNotFound = True"
| "client_error ErrQueueDeleted = True"
| "client_error ErrReceiptNotFound = True"
| "client_error ErrQueueExists = True"
| "client_error ErrEmptyBody = True"
| "client_error _ = False"

lemma writeEngineError_status: "rs_status (writeEngineError e) < 500 \<longleftrightarrow> client_error e"
  by (cases e) (simp_all add: writeEngineError_def writeJSON_def)

lemma io_not_client [simp]: "io_error \<noteq> ErrExists" "ErrExists \<noteq> io_error" "\<not> client_error io_error" "\<not> client_error os_ErrNotExist" "\<not> client_error os_ErrExist"
  by (simp_all add: io_error_def os_ErrNotExist_def os_ErrExist_def)

lemma call_errors:
  "FSync f d = (Some e, d') \<Longrightarrow> e = io_error" "FClose f d = (Some e, d') \<Longrightarrow> e = io_error"
  "FTruncate f n d = (Some e, d') \<Longrightarrow> e = io_error" "WriteAt f bs n d = ((k, Some e), d') \<Longrightarrow> e = io_error"
  "syncDir d = (Some e, d') \<Longrightarrow> e = io_error"
      apply (auto simp: FSync_def split: prod.splits option.splits)[1]
     apply (auto simp: FClose_def split: prod.splits option.splits)[1]
    apply (auto simp: FTruncate_def split: prod.splits option.splits)[1]
   apply (auto simp: WriteAt_def split: prod.splits option.splits)[1]
  apply (auto simp: syncDir_def DirOpen_def DirSync_def FClose_def split: prod.splits option.splits sum.splits)[1]
  done

lemma rollback_error: "rollback n e l d = (e', l', d') \<Longrightarrow> e' = e \<or> e' = ErrLogBroken"
  by (auto simp: rollback_def split: prod.splits option.splits)

lemma Append_error:
  assumes "Log_Append r l d = (Some e, l', d')" "l_broken l = None"
  shows "\<not> client_error e \<and> e \<noteq> ErrExists"
proof -
  have "e \<in> {ErrClosed, ErrLogBroken, io_error, io_ErrShortWrite} \<or> encodeFrame r = Inl e"
    using assms by (auto simp: Log_Append_def Let_def split: option.splits sum.splits prod.splits if_splits
        dest!: call_errors rollback_error)
  moreover have "\<exists>x. e = ErrOther x" if "encodeFrame r = Inl e"
    using that by (cases r) (auto simp: encodeFrame_def json_Marshal_def Let_def split: if_splits sum.splits option.splits)
  ultimately show ?thesis by (auto simp: io_error_def io_ErrShortWrite_def)
qed

lemma Remove_error: "Remove n d = (Some e, d') \<Longrightarrow> \<not> client_error e"
  by (auto simp: Remove_def os_Remove_def split: prod.splits option.splits if_splits dest!: call_errors(5))

lemma Log_Close_error: "Log_Close l d = (Some e, l', d') \<Longrightarrow> e = io_error"
  by (auto simp: Log_Close_def split: prod.splits option.splits if_splits dest: call_errors)

lemma Queue_Close_error:
  assumes "Queue_Close storage_log ts q d = Some (Some e, q', d')"
  shows "\<not> client_error e"
proof -
  obtain q1 where "Close_finish storage_log q1 d = (Some e, q', d')"
    using assms by (auto simp: Queue_Close_def split: if_splits option.splits)
  then have "e = io_error" by (auto simp: Close_finish_def storage_log_def split: prod.splits if_splits dest!: Log_Close_error)
  then show ?thesis by simp
qed

lemma createQueue_error:
  assumes "createQueue cfg thr d = (Inl e, d')" "ValidateName (c_Name cfg) = None"
  shows "\<not> client_error e"
    "e = ErrExists \<Longrightarrow> dents d' = dents d \<and> synced_dents d' = synced_dents d \<and> content d' = content d \<and> synced d' = synced d"
  using assms
  by (auto simp: createQueue_def Create_def OpenExcl_def Let_def split: option.splits sum.splits prod.splits if_splits
      dest!: call_errors Append_error next_fault_effect)

section \<open>Requests that are refused\<close>

definition same_files :: "disk \<Rightarrow> disk \<Rightarrow> bool" where
  "same_files d d' \<longleftrightarrow> dents d' = dents d \<and> synced_dents d' = synced_dents d \<and> content d' = content d \<and> synced d' = synced d"

lemma same_files_refl [simp]: "same_files d d"
  by (simp add: same_files_def)

lemma put_queue_same:
  assumes "map_of (m_queues m) name = Some q" "distinct (map fst (m_queues m))"
  shows "put_queue name q m = m"
proof -
  have "map (\<lambda>(n, p). (n, if n = name then q else p)) (m_queues m) = m_queues m"
    by (rule map_idI) (use assms map_of_is_SomeI [OF assms(2)] in fastforce)
  then show ?thesis by (simp add: put_queue_def)
qed

lemma Manager_Get_Inr: "Manager_Get name m = Inr q \<longleftrightarrow> map_of (m_queues m) name = Some q"
  by (auto simp: Manager_Get_def split: option.splits)

lemma Manager_Get_Inl: "Manager_Get name m = Inl e \<longleftrightarrow> map_of (m_queues m) name = None \<and> e = ErrQueueNotFound"
  by (auto simp: Manager_Get_def split: option.splits)

lemma durable_not_broken: "durable file_holds q d \<Longrightarrow> l_broken (q_log q) = None"
  by (auto simp: durable_def file_holds_def log_holds_def split: option.splits)

lemma registered:
  assumes "mgr_ok m d" "Manager_Get name m = Inr q"
  shows "put_queue name q m = m" "l_broken (q_log q) = None"
proof -
  have q: "map_of (m_queues m) name = Some q" using assms(2) by (simp add: Manager_Get_Inr)
  show "put_queue name q m = m" "l_broken (q_log q) = None"
    using put_queue_same [OF q] durable_not_broken [OF mgr_ok_queue(4) [OF assms(1) q]] assms(1) by (auto simp: mgr_ok_def)
qed

lemma random_errors: "newID rnd = Inl e \<Longrightarrow> \<not> client_error e" "newReceipt rnd = Inl e \<Longrightarrow> \<not> client_error e"
  by (auto simp: newID_def newReceipt_def Let_def split: option.splits)

lemma Enqueue_client_error:
  assumes "Queue_Enqueue storage_log msg p dl now rnd q d = (Inl e, q', d')" "client_error e" "l_broken (q_log q) = None"
  shows "q' = q \<and> d' = d"
  using assms
  by (auto simp: Queue_Enqueue_def Let_def storage_log_def errNegativeDelay_def split: if_splits sum.splits prod.splits option.splits
      dest!: random_errors Append_error)

lemma Ack_client_error:
  assumes "Queue_Ack storage_log r q d = Some (Some e, q', d')" "client_error e" "l_broken (q_log q) = None"
  shows "q' = q \<and> d' = d"
  using assms by (auto simp: Queue_Ack_def Let_def storage_log_def split: if_splits prod.splits option.splits dest!: Append_error)

lemma Nack_client_error:
  assumes "Queue_Nack storage_log r dl now q d = Some (Some e, q', d')" "client_error e" "l_broken (q_log q) = None"
  shows "q' = q \<and> d' = d"
  using assms by (auto simp: Queue_Nack_def Let_def storage_log_def errNegativeDelay_def
      split: if_splits prod.splits option.splits dest!: Append_error)

lemma receive_round_error:
  assumes "receive_round g vis wait dl ctx now1 now2 rnd q = Some (Return (Inl e), q')"
  shows "q' = q"
  using assms by (auto simp: receive_round_def popReady_def Let_def split: if_splits option.splits sum.splits prod.splits)

lemma Create_client_error:
  assumes "Manager_Create name odr now m d = (Inl e, m', d')" "client_error e"
  shows "m' = m \<and> same_files d d'"
proof (cases "ValidateName name \<noteq> None \<or> map_of (m_queues m) name \<noteq> None")
  case True
  then show ?thesis using assms by (auto simp: Manager_Create_def split: option.splits if_splits)
next
  case False
  then show ?thesis using assms createQueue_error [of "\<lparr>c_Name = name, c_Ordering = odr, c_CreatedAt = now\<rparr>" "m_compactThreshold m" d]
    by (auto simp: Manager_Create_def same_files_def split: option.splits sum.splits prod.splits if_splits)
qed

lemma Delete_client_error:
  assumes "Manager_Delete name ts m d = Some (Some e, m', d')" "client_error e"
  shows "m' = m \<and> d' = d"
  using assms by (auto simp: Manager_Delete_def Let_def split: option.splits prod.splits dest!: Queue_Close_error Remove_error)

text \<open>Each handler on its own; the statuses below 500 that are not successes.\<close>

lemma refused_status:
  "rs_status (writeJSON s v) = s" "rs_status (writeError s msg) = s" "rs_status (badRequest e) = StatusBadRequest"
  by (simp_all add: writeJSON_def writeError_def badRequest_def)

lemma send_refused:
  assumes "mgr_ok m d" "h_sendMessage env name body m d = Some (Reply r, m', d')" "400 \<le> rs_status r" "rs_status r < 500"
  shows "m' = m \<and> d' = d"
proof (cases "Manager_Get name m")
  case (Inr q)
  note s = registered [OF assms(1) Inr]
  show ?thesis using assms(2-4) Inr s
    by (auto simp: h_sendMessage_def refused_status writeEngineError_status split: sum.splits prod.splits dest: Enqueue_client_error)
qed (use assms in \<open>auto simp: h_sendMessage_def\<close>)

lemma ack_refused:
  assumes "mgr_ok m d" "h_ack name body m d = Some (Reply r, m', d')" "400 \<le> rs_status r" "rs_status r < 500"
  shows "m' = m \<and> d' = d"
proof (cases "Manager_Get name m")
  case (Inr q)
  note s = registered [OF assms(1) Inr]
  show ?thesis using assms(2-4) Inr s
    by (auto simp: h_ack_def refused_status writeEngineError_status split: sum.splits prod.splits option.splits dest: Ack_client_error)
qed (use assms in \<open>auto simp: h_ack_def\<close>)

lemma nack_refused:
  assumes "mgr_ok m d" "h_nack env name body m d = Some (Reply r, m', d')" "400 \<le> rs_status r" "rs_status r < 500"
  shows "m' = m \<and> d' = d"
proof (cases "Manager_Get name m")
  case (Inr q)
  note s = registered [OF assms(1) Inr]
  show ?thesis using assms(2-4) Inr s
    by (auto simp: h_nack_def refused_status writeEngineError_status split: sum.splits prod.splits option.splits dest: Nack_client_error)
qed (use assms in \<open>auto simp: h_nack_def\<close>)

lemma receive_refused:
  assumes "mgr_ok m d" "h_receive env name body m d = Some (Reply r, m', d')" "400 \<le> rs_status r"
  shows "m' = m \<and> d' = d"
proof (cases "Manager_Get name m")
  case (Inr q)
  note s = registered [OF assms(1) Inr]
  show ?thesis using assms(2,3) Inr s
    by (auto simp: h_receive_def refused_status receive_reply_def Let_def
        split: sum.splits prod.splits option.splits recv.splits if_splits dest!: receive_round_error)
qed (use assms in \<open>auto simp: h_receive_def\<close>)

lemma serve_refused:
  assumes ok: "mgr_ok m d" and s: "serve web env req m d = Some (Reply r, m', d')" and st: "400 \<le> rs_status r" "rs_status r < 500"
  shows "m' = m \<and> same_files d d'"
proof (cases "route (web \<noteq> None) req")
  case (To e)
  have "m' = m \<and> d' = d" if "e \<noteq> CreateQueue" "e \<noteq> DeleteQueue"
    using s st that To send_refused [OF ok _ st] ack_refused [OF ok _ st] nack_refused [OF ok _ st] receive_refused [OF ok _ st(1)]
    by (cases e) (auto simp: serve_def Let_def h_listQueues_def h_getQueue_def h_stats_def split: sum.splits)
  moreover have ?thesis if "e = CreateQueue"
    using s st that To
    by (auto simp: serve_def Let_def h_createQueue_def refused_status writeEngineError_status split: sum.splits option.splits prod.splits
        dest: Create_client_error)
  moreover have ?thesis if "e = DeleteQueue"
    using s st that To
    by (auto simp: serve_def Let_def h_deleteQueue_def refused_status writeEngineError_status split: option.splits prod.splits
        dest: Delete_client_error)
  ultimately show ?thesis using same_files_refl by blast
qed (use s in \<open>auto simp: serve_def\<close>)

section \<open>Requests that are served\<close>

text \<open>The operation of the engine a well-formed request asks for.\<close>

fun endpoint_op :: "env \<Rightarrow> endpoint \<Rightarrow> string \<Rightarrow> op option" where
  "endpoint_op env SendMessage body = (case send_args body of
      Inr (msg, prio, delay) \<Rightarrow> Some (OEnqueue msg prio delay (en_now env) (en_rnd env)) | Inl _ \<Rightarrow> None)"
| "endpoint_op env ReceiveMessage body = (case receive_args body of
      Inr (visibility, wait) \<Rightarrow> Some (OReceive visibility (en_pop env) (en_rnd env)) | Inl _ \<Rightarrow> None)"
| "endpoint_op env AckMessage body = (case ack_args body of Inr receipt \<Rightarrow> Some (OAck receipt) | Inl _ \<Rightarrow> None)"
| "endpoint_op env NackMessage body = (case nack_args body of
      Inr (receipt, delay) \<Rightarrow> Some (ONack receipt delay (en_now env)) | Inl _ \<Rightarrow> None)"
| "endpoint_op env _ body = None"

text \<open>What reaches the engine can be logged: the body is a JSON document of its own, nested less deeply than
  the request, and the priority is an \<open>int64\<close>.\<close>

lemma ParseInt64_range: "ParseInt64 t = Some n \<Longrightarrow> int64 n"
  by (auto simp: ParseInt64_def int64_def Let_def split: option.splits if_splits)

lemma field_pointer_range: "field_pointer raw = Inr (Some n) \<Longrightarrow> int64 n"
  by (auto simp: field_pointer_def split: option.splits json.splits if_splits dest: ParseInt64_range)

lemma Decode_keeps:
  assumes "Decode step names zero body = Inr x" "P zero"
    and "\<And>n raw r r' v. parse_json raw = Some v \<Longrightarrow> json_depth v < maxNestingDepth \<Longrightarrow> P r \<Longrightarrow> step n raw r = Inr r' \<Longrightarrow> P r'"
  shows "P x"
proof -
  consider "x = zero" | t ms where "unmarshal_members t = Inr ms" "fold_fields step names ms zero = Inr x"
    using assms(1) by (auto simp: Decode_def Let_def simp del: parse_value.simps split: option.splits sum.splits if_splits)
  then show ?thesis
  proof cases
    case (2 t ms)
    show ?thesis
      by (rule fold_fields_keeps [where P = P and Q = "\<lambda>raw. \<exists>v. parse_json raw = Some v \<and> json_depth v < maxNestingDepth", OF 2(2) assms(2)])
        (use unmarshal_members_values [OF 2(1)] assms(3) in blast)+
  qed (use assms(2) in simp)
qed

definition send_ok :: "sendReq \<Rightarrow> bool" where
  "send_ok r \<longleftrightarrow> (sd_Body r = [] \<or> (\<exists>v. parse_json (sd_Body r) = Some v \<and> json_depth v < maxNestingDepth))
     \<and> (case sd_Priority r of None \<Rightarrow> True | Some p \<Rightarrow> int64 p)"

lemma send_field_ok:
  assumes "parse_json raw = Some v" "json_depth v < maxNestingDepth" "send_ok r" "send_field n raw r = Inr r'"
  shows "send_ok r'"
  using assms by (auto simp: send_ok_def send_field_def upd_field_def split: if_splits sum.splits option.splits dest: field_pointer_range)

lemma decodeBody_Inr: "decodeBody step names zero body = Inr x \<longleftrightarrow> Decode step names zero body = Inr x"
  by (auto simp: decodeBody_def split: sum.splits decode_err.splits)

lemma send_args_ok:
  assumes "send_args body = Inr (msg, prio, delay)"
  shows "msg \<noteq> []" "\<exists>v. parse_json msg = Some v \<and> json_depth v < maxNestingDepth" "int64 prio"
proof -
  obtain req where d: "Decode send_field [''body'', ''priority'', ''delay_seconds'']
        \<lparr>sd_Body = '''', sd_Priority = None, sd_DelaySeconds = None\<rparr> body = Inr req"
      and r: "msg = sd_Body req" "prio = (case sd_Priority req of None \<Rightarrow> 0 | Some p \<Rightarrow> p)" "msg \<noteq> []"
    using assms by (auto simp: send_args_def decodeBody_Inr split: sum.splits if_splits)
  have "send_ok req" by (rule Decode_keeps [where P = send_ok, OF d _ send_field_ok]) (auto simp: send_ok_def)
  then show "msg \<noteq> []" "\<exists>v. parse_json msg = Some v \<and> json_depth v < maxNestingDepth" "int64 prio"
    using r by (auto simp: send_ok_def int64_def split: option.splits)
qed

text \<open>The clock and the random bytes a request meets: identifiers are new, times fit in an \<open>int64\<close>, sequence
  numbers have not run out.\<close>

fun in_range :: "op \<Rightarrow> 'l Queue \<Rightarrow> bool" where
  "in_range (OEnqueue body prio delay now rnd) q \<longleftrightarrow> q_nextSeq q \<noteq> - 1 \<and> int64 (toMillis now) \<and> int64 (toMillis (now + delay))"
| "in_range (ONack r delay now) q \<longleftrightarrow> int64 (toMillis (now + delay))"
| "in_range _ q \<longleftrightarrow> True"

lemma endpoint_writable:
  assumes "endpoint_op env e body = Some x" "in_range x q"
  shows "writable x q"
proof (cases "e = SendMessage")
  case True
  then obtain msg prio delay where a: "send_args body = Inr (msg, prio, delay)" and x: "x = OEnqueue msg prio delay (en_now env) (en_rnd env)"
    using assms(1) by (auto split: sum.splits)
  show ?thesis using send_args_ok(2,3) [OF a] assms(2) unfolding x by auto
qed (use assms in \<open>cases e; auto split: sum.splits\<close>)

definition admissible :: "env \<Rightarrow> request \<Rightarrow> Manager \<Rightarrow> bool" where
  "admissible env req m \<longleftrightarrow> int64 (toMillis (en_now env))
     \<and> (\<forall>e x q. route False req = To e \<longrightarrow> endpoint_op env e (rq_body req) = Some x
          \<longrightarrow> map_of (m_queues m) (rq_path req ! 1) = Some q \<longrightarrow> fresh x q \<and> in_range x q)"

lemma route_web: "route web req = To e \<longleftrightarrow> route False req = To e"
  by (auto simp: route_def Let_def split: option.splits if_splits)

definition all_healthy :: "Manager \<Rightarrow> disk \<Rightarrow> bool" where
  "all_healthy m d \<longleftrightarrow> (\<forall>n q. map_of (m_queues m) n = Some q \<longrightarrow> file_healthy (q_log q) d)"

lemma parked_same:
  assumes "sound q" "durable file_holds q d" "balanced q"
  shows "sound (q\<lparr>q_parked := p\<rparr>) \<and> durable file_holds (q\<lparr>q_parked := p\<rparr>) d \<and> balanced (q\<lparr>q_parked := p\<rparr>)"
proof -
  have v: "view (q\<lparr>q_parked := p\<rparr>) = view q" by simp
  have "queue_inv (q\<lparr>q_parked := p\<rparr>)" "same_core q (q\<lparr>q_parked := p\<rparr>)" using assms(1) by (simp_all add: sound_def same_core_def)
  then have "sound (q\<lparr>q_parked := p\<rparr>) \<and> durable file_holds (q\<lparr>q_parked := p\<rparr>) d"
    by (intro file_log.quiet_durable [OF assms(1,2)]) (simp_all add: all_live_def v)
  moreover have "balanced (q\<lparr>q_parked := p\<rparr>)" using assms(3) by (simp add: balanced_def all_live_def v)
  ultimately show ?thesis by blast
qed

lemma put_queue_ok:
  assumes ok: "mgr_ok m d" and q: "q_name q' = name" "sound q'" "durable file_holds q' d" "balanced q'" "\<not> q_closed q'"
  shows "mgr_ok (put_queue name q' m) d"
proof -
  have keys: "map fst (m_queues (put_queue name q' m)) = map fst (m_queues m)" by (simp add: put_queue_def case_prod_beta comp_def)
  have "ValidateName n = None \<and> q_name p = n \<and> sound p \<and> durable file_holds p d \<and> balanced p \<and> \<not> q_closed p"
    if "(n, p) \<in> set (m_queues (put_queue name q' m))" for n p
    using that ok q by (cases "n = name") (auto simp: put_queue_def mgr_ok_def)
  then show ?thesis unfolding mgr_ok_def keys using ok by (auto simp: mgr_ok_def)
qed

lemma put_queue_lookup: "map_of (m_queues m) name = Some q \<Longrightarrow> map_of (m_queues (put_queue name q' m)) name = Some q'"
  by (simp add: put_queue_def map_of_replace)

lemma on_queue_execute:
  assumes "map_of (m_queues m) name = Some q" "execute storage_log x q d = Some (out, q', d')"
  shows "on_queue name x m d = Some (Inr out, put_queue name q' m, d')"
  using assms by (simp add: on_queue_def Manager_Get_def put_queue_def)

text \<open>A receiver's first round is \<open>OReceive\<close> as far as the queue is concerned, except that it may park.\<close>

lemma receive_round_pop:
  assumes "\<not> q_closed q" "popReady vis now1 rnd q = Some (pr, q1)"
  shows "receive_round g vis wait dl ctx now1 now2 rnd q = (case pr of
      Inl e \<Rightarrow> Some (Return (Inl e), q1)
    | Inr (Some x) \<Rightarrow> Some (Return (Inr (Some x)), q1)
    | Inr None \<Rightarrow> if wait \<le> 0 \<or> \<not> now2 < dl then Some (Return (Inr None), q1)
        else (case ctx of Some e \<Rightarrow> Some (Return (Inl e), q1) | None \<Rightarrow> Some (Park, q1\<lparr>q_parked := g # q_parked q1\<rparr>)))"
  unfolding receive_round_def assms(2) using assms(1) by simp

lemma receive_round_as:
  assumes "receive_round 0 vis 0 zero_time None now1 now1 rnd q = Some (Return res, q')"
  shows "\<exists>out. receive_round g vis wait dl ctx now1 now2 rnd q = Some (out, if out = Park then q'\<lparr>q_parked := g # q_parked q'\<rparr> else q')"
proof (cases "q_closed q")
  case True
  then show ?thesis using assms by (simp add: receive_round_def)
next
  case False
  obtain pr q1 where p: "popReady vis now1 rnd q = Some (pr, q1)"
    using assms False by (auto simp: receive_round_def split: option.splits)
  note r = receive_round_pop [OF False p]
  have "q1 = q'" using assms unfolding r by (auto split: sum.splits option.splits)
  then show ?thesis unfolding r by (auto split: sum.splits option.splits)
qed

lemma endpoint_served:
  assumes ok: "mgr_ok m d" and q: "map_of (m_queues m) name = Some q" and x: "endpoint_op env e body = Some x" and f: "fresh x q" "writable x q"
    and r: "rq_path req ! 1 = name" "rq_body req = body" "route False req = To e"
  shows "\<exists>reply m' d'. serve web env req m d = Some (reply, m', d') \<and> (all_healthy m' d' \<longrightarrow> mgr_ok m' d')"
proof -
  note qo = mgr_ok_queue [OF ok q]
  have inv: "queue_inv q" using qo(3) by (simp add: sound_def)
  obtain out q' d' where ex: "execute storage_log x q d = Some (out, q', d')" by (rule execute_total [OF inv f(1)])
  note on = on_queue_execute [OF q ex]
  have get: "Manager_Get name m = Inr q" using q by (simp add: Manager_Get_Inr)
  have to: "route (web \<noteq> None) req = To e" using r(3) route_web by blast
  have sv: "serve web env req m d = (case e of SendMessage \<Rightarrow> h_sendMessage env name body m d | ReceiveMessage \<Rightarrow> h_receive env name body m d
      | AckMessage \<Rightarrow> h_ack name body m d | _ \<Rightarrow> h_nack env name body m d)"
    using x unfolding serve_def Let_def to r(1,2) target.case by (cases e) auto
  have kept: "mgr_ok (put_queue name q' m) d'" if "file_healthy (q_log q') d'"
    using on_queue_ok [OF ok on] f q that put_queue_lookup [OF q, of q'] by simp
  have h: "file_healthy (q_log p) d'" if "all_healthy (put_queue name p m) d'" for p
    using that put_queue_lookup [OF q, of p] by (simp add: all_healthy_def)
  show ?thesis
  proof (cases e)
    case ReceiveMessage
    then obtain vis wait where a: "receive_args body = Inr (vis, wait)" and x': "x = OReceive vis (en_pop env) (en_rnd env)"
      using x by (auto split: sum.splits)
    obtain res where rr: "receive_round 0 vis 0 zero_time None (en_pop env) (en_pop env) (en_rnd env) q = Some (Return res, q')" "d' = d"
      using ex x' by (auto split: option.splits recv.splits)
    let ?dl = "if wait > 0 then en_now env + wait else zero_time"
    obtain o1 where o1: "receive_round (en_id env) vis wait ?dl (en_ctx env) (en_pop env) (en_check env) (en_rnd env) q =
        Some (o1, if o1 = Park then q'\<lparr>q_parked := en_id env # q_parked q'\<rparr> else q')" using receive_round_as [OF rr(1)] by blast
    have park: "mgr_ok (put_queue name (q'\<lparr>q_parked := p\<rparr>) m) d" if "file_healthy (q_log q') d" for p
    proof -
      have k: "mgr_ok (put_queue name q' m) d" using kept that rr(2) by simp
      note o = mgr_ok_queue [OF k put_queue_lookup [OF q]]
      show ?thesis by (rule put_queue_ok [OF ok]) (use o parked_same [OF o(3,4,5)] in simp_all)
    qed
    show ?thesis using sv ReceiveMessage get a o1 kept rr(2) h park [of "en_id env # q_parked q'"]
      by (cases o1) (force simp: h_receive_def Let_def)+
  next
    case SendMessage
    then show ?thesis using sv x ex get kept h by (auto simp: h_sendMessage_def split: sum.splits prod.splits)
  next
    case AckMessage
    then show ?thesis using sv x ex get kept h by (auto simp: h_ack_def split: sum.splits prod.splits option.splits)
  next
    case NackMessage
    then show ?thesis using sv x ex get kept h by (auto simp: h_nack_def split: sum.splits prod.splits option.splits)
  qed (use x in auto)
qed


text \<open>A request that is not an operation of the engine touches at most the registry.\<close>

lemma handled_without_engine:
  assumes ok: "mgr_ok m d" and x: "endpoint_op env e (rq_body req) = None \<or> map_of (m_queues m) (rq_path req ! 1) = None"
    and e: "e \<noteq> CreateQueue" "e \<noteq> DeleteQueue" and r: "route False req = To e"
  shows "\<exists>reply. serve web env req m d = Some (reply, m, d)"
proof -
  have to: "route (web \<noteq> None) req = To e" using r route_web by blast
  show ?thesis using x e unfolding serve_def Let_def to target.case
    by (cases e) (auto simp: h_listQueues_def h_getQueue_def h_stats_def h_sendMessage_def h_receive_def h_ack_def h_nack_def
        Manager_Get_def split: sum.splits option.splits)
qed

lemma serve_ok:
  assumes ok: "mgr_ok m d" and ad: "admissible env req m"
  shows "\<exists>reply m' d'. serve web env req m d = Some (reply, m', d') \<and> (all_healthy m' d' \<longrightarrow> mgr_ok m' d')"
proof (cases "route False req")
  case (To e)
  have to: "route (web \<noteq> None) req = To e" using To route_web by blast
  have t: "int64 (toMillis (en_now env))" using ad by (simp add: admissible_def)
  consider (create) "e = CreateQueue" | (delete) "e = DeleteQueue"
    | (engine) x q where "endpoint_op env e (rq_body req) = Some x" "map_of (m_queues m) (rq_path req ! 1) = Some q"
    | (other) "e \<noteq> CreateQueue" "e \<noteq> DeleteQueue" "endpoint_op env e (rq_body req) = None \<or> map_of (m_queues m) (rq_path req ! 1) = None"
    by (cases "endpoint_op env e (rq_body req)"; cases "map_of (m_queues m) (rq_path req ! 1)") auto
  then show ?thesis
  proof cases
    case create
    have k: "mgr_ok m' d'" if "Manager_Create n odr (en_now env) m d = (res, m', d')" for n odr res m' d'
      by (rule Manager_Create_ok(1) [OF ok that t])
    show ?thesis using create ok unfolding serve_def Let_def to target.case
      by (auto simp: h_createQueue_def split: sum.splits option.splits prod.splits dest: k)
  next
    case delete
    obtain err m' d' where "Manager_Delete (rq_path req ! 1) (en_ts env) m d = Some (err, m', d')" "mgr_ok m' d'"
      by (rule Manager_Delete_ok [OF ok])
    then show ?thesis using delete unfolding serve_def Let_def to target.case
      by (cases err) (auto simp: h_deleteQueue_def)
  next
    case (engine x q)
    have "fresh x q \<and> writable x q" using ad To engine endpoint_writable [OF engine(1), of q] by (auto simp: admissible_def)
    then show ?thesis using endpoint_served [OF ok engine(2,1) _ _ refl refl To] by blast
  next
    case other
    then show ?thesis using handled_without_engine [OF ok other(3,1,2) To, of web] ok by blast
  qed
next
  case ToFiles
  then show ?thesis using ok by (auto simp: route_def Let_def split: option.splits if_splits)
next
  case (Refuse st)
  then have "route (web \<noteq> None) req \<noteq> To e" for e using route_web [of "web \<noteq> None" req e] by simp
  then show ?thesis using ok by (cases "route (web \<noteq> None) req") (auto simp: serve_def)
qed
end
