(* ===== verification/Registry_System.thy ===== *)
theory Registry_System
  imports Api_Inv
begin

text \<open>
  The registry under concurrent requests. Every request runs in a goroutine of its own: it looks a queue up
  under the registry's lock, keeps the pointer, and works on the queue after the lock has been
  released. Meanwhile the queue can be deleted, and its name be given to another queue, or the server can
  be shut down. A step is one critical section: of the registry's lock, or of the lock of one queue.
  Queues live in a store and the registry's map holds their addresses, as in the code. The sections of
  different queues work on different files.
\<close>

section \<open>Handlers after the lookup\<close>

text \<open>What the handlers do with the queue \<open>Get\<close> (or \<open>Create\<close>) has handed them; the other endpoints hold no queue.\<close>

definition after_get :: "env \<Rightarrow> endpoint \<Rightarrow> string \<Rightarrow> Log Queue \<Rightarrow> disk \<Rightarrow> (reply \<times> Log Queue \<times> disk) option" where
  "after_get env e body q d = (case e of
      CreateQueue \<Rightarrow> Some (Reply (writeJSON StatusCreated (PQueue (viewOf q))), q, d)
    | GetQueue \<Rightarrow> Some (Reply (writeJSON StatusOK (PQueue (viewOf q))), q, d)
    | StatsQueue \<Rightarrow> Some (Reply (writeJSON StatusOK (PStats (Queue_Stats q))), q, d)
    | SendMessage \<Rightarrow> (case send_args body of
        Inl resp \<Rightarrow> Some (Reply resp, q, d)
      | Inr (msg, priority, delay) \<Rightarrow>
          (case Queue_Enqueue storage_log msg priority delay (en_now env) (en_rnd env) q d of
             (Inl err, q1, d1) \<Rightarrow> Some (Reply (writeEngineError err), q1, d1)
           | (Inr i, q1, d1) \<Rightarrow> Some (Reply (writeJSON StatusCreated (PFields [(''message_id'', i)])), q1, d1)))
    | ReceiveMessage \<Rightarrow> (case receive_args body of
        Inl resp \<Rightarrow> Some (Reply resp, q, d)
      | Inr (visibility, wait) \<Rightarrow>
          (let deadline = (if wait > 0 then en_now env + wait else zero_time) in
           case receive_round (en_id env) visibility wait deadline (en_ctx env) (en_pop env) (en_check env) (en_rnd env) q of
             None \<Rightarrow> None
           | Some (Return res, q1) \<Rightarrow> Some (receive_reply (en_gone env) res, q1, d)
           | Some (Park, q1) \<Rightarrow> Some (Parked visibility wait deadline, q1, d)))
    | AckMessage \<Rightarrow> (case ack_args body of
        Inl resp \<Rightarrow> Some (Reply resp, q, d)
      | Inr receipt \<Rightarrow> (case Queue_Ack storage_log receipt q d of
          None \<Rightarrow> None
        | Some (Some err, q1, d1) \<Rightarrow> Some (Reply (writeEngineError err), q1, d1)
        | Some (None, q1, d1) \<Rightarrow> Some (Reply (writeJSON StatusOK (PFields [(''status'', ''acked'')])), q1, d1)))
    | NackMessage \<Rightarrow> (case nack_args body of
        Inl resp \<Rightarrow> Some (Reply resp, q, d)
      | Inr (receipt, delay) \<Rightarrow> (case Queue_Nack storage_log receipt delay (en_now env) q d of
          None \<Rightarrow> None
        | Some (Some err, q1, d1) \<Rightarrow> Some (Reply (writeEngineError err), q1, d1)
        | Some (None, q1, d1) \<Rightarrow> Some (Reply (writeJSON StatusOK (PFields [(''status'', ''nacked'')])), q1, d1)))
    | _ \<Rightarrow> None)"

text \<open>The endpoints whose handler begins with \<open>Get\<close>.\<close>

definition looks_up :: "endpoint \<Rightarrow> bool" where
  "looks_up e \<longleftrightarrow> e \<in> {GetQueue, StatsQueue, SendMessage, ReceiveMessage, AckMessage, NackMessage}"

lemma handlers_after_get:
  assumes "put_queue name q m = m" "Manager_Get name m = Inr q"
  shows "h_getQueue name m d = map_option (\<lambda>(r, q1, d1). (r, put_queue name q1 m, d1)) (after_get env GetQueue body q d)"
    "h_stats name m d = map_option (\<lambda>(r, q1, d1). (r, put_queue name q1 m, d1)) (after_get env StatsQueue body q d)"
    "h_sendMessage env name body m d = map_option (\<lambda>(r, q1, d1). (r, put_queue name q1 m, d1)) (after_get env SendMessage body q d)"
    "h_receive env name body m d = map_option (\<lambda>(r, q1, d1). (r, put_queue name q1 m, d1)) (after_get env ReceiveMessage body q d)"
    "h_ack name body m d = map_option (\<lambda>(r, q1, d1). (r, put_queue name q1 m, d1)) (after_get env AckMessage body q d)"
    "h_nack env name body m d = map_option (\<lambda>(r, q1, d1). (r, put_queue name q1 m, d1)) (after_get env NackMessage body q d)"
  using assms
  by (simp_all add: h_getQueue_def h_stats_def h_sendMessage_def h_receive_def h_ack_def h_nack_def after_get_def Let_def
      split: sum.split option.split prod.split recv.split)

lemma serve_after_get:
  assumes "mgr_ok m d" "route (web \<noteq> None) req = To e" "looks_up e"
  shows "serve web env req m d = (case Manager_Get (rq_path req ! 1) m of
      Inl err \<Rightarrow> Some (Reply (writeEngineError err), m, d)
    | Inr q \<Rightarrow> map_option (\<lambda>(r, q1, d1). (r, put_queue (rq_path req ! 1) q1 m, d1)) (after_get env e (rq_body req) q d))"
proof (cases "Manager_Get (rq_path req ! 1) m")
  case (Inl err)
  then show ?thesis using assms(3) unfolding serve_def Let_def assms(2) target.case
    by (cases e) (simp_all add: looks_up_def h_getQueue_def h_stats_def h_sendMessage_def h_receive_def h_ack_def h_nack_def)
next
  case (Inr q)
  note same = handlers_after_get [OF registered(1) [OF assms(1) Inr] Inr, where env = env and body = "rq_body req"]
  show ?thesis using assms(3) unfolding serve_def Let_def assms(2) target.case Inr sum.case
    by (cases e) (simp_all add: looks_up_def same del: One_nat_def)
qed

section \<open>The shared state\<close>

text \<open>Where a goroutine is: it works on a queue, waits in a long poll, collects the views of a listing, or has
  answered.\<close>

datatype goroutine =
    Working endpoint string addr
  | Polling Duration Duration Time addr
  | Listing "addr list" "queueView list"
  | Answered reply

text \<open>The goroutine that has the registry's lock for writing between two critical sections of a queue: \<open>Delete\<close>
  before and while it closes the queue, and before it removes the file; \<open>Close\<close> between two
  queues and while it closes one.\<close>

datatype holder =
    Unlocked
  | Deleting nat string addr
  | Draining nat string addr
  | Removing nat string
  | Shutting
  | ShutDraining string addr

record registry =
  rg_compactThreshold :: int
  rg_queues :: "(string \<times> addr) list"
  rg_store :: "addr \<Rightarrow> Log Queue"
  rg_next :: addr
  rg_lock :: holder
  rg_procs :: "nat \<rightharpoonup> goroutine"
  rg_disk :: disk

definition set_queue :: "addr \<Rightarrow> Log Queue \<Rightarrow> disk \<Rightarrow> registry \<Rightarrow> registry" where
  "set_queue a q d s = s\<lparr>rg_store := (rg_store s)(a := q), rg_disk := d\<rparr>"

definition set_proc :: "nat \<Rightarrow> goroutine \<Rightarrow> registry \<Rightarrow> registry" where
  "set_proc g p s = s\<lparr>rg_procs := (rg_procs s)(g \<mapsto> p)\<rparr>"

definition reg_init :: "Manager \<Rightarrow> disk \<Rightarrow> registry" where
  "reg_init m d = \<lparr>rg_compactThreshold = m_compactThreshold m,
     rg_queues = zip (map fst (m_queues m)) [0..<length (m_queues m)], rg_store = (\<lambda>a. snd (m_queues m ! a)),
     rg_next = length (m_queues m), rg_lock = Unlocked, rg_procs = (\<lambda>_. None), rg_disk = d\<rparr>"

text \<open>What the registry's map shows of the queues.\<close>

definition abs_mgr :: "registry \<Rightarrow> Manager" where
  "abs_mgr s = \<lparr>m_compactThreshold = rg_compactThreshold s, m_queues = map (\<lambda>(n, a). (n, rg_store s a)) (rg_queues s)\<rparr>"

section \<open>Critical sections of the registry\<close>

definition reg_Get :: "nat \<Rightarrow> endpoint \<Rightarrow> string \<Rightarrow> string \<Rightarrow> registry \<Rightarrow> registry" where
  "reg_Get g e name body s = set_proc g
     (case map_of (rg_queues s) name of
        None \<Rightarrow> Answered (Reply (writeEngineError ErrQueueNotFound))
      | Some a \<Rightarrow> Working e body a) s"

definition reg_List :: "nat \<Rightarrow> registry \<Rightarrow> registry" where
  "reg_List g s = set_proc g (Listing (sort_key (\<lambda>a. q_name (rg_store s a)) (map snd (rg_queues s))) []) s"

definition reg_Create :: "nat \<Rightarrow> string \<Rightarrow> Ordering \<Rightarrow> Time \<Rightarrow> registry \<Rightarrow> registry" where
  "reg_Create g name odr now s =
     (case ValidateName name of Some e \<Rightarrow> set_proc g (Answered (Reply (badRequest e))) s | None \<Rightarrow>
      if map_of (rg_queues s) name \<noteq> None then set_proc g (Answered (Reply (writeEngineError ErrQueueExists))) s
      else case createQueue \<lparr>c_Name = name, c_Ordering = odr, c_CreatedAt = now\<rparr> (rg_compactThreshold s) (rg_disk s) of
        (Inl e, d) \<Rightarrow> set_proc g (Answered (Reply (writeEngineError (if e = ErrExists then ErrQueueExists else e)))) (s\<lparr>rg_disk := d\<rparr>)
      | (Inr q, d) \<Rightarrow> set_proc g (Working CreateQueue [] (rg_next s))
          ((set_queue (rg_next s) q d s)\<lparr>rg_queues := map_insert name (rg_next s) (rg_queues s), rg_next := rg_next s + 1\<rparr>))"

text \<open>\<open>Delete\<close> up to the call of \<open>q.Close\<close>; the two critical sections of \<open>Close\<close>; the removal of the file.\<close>

definition reg_Delete :: "nat \<Rightarrow> string \<Rightarrow> registry \<Rightarrow> registry" where
  "reg_Delete g name s = (case map_of (rg_queues s) name of
      None \<Rightarrow> set_proc g (Answered (Reply (writeEngineError ErrQueueNotFound))) s
    | Some a \<Rightarrow> s\<lparr>rg_queues := map_delete name (rg_queues s), rg_lock := Deleting g name a\<rparr>)"

definition delete_close :: "nat \<Rightarrow> string \<Rightarrow> addr \<Rightarrow> registry \<Rightarrow> registry" where
  "delete_close g name a s =
     (if q_closed (rg_store s a) then s\<lparr>rg_lock := Removing g name\<rparr>
      else (set_queue a (Close_begin (rg_store s a)) (rg_disk s) s)\<lparr>rg_lock := Draining g name a\<rparr>)"

definition delete_finish :: "nat \<Rightarrow> string \<Rightarrow> addr \<Rightarrow> registry \<Rightarrow> registry" where
  "delete_finish g name a s = (case Close_finish storage_log (rg_store s a) (rg_disk s) of
      (None, q, d) \<Rightarrow> (set_queue a q d s)\<lparr>rg_lock := Removing g name\<rparr>
    | (Some err, q, d) \<Rightarrow> set_proc g (Answered (Reply (writeEngineError err))) ((set_queue a q d s)\<lparr>rg_lock := Unlocked\<rparr>))"

definition delete_remove :: "nat \<Rightarrow> string \<Rightarrow> registry \<Rightarrow> registry" where
  "delete_remove g name s = (case Remove name (rg_disk s) of (err, d) \<Rightarrow>
      set_proc g (Answered (Reply (case err of None \<Rightarrow> writeJSON StatusNoContent PNone | Some e \<Rightarrow> writeEngineError e)))
        (s\<lparr>rg_disk := d, rg_lock := Unlocked\<rparr>))"

text \<open>\<open>Manager.Close\<close>: one iteration of its loop, up to and after the wait for the queue's scheduler.\<close>

definition shut_close :: "string \<Rightarrow> addr \<Rightarrow> registry \<Rightarrow> registry" where
  "shut_close name a s =
     (if q_closed (rg_store s a) then s\<lparr>rg_queues := map_delete name (rg_queues s)\<rparr>
      else (set_queue a (Close_begin (rg_store s a)) (rg_disk s) s)\<lparr>rg_lock := ShutDraining name a\<rparr>)"

definition shut_finish :: "string \<Rightarrow> addr \<Rightarrow> registry \<Rightarrow> registry" where
  "shut_finish name a s = (case Close_finish storage_log (rg_store s a) (rg_disk s) of
      (_, q, d) \<Rightarrow> (set_queue a q d s)\<lparr>rg_queues := map_delete name (rg_queues s), rg_lock := Shutting\<rparr>)"

section \<open>Steps\<close>

text \<open>The queue whose \<open>Close\<close> waits for the scheduler.\<close>

fun draining :: "holder \<Rightarrow> addr option" where
  "draining (Draining g name a) = Some a"
| "draining (ShutDraining name a) = Some a"
| "draining _ = None"

text \<open>What the clock and the random bytes of a request are assumed to be, and that the request has not lost the
  log to a failed call; a closed queue has no log to lose.\<close>

definition in_order :: "op option \<Rightarrow> Log Queue \<Rightarrow> Log Queue \<Rightarrow> disk \<Rightarrow> bool" where
  "in_order x q q' d' \<longleftrightarrow> q_closed q \<or> (case x of None \<Rightarrow> True | Some x \<Rightarrow> fresh x q \<and> in_range x q) \<and> file_healthy (q_log q') d'"

inductive reg_step :: "registry \<Rightarrow> registry \<Rightarrow> bool" where
  get: "rg_lock s = Unlocked \<Longrightarrow> rg_procs s g = None \<Longrightarrow> looks_up e \<Longrightarrow> reg_step s (reg_Get g e name body s)"
| create: "rg_lock s = Unlocked \<Longrightarrow> rg_procs s g = None \<Longrightarrow> int64 (toMillis now) \<Longrightarrow> reg_step s (reg_Create g name odr now s)"
| listing: "rg_lock s = Unlocked \<Longrightarrow> rg_procs s g = None \<Longrightarrow> reg_step s (reg_List g s)"
| list_next: "rg_procs s g = Some (Listing (a # as) vs)
    \<Longrightarrow> reg_step s (set_proc g (Listing as (vs @ [viewOf (rg_store s a)])) s)"
| list_end: "rg_procs s g = Some (Listing [] vs) \<Longrightarrow> reg_step s (set_proc g (Answered (Reply (writeJSON StatusOK (PQueues vs)))) s)"
| work: "rg_procs s g = Some (Working e body a) \<Longrightarrow> en_id env = g
    \<Longrightarrow> after_get env e body (rg_store s a) (rg_disk s) = Some (r, q, d)
    \<Longrightarrow> in_order (endpoint_op env e body) (rg_store s a) q d
    \<Longrightarrow> reg_step s (set_proc g (case r of Parked vis wait dl \<Rightarrow> Polling vis wait dl a | _ \<Rightarrow> Answered r) (set_queue a q d s))"
| poll: "rg_procs s g = Some (Polling vis wait dl a) \<Longrightarrow> g \<notin> set (q_parked (rg_store s a))
    \<Longrightarrow> receive_round g vis wait dl ctx now1 now2 rnd (rg_store s a) = Some (r, q)
    \<Longrightarrow> in_order (Some (OReceive vis now1 rnd)) (rg_store s a) q (rg_disk s)
    \<Longrightarrow> reg_step s (set_proc g (case r of Park \<Rightarrow> Polling vis wait dl a | Return res \<Rightarrow> Answered (receive_reply gone res))
          (set_queue a q (rg_disk s) s))"
| due: "a < rg_next s \<Longrightarrow> \<not> q_closed (rg_store s a) \<or> draining (rg_lock s) = Some a \<Longrightarrow> processDue now (rg_store s a) = Some (t, q)
    \<Longrightarrow> reg_step s (set_queue a q (rg_disk s) s)"
| wake: "a < rg_next s \<Longrightarrow> reg_step s (set_queue a (Broadcast (rg_store s a)) (rg_disk s) s)"
| delete: "rg_lock s = Unlocked \<Longrightarrow> rg_procs s g = None \<Longrightarrow> reg_step s (reg_Delete g name s)"
| del_close: "rg_lock s = Deleting g name a \<Longrightarrow> reg_step s (delete_close g name a s)"
| del_finish: "rg_lock s = Draining g name a \<Longrightarrow> reg_step s (delete_finish g name a s)"
| del_remove: "rg_lock s = Removing g name \<Longrightarrow> reg_step s (delete_remove g name s)"
| shutdown: "rg_lock s = Unlocked \<Longrightarrow> reg_step s (s\<lparr>rg_lock := Shutting\<rparr>)"
| shut_begin: "rg_lock s = Shutting \<Longrightarrow> map_of (rg_queues s) name = Some a \<Longrightarrow> reg_step s (shut_close name a s)"
| shut_end: "rg_lock s = ShutDraining name a \<Longrightarrow> reg_step s (shut_finish name a s)"
| shut_done: "rg_lock s = Shutting \<Longrightarrow> rg_queues s = [] \<Longrightarrow> reg_step s (s\<lparr>rg_lock := Unlocked\<rparr>)"

inductive reg_runs :: "registry \<Rightarrow> registry \<Rightarrow> bool" for s where
  refl: "reg_runs s s"
| step: "reg_runs s s1 \<Longrightarrow> reg_step s1 s2 \<Longrightarrow> reg_runs s s2"

section \<open>What holds of one queue at a time\<close>

text \<open>
  The contract every argument about the registry rests on: a property of one queue and the disk that survives
  whatever happens to the files of other queues. Then it survives, for a family of queues with different
  names, a change of one of them.
\<close>

locale framed =
  fixes key :: "'v \<Rightarrow> 'k" and holds :: "'v \<Rightarrow> 'w \<Rightarrow> bool" and touches :: "'k set \<Rightarrow> 'w \<Rightarrow> 'w \<Rightarrow> bool"
  assumes frame: "holds v w \<Longrightarrow> touches K w w' \<Longrightarrow> key v \<notin> K \<Longrightarrow> holds v w'"
begin

lemma frame_others:
  assumes "\<And>a. a \<in> A \<Longrightarrow> holds (st a) w" "touches {k} w w'" "k \<notin> (\<lambda>a. key (st a)) ` A" "a \<in> A"
  shows "holds (st a) w'"
  using frame [OF assms(1) [OF assms(4)] assms(2)] assms(3,4) by blast

lemma frame_update:
  assumes "\<And>a. a \<in> A \<Longrightarrow> holds (st a) w" "inj_on (\<lambda>a. key (st a)) A" "b \<in> A" "touches {key (st b)} w w'" "holds v w'" "a \<in> A"
  shows "holds ((st(b := v)) a) w'"
proof (cases "a = b")
  case False
  then have "key (st b) \<notin> (\<lambda>a. key (st a)) ` (A - {b})" using assms(2,3) by (auto simp: inj_on_def)
  then show ?thesis using frame_others [of "A - {b}" st w "key (st b)" w' a] assms False by simp
qed (use assms in simp)

end

text \<open>\<open>touches N\<close>: only the files of the queues \<open>N\<close> have changed.\<close>

definition touches :: "string set \<Rightarrow> disk \<Rightarrow> disk \<Rightarrow> bool" where
  "touches N d d' \<longleftrightarrow> only_names (\<Union>n \<in> N. log_names n) d d'"

definition open_queue :: "Log Queue \<Rightarrow> disk \<Rightarrow> bool" where
  "open_queue q d \<longleftrightarrow> ValidateName (q_name q) = None \<and> sound q \<and> durable file_holds q d \<and> balanced q"

lemma not_touched: "n \<notin> N \<Longrightarrow> n @ logExt \<notin> (\<Union>n \<in> N. log_names n)"
proof
  assume "n \<notin> N" "n @ logExt \<in> (\<Union>n \<in> N. log_names n)"
  then obtain k where "k \<in> N" "n @ logExt \<in> log_names k" "n \<noteq> k" by auto
  then show False using other_names(1) by blast
qed

interpretation opened: framed q_name open_queue touches
proof
  fix q d N d'
  assume "open_queue q d" "touches N d d'" "q_name q \<notin> N"
  then show "open_queue q d'" using durable_frame [of q d _ d'] not_touched [of "q_name q" N] by (simp add: touches_def open_queue_def)
qed

interpretation away: framed q_name put_away touches
proof
  fix q d N d'
  assume "put_away q d" "touches N d d'" "q_name q \<notin> N"
  then show "put_away q d'" using put_away_frame [of q d _ d'] not_touched [of "q_name q" N] by (simp add: touches_def)
qed

lemma touches_ok: "touches N d d' \<Longrightarrow> disk_ok d'"
  by (simp add: touches_def only_names_ok)

lemma touches_refl [simp]: "disk_ok d \<Longrightarrow> touches N d d"
  by (simp add: touches_def)

lemma touches_one: "touches {n} d d' \<longleftrightarrow> only_names (log_names n) d d'"
  by (simp add: touches_def)

lemma open_queue_disk: "open_queue q d \<Longrightarrow> disk_ok d"
  by (auto simp: open_queue_def durable_def file_holds_def)

section \<open>The critical sections of a queue\<close>

text \<open>What a section must do to a queue so that nobody else notices.\<close>

definition section_ok :: "Log Queue \<Rightarrow> disk \<Rightarrow> Log Queue \<Rightarrow> disk \<Rightarrow> bool" where
  "section_ok q d q' d' \<longleftrightarrow> open_queue q' d' \<and> touches {q_name q} d d' \<and> q_name q' = q_name q"

lemma execute_section:
  assumes "open_queue q d" "fresh x q" "writable x q" "execute storage_log x q d = Some (out, q', d')" "file_healthy (q_log q') d'"
  shows "section_ok q d q' d' \<and> q_closed q' = q_closed q"
proof -
  have q: "sound q" "durable file_holds q d" "balanced q" "ValidateName (q_name q) = None" "queue_inv q"
    using assms(1) by (auto simp: open_queue_def sound_def)
  have "sound q' \<and> durable file_holds q' d'" by (rule file_log.execute_durable [OF q(1,2) assms(2-5)])
  moreover have "balanced q'" by (rule execute_balanced [OF q(5,3) assms(2,4)])
  moreover have "q_name q' = q_name q" using execute_total [OF q(5) assms(2), of storage_log d] assms(4) by (metis option.inject prod.inject)
  ultimately show ?thesis
    using q(4) execute_frame [OF q(5,2) assms(2,4)] execute_closed [OF q(5) assms(2,4)]
    by (simp add: section_ok_def open_queue_def touches_one)
qed

lemma parked_section: "section_ok q d q' d' \<Longrightarrow> section_ok q d (q'\<lparr>q_parked := p\<rparr>) d'"
  using parked_same [of q' d' p] by (auto simp: section_ok_def open_queue_def)

lemma Broadcast_section: "open_queue q d \<Longrightarrow> section_ok q d (Broadcast q) d"
  unfolding Broadcast_def by (rule parked_section) (use open_queue_disk in \<open>auto simp: section_ok_def\<close>)

lemma due_section:
  assumes "open_queue q d" "processDue now q = Some (t, q')"
  shows "section_ok q d q' d \<and> q_closed q' = q_closed q"
proof -
  have q: "sound q" "durable file_holds q d" "balanced q" "queue_inv q" using assms(1) by (auto simp: open_queue_def sound_def)
  have e: "execute storage_log (ODue now) q d = Some (NextDue t, q', d)" using assms(2) by simp
  have "durable file_holds q' d" using file_log.processDue_durable [OF q(1,2) assms(2)] by blast
  then have "file_healthy (q_log q') d" by (auto simp: durable_def file_log.holds_healthy)
  then show ?thesis using execute_section [OF assms(1) _ _ e] by simp
qed

text \<open>A round of a receiver is a receive of the engine, except that it may park.\<close>

lemma round_section:
  assumes o: "open_queue q d" and r: "receive_round g vis wait dl ctx now1 now2 rnd q = Some (r, q')"
    and f: "fresh (OReceive vis now1 rnd) q" and h: "file_healthy (q_log q') d"
  shows "section_ok q d q' d \<and> q_closed q' = q_closed q"
proof -
  have inv: "queue_inv q" using o by (auto simp: open_queue_def sound_def)
  obtain res q1 where p: "receive_round 0 vis 0 zero_time None now1 now1 rnd q = Some (Return res, q1)" by (rule Receive_poll [OF inv f])
  then have q': "q' = q1 \<or> q' = q1\<lparr>q_parked := g # q_parked q1\<rparr>" using receive_round_as [OF p, of g wait dl ctx now2] r by (auto split: if_splits)
  have e: "execute storage_log (OReceive vis now1 rnd) q d = Some (Received res, q1, d)" using p by simp
  have "section_ok q d q1 d \<and> q_closed q1 = q_closed q"
    using execute_section [OF o f _ e] h q' by auto
  then show ?thesis using q' parked_section by auto
qed

lemma after_get_execute:
  assumes "after_get env e body q d = Some (r, q', d')" "e \<noteq> ReceiveMessage"
  shows "q' = q \<and> d' = d \<or> (\<exists>x out. endpoint_op env e body = Some x \<and> execute storage_log x q d = Some (out, q', d'))"
  using assms by (cases e) (auto simp: after_get_def split: sum.splits option.splits prod.splits)

lemma after_get_receive:
  assumes "after_get env ReceiveMessage body q d = Some (r, q', d')"
  shows "d' = d" "q' = q \<or> (\<exists>vis wait dl out. endpoint_op env ReceiveMessage body = Some (OReceive vis (en_pop env) (en_rnd env))
    \<and> receive_round (en_id env) vis wait dl (en_ctx env) (en_pop env) (en_check env) (en_rnd env) q = Some (out, q'))"
  using assms by (auto simp: after_get_def Let_def split: sum.splits option.splits prod.splits recv.splits)

lemma closed_refuses:
  assumes "q_closed q"
  shows "Queue_Ack ls rc q d = Some (Some ErrQueueDeleted, q, d)"
    "receive_round g vis wait dl ctx now1 now2 rnd q = Some (Return (Inl ErrQueueDeleted), q)"
    "Queue_Nack ls rc delay now q d = Some (Some (if delay < 0 then errNegativeDelay else ErrQueueDeleted), q, d)"
    "\<exists>e. Queue_Enqueue ls body prio delay now rnd q d = (Inl e, q, d)"
  using assms by (auto simp: Queue_Ack_def receive_round_def Queue_Nack_def Queue_Enqueue_def Let_def split: sum.split)

text \<open>No success: an answer of the classes 4xx and 5xx, or none because the client has gone.\<close>

definition refused :: "reply \<Rightarrow> bool" where
  "refused r \<longleftrightarrow> r = NoReply \<or> (\<exists>resp. r = Reply resp \<and> 400 \<le> rs_status resp)"

lemma engine_error_refused: "refused (Reply (writeEngineError e))" "refused (receive_reply gone (Inl e))"
  by (simp_all add: refused_def writeEngineError_def writeJSON_def receive_reply_def)

lemma decodeBody_refused: "decodeBody step names zero body = Inl resp \<Longrightarrow> refused (Reply resp)"
  by (auto simp: decodeBody_def refused_def refused_status split: sum.splits decode_err.splits)

lemma args_refused:
  "send_args body = Inl resp \<Longrightarrow> refused (Reply resp)" "receive_args body = Inl resp \<Longrightarrow> refused (Reply resp)"
  "ack_args body = Inl resp \<Longrightarrow> refused (Reply resp)" "nack_args body = Inl resp \<Longrightarrow> refused (Reply resp)"
  by (auto simp: send_args_def receive_args_def ack_args_def nack_args_def refused_status
      split: sum.splits if_splits dest: decodeBody_refused) (simp_all add: refused_def refused_status)

text \<open>Whoever still holds a closed queue is told so, and changes nothing.\<close>

lemma after_get_closed:
  assumes "q_closed q" "after_get env e body q d = Some (r, q', d')"
  shows "q' = q \<and> d' = d \<and> (e \<in> {SendMessage, ReceiveMessage, AckMessage, NackMessage} \<longrightarrow> refused r)"
proof (cases "e = SendMessage")
  case True
  show ?thesis
  proof (cases "send_args body")
    case (Inr x)
    then obtain msg prio delay where x: "send_args body = Inr (msg, prio, delay)" by (cases x) auto
    obtain e' where "Queue_Enqueue storage_log msg prio delay (en_now env) (en_rnd env) q d = (Inl e', q, d)"
      using closed_refuses(4) [OF assms(1), of storage_log msg prio delay "en_now env" "en_rnd env" d] by auto
    then show ?thesis using assms(2) True x engine_error_refused(1) by (auto simp: after_get_def)
  qed (use assms(2) True args_refused in \<open>auto simp: after_get_def\<close>)
qed (use assms(2) args_refused(2-4) [of body] in
    \<open>cases e; auto simp: after_get_def Let_def closed_refuses(1-3) [OF assms(1)] engine_error_refused split: sum.splits prod.splits\<close>)

lemma after_get_closed_total:
  assumes "q_closed q" "e \<in> {SendMessage, ReceiveMessage, AckMessage, NackMessage}"
  shows "\<exists>r q' d'. after_get env e body q d = Some (r, q', d')"
proof (cases "e = SendMessage")
  case True
  then show ?thesis by (auto simp: after_get_def split: sum.split prod.split)
qed (use assms(2) in \<open>auto simp: after_get_def Let_def closed_refuses(1-3) [OF assms(1)] split: sum.split prod.split\<close>)

lemma after_get_section:
  assumes o: "open_queue q d" and a: "after_get env e body q d = Some (r, q', d')" and i: "in_order (endpoint_op env e body) q q' d'"
  shows "section_ok q d q' d' \<and> q_closed q' = q_closed q"
proof (cases "q_closed q \<or> q' = q \<and> d' = d")
  case True
  then have "q' = q \<and> d' = d" using after_get_closed [OF _ a] by blast
  then show ?thesis using o open_queue_disk [OF o] by (simp add: section_ok_def)
next
  case False
  then have c: "file_healthy (q_log q') d'" "\<And>x. endpoint_op env e body = Some x \<Longrightarrow> fresh x q \<and> in_range x q"
    using i by (auto simp: in_order_def)
  show ?thesis
  proof (cases "e = ReceiveMessage")
    case True
    note ra = after_get_receive [OF a [unfolded True]]
    then show ?thesis using round_section [OF o] c False True by blast
  next
    case ne: False
    obtain x out where x: "endpoint_op env e body = Some x" "execute storage_log x q d = Some (out, q', d')"
      using after_get_execute [OF a ne] False by blast
    show ?thesis using execute_section [OF o _ _ x(2) c(1)] c(2) [OF x(1)] endpoint_writable [OF x(1)] by blast
  qed
qed

section \<open>The invariant\<close>

text \<open>The queues that are still open: the registered ones and the one \<open>Delete\<close> has taken out of the map but not
  yet closed.\<close>

fun held_entry :: "holder \<Rightarrow> (string \<times> addr) list" where
  "held_entry (Deleting g name a) = [(name, a)]"
| "held_entry (Draining g name a) = [(name, a)]"
| "held_entry _ = []"

definition entries :: "registry \<Rightarrow> (string \<times> addr) list" where
  "entries s = held_entry (rg_lock s) @ rg_queues s"

abbreviation "opens s \<equiv> snd ` set (entries s)"

fun pointers :: "goroutine \<Rightarrow> addr set" where
  "pointers (Working e body a) = {a}"
| "pointers (Polling vis wait dl a) = {a}"
| "pointers (Listing as vs) = set as"
| "pointers (Answered r) = {}"

fun lock_ok :: "holder \<Rightarrow> (string \<times> addr) list \<Rightarrow> bool" where
  "lock_ok (ShutDraining name a) qs \<longleftrightarrow> (name, a) \<in> set qs"
| "lock_ok (Removing g name) qs \<longleftrightarrow> name \<notin> fst ` set qs"
| "lock_ok _ qs \<longleftrightarrow> True"

definition reg_wf :: "registry \<Rightarrow> bool" where
  "reg_wf s \<longleftrightarrow> distinct (map fst (entries s))
     \<and> (\<forall>(n, a) \<in> set (entries s). a < rg_next s \<and> q_name (rg_store s a) = n
          \<and> (q_closed (rg_store s a) \<longleftrightarrow> draining (rg_lock s) = Some a))
     \<and> (\<forall>a < rg_next s. a \<notin> opens s \<longrightarrow> q_closed (rg_store s a))
     \<and> (\<forall>g p. rg_procs s g = Some p \<longrightarrow> (\<forall>a \<in> pointers p. a < rg_next s))
     \<and> lock_ok (rg_lock s) (rg_queues s)"

definition reg_ok :: "registry \<Rightarrow> bool" where
  "reg_ok s \<longleftrightarrow> disk_ok (rg_disk s) \<and> reg_wf s \<and> (\<forall>a \<in> opens s. open_queue (rg_store s a) (rg_disk s))"

lemma set_queue_fields [simp]:
  "rg_store (set_queue a q d s) = (rg_store s)(a := q)" "rg_disk (set_queue a q d s) = d" "rg_queues (set_queue a q d s) = rg_queues s"
  "rg_lock (set_queue a q d s) = rg_lock s" "rg_next (set_queue a q d s) = rg_next s" "rg_procs (set_queue a q d s) = rg_procs s"
  by (simp_all add: set_queue_def)

lemma set_proc_fields [simp]:
  "rg_store (set_proc g p s) = rg_store s" "rg_disk (set_proc g p s) = rg_disk s" "rg_queues (set_proc g p s) = rg_queues s"
  "rg_lock (set_proc g p s) = rg_lock s" "rg_next (set_proc g p s) = rg_next s" "rg_procs (set_proc g p s) = (rg_procs s)(g \<mapsto> p)"
  by (simp_all add: set_proc_def)

lemma entries_fields [simp]: "entries (set_queue a q d s) = entries s" "entries (set_proc g p s) = entries s"
  "entries (s\<lparr>rg_disk := d\<rparr>) = entries s"
  by (simp_all add: entries_def)

lemma opens_iff: "b \<in> snd ` set xs \<longleftrightarrow> (\<exists>n. (n, b) \<in> set xs)"
  by force

lemma reg_wf_entry:
  assumes "reg_wf s" "(n, a) \<in> set (entries s)"
  shows "a < rg_next s" "q_name (rg_store s a) = n" "q_closed (rg_store s a) \<longleftrightarrow> draining (rg_lock s) = Some a"
  using assms by (auto simp: reg_wf_def)

lemma entries_unique:
  assumes "reg_wf s" "(n, a) \<in> set (entries s)" "(n', a') \<in> set (entries s)"
  shows "n = n' \<longleftrightarrow> a = a'"
proof
  assume "n = n'"
  then show "a = a'" using assms eq_key_imp_eq_value [of "entries s" n a a'] by (simp add: reg_wf_def)
next
  assume "a = a'"
  then show "n = n'" using reg_wf_entry(2) [OF assms(1)] assms(2,3) by metis
qed

lemma entries_inj:
  assumes "reg_wf s"
  shows "inj_on (\<lambda>a. q_name (rg_store s a)) (opens s)"
proof (rule inj_onI)
  fix a b
  assume "a \<in> opens s" "b \<in> opens s" "q_name (rg_store s a) = q_name (rg_store s b)"
  then show "a = b" using reg_wf_entry(2) [OF assms] entries_unique [OF assms] by fastforce
qed

lemma reg_ok_open: "reg_ok s \<Longrightarrow> b \<in> opens s \<Longrightarrow> open_queue (rg_store s b) (rg_disk s)"
  unfolding reg_ok_def by blast

lemma reg_ok_closed_elsewhere: "reg_ok s \<Longrightarrow> a < rg_next s \<Longrightarrow> \<not> q_closed (rg_store s a) \<Longrightarrow> a \<in> opens s"
  unfolding reg_ok_def reg_wf_def by blast

lemma closed_elsewhere: "reg_wf s \<Longrightarrow> a < rg_next s \<Longrightarrow> a \<notin> opens s \<Longrightarrow> q_closed (rg_store s a)"
  by (simp add: reg_wf_def)

lemma pointer_allocated: "reg_wf s \<Longrightarrow> rg_procs s g = Some p \<Longrightarrow> a \<in> pointers p \<Longrightarrow> a < rg_next s"
  unfolding reg_wf_def by blast

lemma draining_open: "reg_wf s \<Longrightarrow> draining (rg_lock s) = Some a \<Longrightarrow> a \<in> opens s"
  by (cases "rg_lock s") (auto simp: reg_wf_def entries_def image_iff intro: bexI [rotated])

lemma reg_wf_queue:
  "reg_wf s \<Longrightarrow> q_name q = q_name (rg_store s a) \<Longrightarrow> q_closed q = q_closed (rg_store s a) \<Longrightarrow> reg_wf (set_queue a q d s)"
  by (auto simp: reg_wf_def split: prod.splits)

lemma reg_ok_proc: "reg_ok s \<Longrightarrow> \<forall>a \<in> pointers p. a < rg_next s \<Longrightarrow> reg_ok (set_proc g p s)"
  by (auto simp: reg_ok_def reg_wf_def)

lemma reg_ok_answer: "reg_ok s \<Longrightarrow> reg_ok (set_proc g (Answered r) s)"
  by (simp add: reg_ok_proc)

lemma reg_okI:
  assumes "disk_ok (rg_disk s)" "distinct (map fst (entries s))"
    "\<And>n a. (n, a) \<in> set (entries s) \<Longrightarrow> a < rg_next s \<and> q_name (rg_store s a) = n
      \<and> (q_closed (rg_store s a) \<longleftrightarrow> draining (rg_lock s) = Some a) \<and> open_queue (rg_store s a) (rg_disk s)"
    "\<And>a. a < rg_next s \<Longrightarrow> a \<notin> opens s \<Longrightarrow> q_closed (rg_store s a)"
    "\<And>g p a. rg_procs s g = Some p \<Longrightarrow> a \<in> pointers p \<Longrightarrow> a < rg_next s" "lock_ok (rg_lock s) (rg_queues s)"
  shows "reg_ok s"
  unfolding reg_ok_def reg_wf_def by (intro conjI ballI allI impI) (use assms in \<open>auto split: prod.splits\<close>)

lemma reg_ok_section:
  assumes ok: "reg_ok s" and a: "a \<in> opens s" and sec: "section_ok (rg_store s a) (rg_disk s) q d" "q_closed q = q_closed (rg_store s a)"
  shows "reg_ok (set_queue a q d s)"
proof -
  have wf: "reg_wf s" "\<And>b. b \<in> opens s \<Longrightarrow> open_queue (rg_store s b) (rg_disk s)" using ok by (auto simp: reg_ok_def)
  have q: "open_queue q d" "touches {q_name (rg_store s a)} (rg_disk s) d" "q_name q = q_name (rg_store s a)"
    using sec(1) by (auto simp: section_ok_def)
  have "open_queue (((rg_store s)(a := q)) b) d" if "b \<in> opens s" for b
    by (rule opened.frame_update [OF wf(2) entries_inj [OF wf(1)] a q(2,1) that])
  then show ?thesis using reg_wf_queue [OF wf(1) q(3) sec(2)] touches_ok [OF q(2)] by (simp add: reg_ok_def)
qed

text \<open>A section that leaves the queue as it is, or works on a queue nobody else can reach.\<close>

lemma reg_ok_closed:
  assumes "reg_ok s" "a \<notin> opens s" "q_closed q"
  shows "reg_ok (set_queue a q (rg_disk s) s)"
proof -
  have "(n, a) \<notin> set (entries s)" for n using assms(2) by force
  then have "reg_wf (set_queue a q (rg_disk s) s)" using assms unfolding reg_ok_def reg_wf_def by (auto split: prod.splits)
  then show ?thesis using assms by (auto simp: reg_ok_def)
qed

lemma set_queue_same [simp]: "set_queue a (rg_store s a) (rg_disk s) s = s"
  by (simp add: set_queue_def)

lemma reg_ok_work:
  assumes ok: "reg_ok s" and a: "a < rg_next s" and w: "after_get env e body (rg_store s a) (rg_disk s) = Some (r, q, d)"
    and i: "in_order (endpoint_op env e body) (rg_store s a) q d"
  shows "reg_ok (set_queue a q d s)"
proof (cases "a \<in> opens s")
  case True
  then have "open_queue (rg_store s a) (rg_disk s)" by (rule reg_ok_open [OF ok])
  then show ?thesis using reg_ok_section [OF ok True] after_get_section [OF _ w i] by blast
next
  case False
  then have "q_closed (rg_store s a)" using reg_ok_closed_elsewhere [OF ok a] by blast
  then show ?thesis using after_get_closed [OF _ w] ok by simp
qed

lemma reg_ok_poll:
  assumes ok: "reg_ok s" and a: "a < rg_next s" and w: "receive_round g vis wait dl ctx now1 now2 rnd (rg_store s a) = Some (r, q)"
    and i: "in_order (Some (OReceive vis now1 rnd)) (rg_store s a) q (rg_disk s)"
  shows "reg_ok (set_queue a q (rg_disk s) s)"
proof (cases "q_closed (rg_store s a)")
  case True
  then have "q = rg_store s a" using w by (simp add: closed_refuses)
  then show ?thesis using ok by simp
next
  case False
  then have "a \<in> opens s" by (rule reg_ok_closed_elsewhere [OF ok a])
  moreover from this have "open_queue (rg_store s a) (rg_disk s)" by (rule reg_ok_open [OF ok])
  ultimately show ?thesis using reg_ok_section [OF ok] round_section [OF _ w] i False by (simp add: in_order_def)
qed

lemma due_open:
  assumes "reg_ok s" "a < rg_next s" "\<not> q_closed (rg_store s a) \<or> draining (rg_lock s) = Some a"
  shows "a \<in> opens s"
  using reg_ok_closed_elsewhere [OF assms(1,2)] draining_open [of s a] assms unfolding reg_ok_def by blast

lemma reg_ok_due:
  assumes ok: "reg_ok s" and a: "a < rg_next s" and op: "\<not> q_closed (rg_store s a) \<or> draining (rg_lock s) = Some a"
    and w: "processDue now (rg_store s a) = Some (t, q)"
  shows "reg_ok (set_queue a q (rg_disk s) s)"
proof -
  have "a \<in> opens s" by (rule due_open [OF ok a op])
  moreover from this have "open_queue (rg_store s a) (rg_disk s)" by (rule reg_ok_open [OF ok])
  ultimately show ?thesis using reg_ok_section [OF ok] due_section [OF _ w] by blast
qed

lemma reg_ok_wake:
  assumes ok: "reg_ok s" and a: "a < rg_next s"
  shows "reg_ok (set_queue a (Broadcast (rg_store s a)) (rg_disk s) s)"
proof (cases "a \<in> opens s")
  case True
  then have "open_queue (rg_store s a) (rg_disk s)" by (rule reg_ok_open [OF ok])
  then show ?thesis using reg_ok_section [OF ok True Broadcast_section] by (simp add: Broadcast_def)
next
  case False
  then have "q_closed (rg_store s a)" using reg_ok_closed_elsewhere [OF ok a] by blast
  then show ?thesis using reg_ok_closed [OF ok False] by (simp add: Broadcast_def)
qed

section \<open>Every step keeps the invariant\<close>

lemma Close_begin_section:
  assumes "open_queue q d"
  shows "section_ok q d (Close_begin q) d"
proof -
  have q: "sound q" "durable file_holds q d" "queue_inv (Close_begin q)" using assms by (auto simp: open_queue_def sound_def)
  have "sound (Close_begin q) \<and> durable file_holds (Close_begin q) d"
    by (rule file_log.quiet_durable [OF q]) (simp_all add: all_live_of)
  then show ?thesis using assms open_queue_disk [OF assms] Close_begin_fields(3) [of q] balanced_cong [of persisted "Close_begin q" q]
    by (simp add: section_ok_def open_queue_def same_core_def all_live_of)
qed

lemma finish_touches:
  assumes "open_queue q d" "Close_finish storage_log q d = (err, q', d')"
  shows "touches {q_name q} d d'" "put_away q' d'" "q_name q' = q_name q" "q_closed q' = q_closed q"
proof -
  obtain rs where "file_holds (q_name q) rs (q_log q) d" using assms(1) by (auto simp: open_queue_def durable_def)
  then show "touches {q_name q} d d'" using Close_finish_frame [OF _ assms(2)] by (simp add: touches_one)
  have "stored q' d'" "\<exists>l. q' = q\<lparr>q_log := l\<rparr>" using Close_finish_stored [OF _ _ assms(2)] assms(1) by (auto simp: open_queue_def)
  then show "put_away q' d'" "q_name q' = q_name q" "q_closed q' = q_closed q"
    using assms(1) by (auto simp: put_away_def open_queue_def intro!: exI [of _ q'])
qed

text \<open>A queue that has been closed leaves the registry.\<close>

lemma reg_ok_leave:
  assumes ok: "reg_ok s" and na: "(n, a) \<in> set (entries s)" "draining (rg_lock s) = Some a"
    and cl: "Close_finish storage_log (rg_store s a) (rg_disk s) = (err, q, d)"
    and s': "rg_store s' = (rg_store s)(a := q)" "rg_disk s' = d" "rg_next s' = rg_next s" "rg_procs s' = rg_procs s"
      "set (entries s') = set (entries s) - {(n, a)}" "distinct (map fst (entries s'))" "draining (rg_lock s') = None"
      "lock_ok (rg_lock s') (rg_queues s')"
  shows "reg_ok s'"
proof -
  have wf: "reg_wf s" and op: "\<And>b. b \<in> opens s \<Longrightarrow> open_queue (rg_store s b) (rg_disk s)" using ok by (auto simp: reg_ok_def)
  note ne = reg_wf_entry [OF wf na(1)]
  have a: "a \<in> opens s" using na(1) by force
  note f = finish_touches [OF op [OF a] cl]
  have other: "b \<noteq> a \<and> (m, b) \<in> set (entries s)" if "(m, b) \<in> set (entries s')" for m b
  proof -
    have "(m, b) \<in> set (entries s)" "(m, b) \<noteq> (n, a)" using that unfolding s'(5) by blast+
    then show ?thesis using entries_unique [OF wf na(1), of m b] by blast
  qed
  have o': "b \<in> opens s - {a}" if b: "b \<in> opens s'" for b
  proof -
    obtain m where "(m, b) \<in> set (entries s')" using b unfolding opens_iff by blast
    then have "(m, b) \<in> set (entries s)" "b \<noteq> a" using other by blast+
    then show ?thesis by (simp add: rev_image_eqI)
  qed
  have n: "n \<notin> (\<lambda>b. q_name (rg_store s b)) ` (opens s - {a})"
  proof
    assume "n \<in> (\<lambda>b. q_name (rg_store s b)) ` (opens s - {a})"
    then obtain b where "b \<in> opens s" "b \<noteq> a" "q_name (rg_store s b) = n" by blast
    then show False using inj_onD [OF entries_inj [OF wf] _ _ a, of b] ne(2) by simp
  qed
  have t: "touches {n} (rg_disk s) d" using f(1) ne(2) by simp
  have od: "open_queue (rg_store s b) d" if "b \<in> opens s'" for b
    using opened.frame_others [where st = "rg_store s" and A = "opens s - {a}", OF _ t n o' [OF that]] op by blast
  have kept: "b < rg_next s' \<and> q_name (rg_store s' b) = m \<and> (q_closed (rg_store s' b) \<longleftrightarrow> draining (rg_lock s') = Some b)
      \<and> open_queue (rg_store s' b) (rg_disk s')" if "(m, b) \<in> set (entries s')" for m b
  proof -
    have "open_queue (rg_store s b) d" by (rule od) (use that in \<open>unfold opens_iff, blast\<close>)
    moreover have b: "b \<noteq> a" "(m, b) \<in> set (entries s)" using other [OF that] by blast+
    ultimately show ?thesis using reg_wf_entry [OF wf b(2)] b(1) na(2) s'(1-3,7) by simp
  qed
  have gone: "q_closed (rg_store s' b)" if "b < rg_next s'" "b \<notin> opens s'" for b
  proof (cases "b = a")
    case True
    then show ?thesis using s'(1) f(4) ne(3) na(2) by simp
  next
    case False
    then have "b \<notin> opens s" using that(2) opens_iff [of b "entries s"] unfolding s'(5) by force
    then show ?thesis using closed_elsewhere [OF wf] that(1) s'(1,3) False by simp
  qed
  show ?thesis
    by (rule reg_okI [OF _ s'(6) kept gone _ s'(8)]) (simp_all add: s'(2-4) touches_ok [OF t] pointer_allocated [OF wf])
qed

lemma reg_ok_lock:
  assumes "reg_ok s" "entries s' = entries s" "rg_store s' = rg_store s" "rg_disk s' = rg_disk s" "rg_next s' = rg_next s"
    "rg_procs s' = rg_procs s" "draining (rg_lock s') = draining (rg_lock s)" "lock_ok (rg_lock s') (rg_queues s')"
  shows "reg_ok s'"
  using assms by (simp add: reg_ok_def reg_wf_def)

text \<open>Closing begins: the queue keeps its files, and only the scheduler may still change it.\<close>

lemma reg_ok_begin:
  assumes ok: "reg_ok s" and na: "(n, a) \<in> set (entries s)" "draining (rg_lock s) = None"
    and s': "entries s' = entries s" "rg_store s' = (rg_store s)(a := Close_begin (rg_store s a))" "rg_disk s' = rg_disk s" "rg_next s' = rg_next s"
      "rg_procs s' = rg_procs s" "draining (rg_lock s') = Some a" "lock_ok (rg_lock s') (rg_queues s')"
  shows "reg_ok s'"
proof -
  have wf: "reg_wf s" and op: "\<And>b. b \<in> opens s \<Longrightarrow> open_queue (rg_store s b) (rg_disk s)" using ok by (auto simp: reg_ok_def)
  have a: "a \<in> opens s" using na(1) by force
  have sec: "open_queue (Close_begin (rg_store s a)) (rg_disk s)" "touches {q_name (rg_store s a)} (rg_disk s) (rg_disk s)"
    "q_name (Close_begin (rg_store s a)) = q_name (rg_store s a)" using Close_begin_section [OF op [OF a]] by (auto simp: section_ok_def)
  have "open_queue (rg_store s' b) (rg_disk s)" if "b \<in> opens s" for b
    unfolding s'(2) by (rule opened.frame_update [OF op entries_inj [OF wf] a sec(2,1) that])
  moreover have "b < rg_next s' \<and> q_name (rg_store s' b) = m \<and> (q_closed (rg_store s' b) \<longleftrightarrow> draining (rg_lock s') = Some b)"
    if "(m, b) \<in> set (entries s')" for m b
    using reg_wf_entry [OF wf, of m b] that na(2) s' sec(3) by auto
  moreover have "q_closed (rg_store s' b)" if "b < rg_next s'" "b \<notin> opens s'" for b
    using closed_elsewhere [OF wf, of b] that s' by auto
  moreover have "disk_ok (rg_disk s')" "distinct (map fst (entries s'))" using ok wf s' by (simp_all add: reg_ok_def reg_wf_def)
  ultimately show ?thesis by (intro reg_okI) (use pointer_allocated [OF wf] s' in force)+
qed

lemma delete_entries:
  assumes "map_of qs n = Some a" "distinct (map fst qs)"
  shows "set (map_delete n qs) = set qs - {(n, a)}" "distinct (map fst (map_delete n qs))" "n \<notin> fst ` set (map_delete n qs)" "(n, a) \<in> set qs"
proof -
  have u: "b = a" if "(n, b) \<in> set qs" for b using map_of_is_SomeI [OF assms(2) that] assms(1) by simp
  have "x \<in> set (map_delete n qs) \<longleftrightarrow> x \<in> set qs \<and> x \<noteq> (n, a)" for x
    using u [of "snd x"] by (cases x) (auto simp: map_delete_def)
  then show "set (map_delete n qs) = set qs - {(n, a)}" by blast
  show "distinct (map fst (map_delete n qs))" using distinct_map_delete [OF assms(2)] by simp
  show "n \<notin> fst ` set (map_delete n qs)" by (auto simp: map_delete_def)
  show "(n, a) \<in> set qs" using assms(1) by (rule map_of_SomeD)
qed

lemma reg_ok_delete:
  assumes ok: "reg_ok s" and l: "rg_lock s = Unlocked"
  shows "reg_ok (reg_Delete g name s)"
proof (cases "map_of (rg_queues s) name")
  case None
  then show ?thesis using reg_ok_answer [OF ok] by (simp add: reg_Delete_def)
next
  case (Some a)
  let ?s = "s\<lparr>rg_queues := map_delete name (rg_queues s), rg_lock := Deleting g name a\<rparr>"
  have wf: "reg_wf s" using ok by (simp add: reg_ok_def)
  then have "distinct (map fst (rg_queues s))" using l by (simp add: reg_wf_def entries_def)
  note de = delete_entries [OF Some this]
  have "set (entries ?s) = set (entries s)" "distinct (map fst (entries ?s))" using de l by (auto simp: entries_def)
  then have "reg_ok ?s" using ok l unfolding reg_ok_def reg_wf_def by simp
  then show ?thesis using Some by (simp add: reg_Delete_def)
qed

lemma reg_ok_delete_close:
  assumes ok: "reg_ok s" and l: "rg_lock s = Deleting g name a"
  shows "reg_ok (delete_close g name a s)"
proof -
  have e: "(name, a) \<in> set (entries s)" using l by (simp add: entries_def)
  then have "\<not> q_closed (rg_store s a)" using ok reg_wf_entry(3) [of s name a] l by (simp add: reg_ok_def)
  then show ?thesis using reg_ok_begin [OF ok e, of "delete_close g name a s"] l by (simp add: delete_close_def entries_def)
qed

lemma reg_ok_delete_finish:
  assumes ok: "reg_ok s" and l: "rg_lock s = Draining g name a"
  shows "reg_ok (delete_finish g name a s)"
proof -
  obtain err q d where c: "Close_finish storage_log (rg_store s a) (rg_disk s) = (err, q, d)" by (metis prod_cases3)
  have wf: "distinct (name # map fst (rg_queues s))" using ok l by (simp add: reg_ok_def reg_wf_def entries_def)
  have e: "(name, a) \<in> set (entries s)" using l by (simp add: entries_def)
  have k: "reg_ok ((set_queue a q d s)\<lparr>rg_lock := h\<rparr>)" if "h \<in> {Unlocked, Removing g name}" for h
    by (rule reg_ok_leave [OF ok e _ c]) (use that l wf in \<open>auto simp: entries_def image_iff\<close>)
  show ?thesis
  proof (cases err)
    case None
    then show ?thesis using k [of "Removing g name"] c by (simp add: delete_finish_def)
  next
    case (Some e)
    then show ?thesis using reg_ok_answer [OF k [of Unlocked]] c by (simp add: delete_finish_def)
  qed
qed

lemma reg_ok_disk:
  assumes ok: "reg_ok s" and t: "touches {n} (rg_disk s) d" and n: "n \<notin> fst ` set (entries s)"
  shows "reg_ok (s\<lparr>rg_disk := d\<rparr>)"
proof -
  have wf: "reg_wf s" and op: "\<And>b. b \<in> opens s \<Longrightarrow> open_queue (rg_store s b) (rg_disk s)" using ok by (auto simp: reg_ok_def)
  have "n \<notin> (\<lambda>b. q_name (rg_store s b)) ` opens s" using n reg_wf_entry(2) [OF wf] by force
  then have "open_queue (rg_store s b) d" if "b \<in> opens s" for b using opened.frame_others [where st = "rg_store s" and A = "opens s", OF op t _ that] by blast
  moreover have "reg_wf (s\<lparr>rg_disk := d\<rparr>)" using wf by (simp add: reg_wf_def)
  ultimately show ?thesis using touches_ok [OF t] by (simp add: reg_ok_def)
qed

lemma touches_log: "only_names {n @ logExt} d d' \<Longrightarrow> touches {n} d d'"
  by (auto simp: touches_one log_names_def elim: only_names_mono)

lemma reg_ok_delete_remove:
  assumes ok: "reg_ok s" and l: "rg_lock s = Removing g name"
  shows "reg_ok (delete_remove g name s)"
proof -
  obtain err d where r: "Remove name (rg_disk s) = (err, d)" by force
  have t: "touches {name} (rg_disk s) d" using only_names_delete [OF r] ok by (intro touches_log) (simp add: reg_ok_def)
  have n: "name \<notin> fst ` set (entries s)" using ok l by (simp add: reg_ok_def reg_wf_def entries_def)
  have "reg_ok (s\<lparr>rg_disk := d, rg_lock := Unlocked\<rparr>)"
    by (rule reg_ok_lock [OF reg_ok_disk [OF ok t n]]) (use l in \<open>simp_all add: entries_def\<close>)
  from reg_ok_answer [OF this] r show ?thesis by (simp add: delete_remove_def)
qed

lemma reg_ok_shut_close:
  assumes ok: "reg_ok s" and l: "rg_lock s = Shutting" and m: "map_of (rg_queues s) name = Some a"
  shows "reg_ok (shut_close name a s)"
proof -
  have e: "(name, a) \<in> set (entries s)" using m by (auto simp: entries_def dest: map_of_SomeD)
  then have "\<not> q_closed (rg_store s a)" using ok reg_wf_entry(3) [of s name a] l by (simp add: reg_ok_def)
  then show ?thesis using reg_ok_begin [OF ok e, of "shut_close name a s"] l map_of_SomeD [OF m] by (simp add: shut_close_def entries_def)
qed

lemma reg_ok_shut_finish:
  assumes ok: "reg_ok s" and l: "rg_lock s = ShutDraining name a"
  shows "reg_ok (shut_finish name a s)"
proof -
  obtain err q d where c: "Close_finish storage_log (rg_store s a) (rg_disk s) = (err, q, d)" by (metis prod_cases3)
  have e: "(name, a) \<in> set (rg_queues s)" "distinct (map fst (rg_queues s))"
    using ok l by (simp_all add: reg_ok_def reg_wf_def entries_def)
  note de = delete_entries [OF map_of_is_SomeI [OF e(2,1)] e(2)]
  have "reg_ok ((set_queue a q d s)\<lparr>rg_queues := map_delete name (rg_queues s), rg_lock := Shutting\<rparr>)"
    by (rule reg_ok_leave [OF ok _ _ c, of name]) (use l e de in \<open>simp_all add: entries_def\<close>)
  then show ?thesis using c by (simp add: shut_finish_def)
qed

lemma reg_ok_create:
  assumes ok: "reg_ok s" and l: "rg_lock s = Unlocked" and t: "int64 (toMillis now)"
  shows "reg_ok (reg_Create g name odr now s)"
proof (cases "ValidateName name \<noteq> None \<or> map_of (rg_queues s) name \<noteq> None")
  case True
  then show ?thesis using reg_ok_answer [OF ok] by (auto simp: reg_Create_def split: option.split)
next
  case False
  let ?c = "\<lparr>c_Name = name, c_Ordering = odr, c_CreatedAt = now\<rparr>"
  obtain res d where c: "createQueue ?c (rg_compactThreshold s) (rg_disk s) = (res, d)" by force
  have dok: "disk_ok (rg_disk s)" and wf: "reg_wf s" using ok by (simp_all add: reg_ok_def)
  have to: "touches {name} (rg_disk s) d" using createQueue_frame [OF c dok] by (intro touches_log) simp
  have n: "name \<notin> fst ` set (entries s)" using False l by (simp add: entries_def map_of_eq_None_iff)
  note kd = reg_ok_disk [OF ok to n]
  show ?thesis
  proof (cases res)
    case (Inl e)
    then show ?thesis using reg_ok_answer [OF kd] False c by (simp add: reg_Create_def)
  next
    case (Inr q)
    note cq = createQueue_durable [OF c [unfolded Inr] dok] t
    have "open_queue q d" using cq False by (auto simp: open_queue_def balanced_def all_live_def)
    moreover have "map_delete name (rg_queues s) = rg_queues s" using False by (simp add: map_delete_new)
    moreover have "rg_next s \<notin> opens s" using reg_wf_entry(1) [OF wf] by force
    ultimately have "reg_ok ((set_queue (rg_next s) q d s)\<lparr>rg_queues := map_insert name (rg_next s) (rg_queues s), rg_next := rg_next s + 1\<rparr>)"
      using kd l cq n unfolding reg_ok_def reg_wf_def
      by (auto simp: entries_def map_insert_def less_Suc_eq split: prod.splits)
    from reg_ok_proc [OF this] show ?thesis using False c Inr by (simp add: reg_Create_def)
  qed
qed


lemma reg_step_ok:
  assumes "reg_step s s'" "reg_ok s"
  shows "reg_ok s'"
  using assms
proof (induction rule: reg_step.induct)
  case (get s g e name body)
  then have "a < rg_next s" if "map_of (rg_queues s) name = Some a" for a
    using that reg_wf_entry(1) [of s name a] map_of_SomeD [OF that] by (simp add: reg_ok_def entries_def)
  then show ?case using reg_ok_proc [OF get.prems] by (cases "map_of (rg_queues s) name") (simp_all add: reg_Get_def)
next
  case (create s g now name odr)
  then show ?case by (simp add: reg_ok_create)
next
  case (listing s g)
  then have "a < rg_next s" if "(n, a) \<in> set (rg_queues s)" for n a
    using that reg_wf_entry(1) [of s n a] by (simp add: reg_ok_def entries_def)
  then have "\<forall>a \<in> snd ` set (rg_queues s). a < rg_next s" by auto
  then show ?case using reg_ok_proc [OF listing.prems] by (simp add: reg_List_def)
next
  case (list_next s g a as vs)
  then have "\<forall>b \<in> set as. b < rg_next s" using pointer_allocated [OF _ list_next.hyps] by (simp add: reg_ok_def)
  then show ?case using reg_ok_proc [OF list_next.prems] by simp
next
  case (list_end s g vs)
  then show ?case by (simp add: reg_ok_answer)
next
  case (work s g e body a env r q d)
  then have "a < rg_next s" using pointer_allocated [of s g _ a] by (simp add: reg_ok_def)
  then show ?case using reg_ok_proc [OF reg_ok_work [OF work.prems _ work.hyps(3,4)]] by (cases r) simp_all
next
  case (poll s g vis wait dl a ctx now1 now2 rnd r q gone)
  then have "a < rg_next s" using pointer_allocated [of s g _ a] by (simp add: reg_ok_def)
  then show ?case using reg_ok_proc [OF reg_ok_poll [OF poll.prems _ poll.hyps(3,4)]] by (cases r) simp_all
next
  case (due a s now t q)
  then show ?case using reg_ok_due by blast
next
  case (wake a s)
  then show ?case using reg_ok_wake by blast
next
  case (shutdown s)
  show ?case by (rule reg_ok_lock [OF shutdown.prems]) (use shutdown.hyps in \<open>simp_all add: entries_def\<close>)
next
  case (shut_done s)
  show ?case by (rule reg_ok_lock [OF shut_done.prems]) (use shut_done.hyps in \<open>simp_all add: entries_def\<close>)
qed (blast intro: reg_ok_delete reg_ok_delete_close reg_ok_delete_finish reg_ok_delete_remove reg_ok_shut_close reg_ok_shut_finish)+

lemma reg_runs_ok: "reg_runs s s' \<Longrightarrow> reg_ok s \<Longrightarrow> reg_ok s'"
  by (induction rule: reg_runs.induct) (auto intro: reg_step_ok)

end
