(* ===== verification/Registry_Life.thy ===== *)
theory Registry_Life
  imports Registry_System
begin

text \<open>
  The life of the registry under concurrent requests: queues that have been deleted or put away by the
  shutdown, the registry as one request at a time sees it, and the release of its lock.
\<close>

section \<open>Queues that have left\<close>

text \<open>An address is never opened again: what leaves the registry stays closed.\<close>

lemma opens_set_delete: "snd ` set (map_delete n qs) \<subseteq> snd ` set qs"
  by (auto simp: map_delete_def)

lemma opens_lookup: "map_of qs n = Some a \<Longrightarrow> a \<in> snd ` set qs"
  by (force dest: map_of_SomeD)

lemma opens_step:
  assumes "reg_step s s'"
  shows "opens s' \<subseteq> opens s \<union> {rg_next s}" "rg_next s \<le> rg_next s'"
proof -
  have "opens s' \<subseteq> opens s \<union> {rg_next s} \<and> rg_next s \<le> rg_next s'"
    using assms
  proof (induction rule: reg_step.induct)
    case (create s g now name odr)
    then show ?case using opens_set_delete [of name "rg_queues s"]
      by (auto simp: reg_Create_def entries_def map_insert_def split: option.split sum.split prod.split)
  next
    case (delete s g name)
    then show ?case using opens_set_delete [of name "rg_queues s"] opens_lookup [of "rg_queues s" name]
      by (auto simp: reg_Delete_def entries_def split: option.split)
  next
    case (shut_end s name a)
    then show ?case using opens_set_delete [of name "rg_queues s"] by (auto simp: shut_finish_def entries_def split: prod.split)
  next
    case (shut_begin s name a)
    then show ?case using opens_set_delete [of name "rg_queues s"] by (auto simp: shut_close_def entries_def)
  qed (auto simp: reg_Get_def reg_List_def delete_close_def delete_finish_def delete_remove_def entries_def
      split: option.split prod.split)
  then show "opens s' \<subseteq> opens s \<union> {rg_next s}" "rg_next s \<le> rg_next s'" by auto
qed

lemma closed_for_good:
  assumes "reg_runs s s'" "a < rg_next s" "a \<notin> opens s"
  shows "a < rg_next s' \<and> a \<notin> opens s'"
  using assms(1)
proof (induction rule: reg_runs.induct)
  case (step s1 s2)
  note i = step.IH
  have "a \<notin> opens s2"
  proof
    assume "a \<in> opens s2"
    from subsetD [OF opens_step(1) [OF step.hyps(2)] this] have "a \<in> opens s1 \<or> a = rg_next s1" by (simp only: Un_iff singleton_iff)
    with i show False by (elim disjE conjE) simp_all
  qed
  moreover have "a < rg_next s2" using i opens_step(2) [OF step.hyps(2)] by linarith
  ultimately show ?case by (rule conjI [rotated])
qed (use assms in simp)

text \<open>A queue that \<open>Manager.Close\<close> has closed: its file holds what the queue holds.\<close>

definition gone :: "string \<Rightarrow> addr \<Rightarrow> registry \<Rightarrow> bool" where
  "gone n a s \<longleftrightarrow> a < rg_next s \<and> n \<notin> fst ` set (entries s) \<and> (\<forall>g. rg_lock s \<noteq> Removing g n)
     \<and> q_name (rg_store s a) = n \<and> put_away (rg_store s a) (rg_disk s)"

lemma gone_closed:
  assumes "reg_ok s" "gone n a s"
  shows "a \<notin> opens s"
proof
  assume "a \<in> opens s"
  then obtain m where m: "(m, a) \<in> set (entries s)" unfolding opens_iff by blast
  then have "m = n" using assms reg_wf_entry(2) [of s m a] by (simp add: reg_ok_def gone_def)
  then show False using m assms(2) by (force simp: gone_def)
qed

lemma put_away_cong:
  assumes "q_name q' = q_name q" "q_ordering q' = q_ordering q" "all_live q' = all_live q" "q_nextSeq q' = q_nextSeq q"
    "q_enqueued q' = q_enqueued q" "q_acked q' = q_acked q"
  shows "put_away q' d = put_away q d"
  using assms by (simp add: put_away_def)

lemma gone_frame:
  assumes "gone n a s" "touches {m} (rg_disk s) (rg_disk s')" "m \<noteq> n" "rg_store s' a = rg_store s a" "rg_next s \<le> rg_next s'"
    "n \<notin> fst ` set (entries s')" "\<And>g. rg_lock s' \<noteq> Removing g n"
  shows "gone n a s'"
  using assms away.frame [of "rg_store s a" "rg_disk s" "{m}" "rg_disk s'"] by (auto simp: gone_def)

lemma gone_same:
  assumes "gone n a s" "rg_disk s' = rg_disk s" "rg_store s' a = rg_store s a" "rg_next s \<le> rg_next s'"
    "n \<notin> fst ` set (entries s')" "\<And>g. rg_lock s' \<noteq> Removing g n"
  shows "gone n a s'"
  using assms by (auto simp: gone_def)

lemma gone_section:
  assumes ok: "reg_ok s" and gn: "gone n a s" and b: "b \<in> opens s" and sec: "section_ok (rg_store s b) (rg_disk s) q d"
  shows "gone n a (set_proc g p (set_queue b q d s))" "gone n a (set_queue b q d s)"
proof -
  obtain m where m: "(m, b) \<in> set (entries s)" using b unfolding opens_iff by blast
  have nm: "q_name (rg_store s b) = m" using reg_wf_entry(2) [of s m b] m ok by (simp add: reg_ok_def)
  have "m \<noteq> n" using m gn by (force simp: gone_def)
  moreover have "a \<noteq> b" using gone_closed [OF ok gn] b by blast
  moreover have "touches {m} (rg_disk s) d" using sec nm by (simp add: section_ok_def)
  moreover have "n \<notin> fst ` set (entries s)" "\<And>g. rg_lock s \<noteq> Removing g n" using gn by (simp_all add: gone_def)
  ultimately show "gone n a (set_proc g p (set_queue b q d s))" "gone n a (set_queue b q d s)"
    by (auto intro!: gone_frame [OF gn, of m])
qed

lemma gone_create:
  assumes ok: "reg_ok s" and gn: "gone n a s" and l: "rg_lock s = Unlocked" and t: "int64 (toMillis now)"
  shows "gone n a (reg_Create g name odr now s)"
proof (cases "ValidateName name \<noteq> None \<or> map_of (rg_queues s) name \<noteq> None")
  case True
  then show ?thesis using gn by (auto simp: reg_Create_def gone_def split: option.split)
next
  case False
  let ?c = "\<lparr>c_Name = name, c_Ordering = odr, c_CreatedAt = now\<rparr>"
  obtain res d where c: "createQueue ?c (rg_compactThreshold s) (rg_disk s) = (res, d)" by force
  have dok: "disk_ok (rg_disk s)" using ok by (simp add: reg_ok_def)
  have to: "touches {name} (rg_disk s) d" using createQueue_frame [OF c dok] by (intro touches_log) simp
  show ?thesis
  proof (cases "name = n")
    case True
    obtain f where f: "map_of (dents (rg_disk s)) (name @ logExt) = Some (DFile f)"
      using gn True by (auto simp: gone_def put_away_def stored_def)
    then obtain e where e: "res = Inl e" using createQueue_durable(10) [of ?c _ _ _ d] c dok t by (cases res) fastforce+
    have "only_names {} (rg_disk s) d" using createQueue_refused [OF c [unfolded e], of f] f by (intro only_names_quiet) (auto simp: dok)
    then have "put_away (rg_store s a) d" using gn put_away_frame by (auto simp: gone_def)
    then show ?thesis using False c e gn by (simp add: reg_Create_def gone_def)
  next
    case ne: False
    have "a \<noteq> rg_next s" using gn by (simp add: gone_def)
    moreover have "n \<notin> fst ` set (map_insert name (rg_next s) (rg_queues s))" using gn ne l by (auto simp: gone_def entries_def map_insert_def map_delete_def)
    moreover have "n \<notin> fst ` set (rg_queues s)" using gn l by (simp add: gone_def entries_def)
    ultimately show ?thesis using False c l ne to
      by (cases res) (auto simp: reg_Create_def entries_def intro!: gone_frame [OF gn, of name])
  qed
qed

lemma gone_leave:
  assumes ok: "reg_ok s" and gn: "gone n a s" and b: "(m, b) \<in> set (entries s)"
    and cl: "Close_finish storage_log (rg_store s b) (rg_disk s) = (err, q, d)"
    and s': "rg_store s' = (rg_store s)(b := q)" "rg_disk s' = d" "rg_next s' = rg_next s" "set (entries s') \<subseteq> set (entries s)"
      "rg_lock s' = Removing g m \<or> (\<forall>g k. rg_lock s' \<noteq> Removing g k)"
  shows "gone n a s'"
proof -
  have bo: "b \<in> opens s" using b unfolding opens_iff by blast
  then have "open_queue (rg_store s b) (rg_disk s)" by (rule reg_ok_open [OF ok])
  moreover have nm: "q_name (rg_store s b) = m" using reg_wf_entry(2) [of s m b] b ok by (simp add: reg_ok_def)
  ultimately have t: "touches {m} (rg_disk s) d" using finish_touches(1) [OF _ cl] by simp
  have m: "m \<noteq> n" using b gn by (force simp: gone_def)
  have "a \<noteq> b" using gone_closed [OF ok gn] bo by blast
  then show ?thesis using gn s' m t by (intro gone_frame [OF gn, of m]) (auto simp: gone_def)
qed

lemma gone_step:
  assumes "reg_step s s'" "reg_ok s" "gone n a s"
  shows "gone n a s'"
  using assms
proof (induction rule: reg_step.induct)
  case (create s g now name odr)
  then show ?case by (simp add: gone_create)
next
  case (work s g e body b env r q d)
  have b: "b < rg_next s" using work pointer_allocated [of s g _ b] by (simp add: reg_ok_def)
  show ?case
  proof (cases "b \<in> opens s")
    case True
    then have "open_queue (rg_store s b) (rg_disk s)" by (rule reg_ok_open [OF work.prems(1)])
    then show ?thesis using gone_section(1) [OF work.prems True] after_get_section [OF _ work.hyps(3,4)] by blast
  next
    case False
    then have "q_closed (rg_store s b)" using reg_ok_closed_elsewhere [OF work.prems(1) b] by blast
    then have "set_queue b q d s = s" using after_get_closed [OF _ work.hyps(3)] by simp
    then show ?thesis using work.prems(2) by (simp add: gone_def)
  qed
next
  case (poll s g vis wait dl b ctx now1 now2 rnd r q gn)
  have b: "b < rg_next s" using poll pointer_allocated [of s g _ b] by (simp add: reg_ok_def)
  show ?case
  proof (cases "q_closed (rg_store s b)")
    case True
    then have "q = rg_store s b" using poll.hyps(3) by (simp add: closed_refuses)
    then have "set_queue b q (rg_disk s) s = s" by simp
    then show ?thesis using poll.prems(2) by (simp add: gone_def)
  next
    case False
    then have o: "b \<in> opens s" by (rule reg_ok_closed_elsewhere [OF poll.prems(1) b])
    then have "open_queue (rg_store s b) (rg_disk s)" by (rule reg_ok_open [OF poll.prems(1)])
    then show ?thesis using gone_section(1) [OF poll.prems o] round_section [OF _ poll.hyps(3)] poll.hyps(4) False by (simp add: in_order_def)
  qed
next
  case (due b s now t q)
  have o: "b \<in> opens s" by (rule due_open [OF due.prems(1) due.hyps(1,2)])
  then have "open_queue (rg_store s b) (rg_disk s)" by (rule reg_ok_open [OF due.prems(1)])
  then show ?case using gone_section(2) [OF due.prems o] due_section [OF _ due.hyps(3)] by blast
next
  case (wake b s)
  have "put_away (Broadcast (rg_store s b)) d = put_away (rg_store s b) d" "q_name (Broadcast (rg_store s b)) = q_name (rg_store s b)" for d
    by (rule put_away_cong) (simp_all add: Broadcast_def all_live_of)
  then show ?case using wake.prems(2) by (auto simp: gone_def)
next
  case (delete s g name)
  then show ?case using delete.prems(2) map_of_SomeD [of "rg_queues s" name] opens_set_delete [of name "rg_queues s"]
    by (cases "map_of (rg_queues s) name") (force simp: reg_Delete_def gone_def entries_def map_delete_def)+
next
  case (del_close s g name b)
  have e: "(name, b) \<in> set (entries s)" using del_close.hyps by (simp add: entries_def)
  then have "b \<in> opens s" unfolding opens_iff by blast
  then have "a \<noteq> b" using gone_closed [OF del_close.prems] by blast
  then show ?case using del_close e by (auto simp: delete_close_def gone_def entries_def)
next
  case (del_finish s g name b)
  obtain err q d where c: "Close_finish storage_log (rg_store s b) (rg_disk s) = (err, q, d)" by (metis prod_cases3)
  have e: "(name, b) \<in> set (entries s)" using del_finish.hyps by (simp add: entries_def)
  show ?case by (rule gone_leave [OF del_finish.prems e c, where g = g])
      (use c del_finish.hyps in \<open>auto simp: delete_finish_def entries_def split: option.splits\<close>)
next
  case (del_remove s g name)
  obtain err d where r: "Remove name (rg_disk s) = (err, d)" by force
  have t: "touches {name} (rg_disk s) d" using only_names_delete [OF r] del_remove.prems(1) by (intro touches_log) (simp add: reg_ok_def)
  show ?case by (rule gone_frame [OF del_remove.prems(2), of name])
      (use r t del_remove in \<open>auto simp: delete_remove_def gone_def entries_def\<close>)
next
  case (shut_begin s name b)
  have e: "(name, b) \<in> set (entries s)" using map_of_SomeD [OF shut_begin.hyps(2)] by (simp add: entries_def)
  then have "b \<in> opens s" unfolding opens_iff by blast
  then have "a \<noteq> b" using gone_closed [OF shut_begin.prems] by blast
  then show ?case using shut_begin e by (auto simp: shut_close_def gone_def entries_def map_delete_def)
next
  case (shut_end s name b)
  obtain err q d where c: "Close_finish storage_log (rg_store s b) (rg_disk s) = (err, q, d)" by (metis prod_cases3)
  have e: "(name, b) \<in> set (entries s)" using shut_end.hyps shut_end.prems(1) by (simp add: reg_ok_def reg_wf_def entries_def)
  show ?case by (rule gone_leave [OF shut_end.prems e c])
      (use c shut_end.hyps in \<open>auto simp: shut_finish_def entries_def map_delete_def\<close>)
qed (auto simp: reg_Get_def reg_List_def gone_def entries_def)

text \<open>Once \<open>Manager.Close\<close> has the lock, every queue of the map stays registered until it has been put away.\<close>

fun shutting :: "holder \<Rightarrow> bool" where
  "shutting Shutting = True"
| "shutting (ShutDraining name a) = True"
| "shutting _ = False"

definition kept :: "string \<Rightarrow> addr \<Rightarrow> registry \<Rightarrow> bool" where
  "kept n a s \<longleftrightarrow> (n, a) \<in> set (rg_queues s) \<and> shutting (rg_lock s) \<or> gone n a s"

lemma kept_finish:
  assumes ok: "reg_ok s" and l: "rg_lock s = ShutDraining m b" and k: "(n, a) \<in> set (rg_queues s)"
  shows "kept n a (shut_finish m b s)"
proof (cases "n = m")
  case False
  then show ?thesis using k by (auto simp: kept_def shut_finish_def map_delete_def split: prod.splits)
next
  case True
  have e: "(m, b) \<in> set (entries s)" "(n, a) \<in> set (entries s)" using ok l k by (simp_all add: reg_ok_def reg_wf_def entries_def)
  have wf: "reg_wf s" using ok by (simp add: reg_ok_def)
  have ab: "a = b" using entries_unique [OF wf e] True by simp
  have "b \<in> opens s" using e(1) unfolding opens_iff by blast
  then have o: "open_queue (rg_store s b) (rg_disk s)" by (rule reg_ok_open [OF ok])
  obtain err q d where c: "Close_finish storage_log (rg_store s b) (rg_disk s) = (err, q, d)" by (metis prod_cases3)
  show ?thesis using finish_touches(2,3) [OF o c] reg_wf_entry(1,2) [OF wf e(1)] c ab True
    by (auto simp: kept_def gone_def shut_finish_def entries_def map_delete_def)
qed

lemma kept_step:
  assumes st: "reg_step s s'" and ok: "reg_ok s" and k: "kept n a s"
  shows "kept n a s'"
proof (cases "gone n a s")
  case True
  then show ?thesis using gone_step [OF st ok] by (simp add: kept_def)
next
  case False
  then have r: "(n, a) \<in> set (rg_queues s)" "shutting (rg_lock s)" using k by (auto simp: kept_def)
  show ?thesis using st r ok
  proof (induction rule: reg_step.induct)
    case (shut_begin s name b)
    have e: "(name, b) \<in> set (entries s)" using map_of_SomeD [OF shut_begin.hyps(2)] by (simp add: entries_def)
    then have "\<not> q_closed (rg_store s b)" using reg_wf_entry(3) [of s name b] shut_begin by (simp add: reg_ok_def)
    then show ?case using shut_begin by (simp add: kept_def shut_close_def)
  next
    case (shut_end s name b)
    then show ?case by (simp add: kept_finish)
  qed (auto simp: kept_def)
qed

lemma kept_runs: "reg_runs s s' \<Longrightarrow> reg_ok s \<Longrightarrow> kept n a s \<Longrightarrow> kept n a s'"
  by (induction rule: reg_runs.induct) (auto intro: kept_step reg_runs_ok)

section \<open>The registry seen by one request at a time\<close>

lemma abs_mgr_init: "abs_mgr (reg_init m d) = m"
proof -
  have "map (\<lambda>(n, a). (n, snd (m_queues m ! a))) (zip (map fst (m_queues m)) [0..<length (m_queues m)]) = m_queues m"
    by (rule nth_equalityI) simp_all
  then show ?thesis by (simp add: abs_mgr_def reg_init_def)
qed

lemma reg_init_ok:
  assumes "mgr_ok m d"
  shows "reg_ok (reg_init m d)"
proof -
  have e: "entries (reg_init m d) = zip (map fst (m_queues m)) [0..<length (m_queues m)]" by (simp add: entries_def reg_init_def)
  have q: "a < length (m_queues m) \<and> (n, snd (m_queues m ! a)) \<in> set (m_queues m)" if "(n, a) \<in> set (entries (reg_init m d))" for n a
    using that unfolding e set_zip by (auto simp: in_set_conv_nth)
  have "a \<in> opens (reg_init m d)" if "a < length (m_queues m)" for a
  proof -
    have "(fst (m_queues m ! a), a) \<in> set (entries (reg_init m d))" unfolding e set_zip using that by (auto intro!: exI [of _ a])
    then show ?thesis unfolding opens_iff by blast
  qed
  moreover have "q_name (snd (m_queues m ! a)) = n \<and> \<not> q_closed (snd (m_queues m ! a)) \<and> open_queue (snd (m_queues m ! a)) d"
    if "(n, a) \<in> set (entries (reg_init m d))" for n a
    using q [OF that] assms by (auto simp: mgr_ok_def open_queue_def)
  moreover have "distinct (map fst (entries (reg_init m d)))" "disk_ok d" using assms by (simp_all add: e mgr_ok_def)
  ultimately show ?thesis using q by (intro reg_okI) (simp_all add: reg_init_def)
qed

lemma abs_mgr_ok:
  assumes ok: "reg_ok s" and l: "\<And>n a. rg_lock s \<noteq> ShutDraining n a"
  shows "mgr_ok (abs_mgr s) (rg_disk s)"
proof -
  have wf: "reg_wf s" using ok by (simp add: reg_ok_def)
  have d: "distinct (map fst (rg_queues s))" using wf by (auto simp: reg_wf_def entries_def)
  have "ValidateName n = None \<and> q_name (rg_store s a) = n \<and> sound (rg_store s a) \<and> durable file_holds (rg_store s a) (rg_disk s)
      \<and> balanced (rg_store s a) \<and> \<not> q_closed (rg_store s a)" if "(n, a) \<in> set (rg_queues s)" for n a
  proof -
    have e: "(n, a) \<in> set (entries s)" using that by (simp add: entries_def)
    then have "a \<in> opens s" unfolding opens_iff by blast
    then have "open_queue (rg_store s a) (rg_disk s)" by (rule reg_ok_open [OF ok])
    moreover have "draining (rg_lock s) \<noteq> Some a"
    proof
      assume "draining (rg_lock s) = Some a"
      then obtain g n' where h: "rg_lock s = Draining g n' a" using l by (cases "rg_lock s") auto
      then have "(n', a) \<in> set (entries s)" "distinct (n' # map fst (rg_queues s))" using wf by (simp_all add: entries_def reg_wf_def)
      then show False using that entries_unique [OF wf e] by force
    qed
    ultimately show ?thesis using reg_wf_entry(2,3) [OF wf e] by (simp add: open_queue_def)
  qed
  then show ?thesis using d ok by (auto simp: mgr_ok_def abs_mgr_def reg_ok_def comp_def case_prod_beta)
qed

lemma abs_mgr_lookup: "map_of (m_queues (abs_mgr s)) n = map_option (rg_store s) (map_of (rg_queues s) n)"
  by (simp add: abs_mgr_def map_of_map)

lemma abs_mgr_put:
  assumes ok: "reg_ok s" and m: "map_of (rg_queues s) n = Some a"
  shows "abs_mgr (set_queue a q d s) = put_queue n q (abs_mgr s)"
proof -
  have wf: "reg_wf s" using ok by (simp add: reg_ok_def)
  have "n' = n \<longleftrightarrow> b = a" if "(n', b) \<in> set (rg_queues s)" for n' b
    using that map_of_SomeD [OF m] by (intro entries_unique [OF wf]) (simp_all add: entries_def)
  then show ?thesis by (auto simp: abs_mgr_def put_queue_def set_queue_def)
qed

section \<open>The lock is released\<close>

text \<open>How many steps the goroutine that has the registry's lock still takes.\<close>

fun lock_rank :: "holder \<Rightarrow> nat \<Rightarrow> nat" where
  "lock_rank Unlocked k = 0"
| "lock_rank (Removing g name) k = 1"
| "lock_rank (Draining g name a) k = 2"
| "lock_rank (Deleting g name a) k = 3"
| "lock_rank Shutting k = 2 * k + 1"
| "lock_rank (ShutDraining name a) k = 2 * k"

abbreviation "rank s \<equiv> lock_rank (rg_lock s) (length (rg_queues s))"

lemma shorter: "map_of qs n = Some a \<Longrightarrow> length (map_delete n qs) < length qs"
  unfolding map_delete_def by (rule length_filter_less [OF map_of_SomeD]) simp_all

lemma rank_shut:
  assumes "map_of (rg_queues s) n = Some a"
  shows "rg_lock s = Shutting \<Longrightarrow> rank (shut_close n a s) < rank s" "rg_lock s = ShutDraining n a \<Longrightarrow> rank (shut_finish n a s) < rank s"
  using shorter [OF assms] by (auto simp: shut_close_def shut_finish_def split: prod.splits)

lemma shut_lookup: "reg_ok s \<Longrightarrow> rg_lock s = ShutDraining n a \<Longrightarrow> map_of (rg_queues s) n = Some a"
  by (rule map_of_is_SomeI) (simp_all add: reg_ok_def reg_wf_def entries_def)

lemma rank_step:
  assumes "reg_step s s'" "reg_ok s" "rg_lock s \<noteq> Unlocked"
  shows "rank s' \<le> rank s"
  using assms
proof (induction rule: reg_step.induct)
  case (shut_begin s n a)
  then show ?case using rank_shut(1) [OF shut_begin.hyps(2,1)] by simp
next
  case (shut_end s n a)
  then show ?case using rank_shut(2) [OF shut_lookup [OF shut_end.prems(1) shut_end.hyps] shut_end.hyps] by simp
qed (auto simp: delete_close_def delete_finish_def delete_remove_def split: prod.split option.split)

lemma holder_moves:
  assumes ok: "reg_ok s" and l: "rg_lock s \<noteq> Unlocked"
  shows "\<exists>s'. reg_step s s' \<and> rank s' < rank s"
proof (cases "rg_lock s")
  case (Deleting g n a)
  show ?thesis by (rule exI, rule conjI, rule reg_step.del_close [OF Deleting]) (simp add: delete_close_def Deleting)
next
  case (Draining g n a)
  show ?thesis by (rule exI, rule conjI, rule reg_step.del_finish [OF Draining])
      (simp add: delete_finish_def Draining split: prod.split option.split)
next
  case (Removing g n)
  show ?thesis by (rule exI, rule conjI, rule reg_step.del_remove [OF Removing]) (simp add: delete_remove_def Removing split: prod.split)
next
  case (ShutDraining n a)
  show ?thesis by (rule exI, rule conjI, rule reg_step.shut_end [OF ShutDraining], rule rank_shut(2) [OF shut_lookup [OF ok ShutDraining] ShutDraining])
next
  case Shutting
  show ?thesis
  proof (cases "rg_queues s")
    case Nil
    show ?thesis by (rule exI, rule conjI, rule reg_step.shut_done [OF Shutting Nil]) (simp add: Shutting)
  next
    case (Cons p qs)
    obtain n a where p: "p = (n, a)" by force
    have m: "map_of (rg_queues s) n = Some a" using Cons p by simp
    show ?thesis by (rule exI, rule conjI, rule reg_step.shut_begin [OF Shutting m], rule rank_shut(1) [OF m Shutting])
  qed
qed (use l in simp)

lemma reg_runs_trans: "reg_runs s1 s2 \<Longrightarrow> reg_runs s s1 \<Longrightarrow> reg_runs s s2"
  by (induction rule: reg_runs.induct) (auto intro: reg_runs.step)

lemma released: "reg_ok s \<Longrightarrow> \<exists>s'. reg_runs s s' \<and> rg_lock s' = Unlocked"
proof (induction "rank s" arbitrary: s rule: less_induct)
  case less
  show ?case
  proof (cases "rg_lock s = Unlocked")
    case True
    then show ?thesis using reg_runs.refl by blast
  next
    case False
    then obtain s1 where s1: "reg_step s s1" "rank s1 < rank s" using holder_moves [OF less.prems] by blast
    then obtain s' where "reg_runs s1 s'" "rg_lock s' = Unlocked" using less.hyps [OF s1(2) reg_step_ok [OF s1(1) less.prems]] by blast
    then show ?thesis using reg_runs_trans [OF _ reg_runs.step [OF reg_runs.refl s1(1)]] by blast
  qed
qed

end
