(* ===== verification/Manager_Props.thy ===== *)
theory Manager_Props
  imports Manager_Run Queue_Props
begin

text \<open>
  The properties of the registry (\<open>internal/queue/manager.go\<close>): its invariant, start-up after a crash,
  creation, deletion, listing and shutdown.
\<close>

section \<open>A concrete registry\<close>

definition ex_mgr :: Manager where
  "ex_mgr = \<lparr>m_compactThreshold = 0, m_queues = []\<rparr>"

lemma ex_mgr_ok: "mgr_ok ex_mgr ex_dir"
  by (simp add: mgr_ok_def ex_mgr_def ex_dir_def disk_ok_def)

lemma runs_one:
  assumes "runs ls healthy q w [(x, out)] q' w'"
  shows "execute ls x q w = Some (out, q', w') \<and> fresh x q \<and> writable x q \<and> healthy (q_log q') w'"
  by (rule runs_snocE [of ls healthy q w "[]" x out q' w']) (use assms in \<open>auto elim: runs_nilE\<close>)

text \<open>The queue \<open>q\<close> is created and takes one message.\<close>

lemma ex_mgr_steps:
  obtains q0 d0 i q d where "Manager_Create ''q'' FIFO 0 ex_mgr ex_dir = (Inr q0, ex_mgr\<lparr>m_queues := [(''q'', q0)]\<rparr>, d0)"
    "Queue_Enqueue storage_log ''[1]'' 0 0 5 ex_rnd q0 d0 = (Inr i, q, d)" "fresh ex_send q0" "writable ex_send q0"
    "mgr_runs ex_mgr ex_dir (ex_mgr\<lparr>m_queues := [(''q'', q0)]\<rparr>) d0" "mgr_runs ex_mgr ex_dir (ex_mgr\<lparr>m_queues := [(''q'', q)]\<rparr>) d"
    "size (all_live q) = 1" "\<exists>x. view q Ready = {#x#}" "reliable d" "q_compactThreshold q = 0" "q_inflight q = []"
proof -
  obtain q0 d0 i q d where c: "createQueue ex_cfg 0 ex_dir = (Inr q0, d0)"
    and r: "runs storage_log file_healthy q0 d0 [(ex_send, Enqueued (Inr i))] q d" and v: "\<exists>m. view q Ready = {#m#}"
    and rel: "reliable d" "q_compactThreshold q = 0" "q_inflight q = []" by (rule ex_disk_run)
  have e: "execute storage_log ex_send q0 d0 = Some (Enqueued (Inr i), q, d)" "fresh ex_send q0" "writable ex_send q0" "file_healthy (q_log q) d"
    using runs_one [OF r] by auto
  have ok: "disk_ok ex_dir" "int64 (toMillis (c_CreatedAt ex_cfg))"
    by (simp_all add: disk_ok_def ex_dir_def int64_def toMillis_def ex_cfg_def)
  note q0 = createQueue_durable [OF c ok]
  have enq: "Queue_Enqueue storage_log ''[1]'' 0 0 5 ex_rnd q0 d0 = (Inr i, q, d)" using e(1) by (auto simp: ex_send_def split: prod.splits)
  have sz: "size (all_live q) = 1"
    using Enqueue_effect(2) [OF _ enq] q0 by (simp add: sound_def all_live_of all_of_def a_file_def)
  let ?created = "ex_mgr\<lparr>m_queues := [(''q'', q0)]\<rparr>" and ?m = "ex_mgr\<lparr>m_queues := [(''q'', q)]\<rparr>"
  have nm: "ValidateName ''q'' = None" by code_simp
  then have cr: "Manager_Create ''q'' FIFO 0 ex_mgr ex_dir = (Inr q0, ?created, d0)"
    using c by (simp add: Manager_Create_def ex_mgr_def ex_cfg_def map_insert_def map_delete_def)
  have r0: "mgr_runs ex_mgr ex_dir ?created d0" by (rule mgr_runs.create [OF mgr_runs.start cr]) (simp add: int64_def toMillis_def)
  have "on_queue ''q'' ex_send ?created d0 = Some (Inr (Enqueued (Inr i)), ?m, d)" using e(1) by (simp add: on_queue_def Manager_Get_def)
  then have r1: "mgr_runs ex_mgr ex_dir ?m d" by (rule mgr_runs.operate [OF r0]) (use e in \<open>auto split: if_splits\<close>)
  show ?thesis by (rule that [OF cr enq e(2,3) r0 r1 sz v rel])
qed

lemma ex_mgr_run:
  obtains q m d where "mgr_runs ex_mgr ex_dir m d" "m_queues m = [(''q'', q)]" "size (all_live q) = 1" "mgr_ok m d"
proof -
  obtain q d where r: "mgr_runs ex_mgr ex_dir (ex_mgr\<lparr>m_queues := [(''q'', q)]\<rparr>) d" and z: "size (all_live q) = 1" by (rule ex_mgr_steps)
  show ?thesis by (rule that [OF r _ z mgr_runs_ok [OF r ex_mgr_ok]]) simp
qed

text \<open>A crash image of it: the log of \<open>q\<close> with three zero bytes at its end, and the log of a queue \<open>r\<close>
  whose creation was interrupted before anything was written.\<close>

definition ex_crash :: "nat \<Rightarrow> disk \<Rightarrow> disk" where
  "ex_crash f d = (let es = [(''q.log'', DFile f), (''r.log'', DFile (next_ino d))];
                       c = (synced d)(f := synced d f @ [0, 0, 0], next_ino d := []) in
     \<lparr>dents = es, synced_dents = es, content = c, synced = c, next_ino = next_ino d + 1, faults = []\<rparr>)"

lemma ex_crash_ok:
  assumes m: "mgr_ok m d" "m_queues m = [(''q'', q)]"
  obtains f where "crashed_dir m d (\<lambda>_. [0, 0, 0]) (ex_crash f d)"
proof -
  have q: "durable file_holds q d" "q_name q = ''q''" using m by (auto simp: mgr_ok_def)
  obtain f where f: "map_of (dents d) (''q'' @ logExt) = Some (DFile f)" "map_of (synced_dents d) (''q'' @ logExt) = Some (DFile f)" "disk_ok d"
    using durable_entry [OF q(1)] unfolding q(2) by metis
  have lt: "f < next_ino d" using f(1,3) by (auto simp: disk_ok_def)
  have names: "n @ logExt = ''q.log'' \<longleftrightarrow> n = ''q''" "n @ logExt = ''r.log'' \<longleftrightarrow> n = ''r''" for n
    using append_same_eq [of n logExt "''q''"] append_same_eq [of n logExt "''r''"] by (simp_all add: logExt_def)
  let ?d = "ex_crash f d"
  have ok: "disk_ok ?d" "reliable ?d" using lt by (auto simp: disk_ok_def ex_crash_def Let_def reliable_def)
  have tail: "torn_tail [0, 0, 0]" by (simp add: torn_tail_def torn_zeros_def)
  have "crashed d ''q'' [0, 0, 0] ?d"
    using f lt ok by (simp add: crashed_def) (simp add: ex_crash_def Let_def logExt_def)
  then have s: "survivor m d (\<lambda>_. [0, 0, 0]) ''q'' ?d" using m(2) tail by (simp add: survivor_def)
  have "unborn ''r'' ?d" by (simp add: unborn_def ex_crash_def Let_def logExt_def fileHeaderSize_def)
  then have "leftover m d (\<lambda>_. [0, 0, 0]) ''r'' ?d" using m(2) by (simp add: leftover_def)
  then have "leftover m d (\<lambda>_. [0, 0, 0]) n ?d" if "map_of (dents ?d) (n @ logExt) = Some (DFile i)" for n i
    using that s names [of n] by (auto simp: ex_crash_def Let_def leftover_def split: if_splits)
  then show ?thesis using that [of f] ok s m(2) by (simp add: crashed_dir_def) (simp add: ex_crash_def Let_def)
qed

section \<open>Invariant and start-up\<close>

text \<open>Whatever sequence of creations, deletions and client operations runs on the registry, and
  whichever of them fail, every registered queue stays well-formed, open, under its own valid name, with
  a log on disk from which it can be recovered.\<close>

theorem registry_invariant:
  assumes "mgr_ok m d" "mgr_runs m d m' d'"
  shows "mgr_ok m' d'"
  by (rule mgr_runs_ok [OF assms(2,1)])

theorem registry_invariant_witness:
  "\<exists>m d q. mgr_runs ex_mgr ex_dir m d \<and> m_queues m = [(''q'', q)] \<and> size (all_live q) = 1 \<and> mgr_ok m d"
proof -
  obtain m d q where r: "mgr_runs ex_mgr ex_dir m d" "m_queues m = [(''q'', q)]" "size (all_live q) = 1" by (rule ex_mgr_run)
  then show ?thesis using registry_invariant [OF ex_mgr_ok r(1)] by blast
qed

text \<open>After any sequence of operations and a power failure, starting up brings back every
  registered queue with exactly its unacknowledged messages and counters, discards the logs of queues
  whose creation had been interrupted, and registers nothing else.\<close>

theorem restart_restores_all_queues:
  assumes "mgr_ok m d" "mgr_runs m d m1 d1" "crashed_dir m1 d1 tails d2"
  shows "\<exists>m' d'. NewManager thr now ts d2 = Some (Inr m', d') \<and> mgr_ok m' d'
    \<and> fst ` set (m_queues m') = fst ` set (m_queues m1)
    \<and> (\<forall>n q2. map_of (m_queues m') n = Some q2 \<longrightarrow> brought_back now m1 n q2)"
  using NewManager_restores [OF mgr_runs_ok [OF assms(2,1)] assms(3), of thr now ts] by blast

theorem restart_restores_all_queues_witness:
  "\<exists>m d f m' d' q2. mgr_runs ex_mgr ex_dir m d \<and> NewManager 0 (\<lambda>_. 9) (\<lambda>_. []) (ex_crash f d) = Some (Inr m', d')
     \<and> fst ` set (m_queues m') = {''q''} \<and> map_of (m_queues m') ''q'' = Some q2 \<and> size (all_live q2) = 1"
proof -
  obtain m d q where r: "mgr_runs ex_mgr ex_dir m d" "m_queues m = [(''q'', q)]" "size (all_live q) = 1" "mgr_ok m d" by (rule ex_mgr_run)
  obtain f where f: "crashed_dir m d (\<lambda>_. [0, 0, 0]) (ex_crash f d)" by (rule ex_crash_ok [OF r(4,2)])
  from restart_restores_all_queues [OF ex_mgr_ok r(1) f, of 0 "\<lambda>_. 9" "\<lambda>_. []"] obtain m' d' where
    m': "NewManager 0 (\<lambda>_. 9) (\<lambda>_. []) (ex_crash f d) = Some (Inr m', d')" "fst ` set (m_queues m') = {''q''}"
      "\<And>n q2. map_of (m_queues m') n = Some q2 \<Longrightarrow> brought_back (\<lambda>_. 9) m n q2" using r(2) by auto
  obtain q2 where q2: "map_of (m_queues m') ''q'' = Some q2"
    using m'(2) by (metis map_of_eq_None_iff not_Some_eq singletonI)
  have "restored 9 q q2" using m'(3) [OF q2] r(2) by (auto simp: brought_back_def)
  then have "size (all_live q2) = 1" using r(3) unfolding restored_def by (metis size_image_mset)
  then show ?thesis using r(1) m'(1,2) q2 by blast
qed

section \<open>Creation and deletion\<close>

lemma Create_refused:
  assumes "createQueue cfg thr d = (res, d')" "map_of (dents d) (c_Name cfg @ logExt) = Some (DFile f)"
  obtains e where "res = Inl e" "reliable d \<Longrightarrow> ValidateName (c_Name cfg) = None \<Longrightarrow> e = ErrExists"
    "dents d' = dents d \<and> synced_dents d' = synced_dents d \<and> content d' = content d \<and> synced d' = synced d"
proof -
  have "\<exists>e. res = Inl e"
    using assms by (auto simp: createQueue_def Create_def OpenExcl_def Let_def
        split: option.splits sum.splits prod.splits if_splits dest!: next_fault_effect)
  moreover have "res = Inl ErrExists" if "reliable d" "ValidateName (c_Name cfg) = None"
    using assms that by (auto simp: createQueue_def Create_def OpenExcl_def Let_def os_ErrExist_def)
  ultimately show ?thesis using that createQueue_refused [of cfg thr d _ d' f] assms by auto
qed

text \<open>C31: creating a queue never touches an existing log. If a file of the queue's name is there, whether
  or not the queue is registered, the creation is refused with everything unchanged; with \<open>ErrQueueExists\<close>
  if the queue is registered or nothing else goes wrong.\<close>

theorem create_never_overwrites:
  assumes "mgr_ok m d" "map_of (dents d) (name @ logExt) = Some (DFile f)" "Manager_Create name odr now m d = (res, m', d')"
  shows "\<exists>e. res = Inl e \<and> m' = m \<and> dents d' = dents d \<and> synced_dents d' = synced_dents d \<and> content d' = content d \<and> synced d' = synced d
    \<and> (map_of (m_queues m) name \<noteq> None \<or> ValidateName name = None \<and> reliable d \<longrightarrow> e = ErrQueueExists)"
proof (cases "ValidateName name \<noteq> None \<or> map_of (m_queues m) name \<noteq> None")
  case True
  then show ?thesis using assms(3) mgr_ok_queue(1) [OF assms(1), of name]
    by (auto simp: Manager_Create_def split: option.splits)
next
  case False
  let ?cfg = "\<lparr>c_Name = name, c_Ordering = odr, c_CreatedAt = now\<rparr>"
  obtain r where c: "createQueue ?cfg (m_compactThreshold m) d = (r, d')"
    using assms(3) False by (auto simp: Manager_Create_def split: option.splits sum.splits prod.splits)
  show ?thesis
    by (rule Create_refused [OF c, of f]) (use assms(2,3) c False in \<open>auto simp: Manager_Create_def\<close>)
qed

theorem create_never_overwrites_witness:
  "\<exists>m d m' d'. mgr_runs ex_mgr ex_dir m d \<and> Manager_Create ''q'' FIFO 7 m d = (Inl ErrQueueExists, m', d')
     \<and> m' = m \<and> content d' = content d"
proof -
  obtain m d q where r: "mgr_runs ex_mgr ex_dir m d" "m_queues m = [(''q'', q)]" "mgr_ok m d" by (rule ex_mgr_run)
  have q: "durable file_holds q d" "q_name q = ''q''" using r(2,3) by (auto simp: mgr_ok_def)
  obtain f where f: "map_of (dents d) (''q'' @ logExt) = Some (DFile f)" using durable_entry [OF q(1)] unfolding q(2) by metis
  obtain res m' d' where c: "Manager_Create ''q'' FIFO 7 m d = (res, m', d')" by (metis prod_cases3)
  from create_never_overwrites [OF r(3) f c] show ?thesis using r c by auto
qed

text \<open>C30: deletion ends, whatever fails. The queue is no longer registered and the other queues keep their
  state and their logs; if no error is reported, the log is gone from the directory, durably. A name that
  is not registered is reported, with nothing changed.\<close>

theorem delete_removes_queue:
  assumes "mgr_ok m d"
  shows "\<exists>err m' d'. Manager_Delete name ts m d = Some (err, m', d') \<and> mgr_ok m' d'
    \<and> Manager_Get name m' = Inl ErrQueueNotFound \<and> (\<forall>n. n \<noteq> name \<longrightarrow> Manager_Get n m' = Manager_Get n m)
    \<and> (err = None \<longrightarrow> map_of (dents d') (name @ logExt) = None \<and> synced_dents d' = dents d')
    \<and> (map_of (m_queues m) name = None \<longrightarrow> err = Some ErrQueueNotFound \<and> m' = m \<and> d' = d)"
  by (rule Manager_Delete_ok [OF assms, of name ts]) (simp add: Manager_Get_def)

theorem delete_removes_queue_witness:
  "\<exists>m d m' d' err. mgr_runs ex_mgr ex_dir m d \<and> map_of (m_queues m) ''q'' \<noteq> None
     \<and> Manager_Delete ''q'' [] m d = Some (err, m', d') \<and> Manager_Get ''q'' m' = Inl ErrQueueNotFound"
proof -
  obtain m d q where r: "mgr_runs ex_mgr ex_dir m d" "m_queues m = [(''q'', q)]" "mgr_ok m d" by (rule ex_mgr_run)
  from delete_removes_queue [OF r(3), of "''q''" "[]"] show ?thesis using r(1,2) by fastforce
qed

text \<open>C32: a deletion that fails while it closes the queue leaves the name stranded. The client is told of the error
  and the queue is gone from the registry, but its log is still there: the name cannot be created again, even
  when the disk works again, and the next start brings the queue back with all its messages.\<close>

theorem failed_delete_strands_queue:
  assumes ok: "mgr_ok m d" and q: "map_of (m_queues m) name = Some q" and cl: "Queue_Close storage_log ts q d = Some (Some e, q1, d1)"
  shows "\<exists>m'. Manager_Delete name ts m d = Some (Some e, m', d1) \<and> Manager_Get name m' = Inl ErrQueueNotFound
    \<and> fst (Manager_Create name odr now m' (d1\<lparr>faults := []\<rparr>)) = Inl ErrQueueExists
    \<and> (\<exists>q2 d2. openQueue name thr now' (d1\<lparr>faults := []\<rparr>) = (Inr q2, d2) \<and> restored now' q q2)"
proof -
  note qo = mgr_ok_queue [OF ok q]
  let ?m = "m\<lparr>m_queues := map_delete name (m_queues m)\<rparr>" and ?d = "d1\<lparr>faults := []\<rparr>"
  have del: "Manager_Delete name ts m d = Some (Some e, ?m, d1)" using q cl by (simp add: Manager_Delete_def)
  have none: "map_of (m_queues ?m) name = None" by (auto simp: map_of_eq_None_iff map_delete_def)
  have dok: "disk_ok d1" by (rule only_names_ok [OF Queue_Close_frame [OF qo(3,4) cl]])
  have pa: "put_away q d1" by (rule Queue_Close_put_away [OF qo(3,4,6) cl])
  obtain f where f: "map_of (dents d1) (name @ logExt) = Some (DFile f)" using pa qo(2) by (auto simp: put_away_def stored_def)
  let ?c = "\<lparr>c_Name = name, c_Ordering = odr, c_CreatedAt = now\<rparr>"
  obtain res d2 where c: "createQueue ?c (m_compactThreshold ?m) ?d = (res, d2)" by force
  have "res = Inl ErrExists" by (rule Create_refused [OF c, of f]) (use f qo(1) in \<open>auto simp: reliable_def\<close>)
  then have cr: "fst (Manager_Create name odr now ?m ?d) = Inl ErrQueueExists" using c none qo(1) by (simp add: Manager_Create_def)
  have "\<exists>q2 d2. openQueue name thr now' ?d = (Inr q2, d2) \<and> restored now' q q2" using reopens [OF dok pa, of thr now'] qo(2) by simp
  then show ?thesis using del cr none by (auto simp: Manager_Get_def)
qed

text \<open>The log of \<open>q\<close> cannot be synced when it is closed.\<close>

theorem failed_delete_strands_queue_witness:
  "\<exists>m d m' d1 e. mgr_ok m d \<and> Manager_Delete ''q'' [] m d = Some (Some e, m', d1) \<and> Manager_Get ''q'' m' = Inl ErrQueueNotFound
     \<and> fst (Manager_Create ''q'' FIFO 9 m' (d1\<lparr>faults := []\<rparr>)) = Inl ErrQueueExists"
proof -
  obtain q d where r: "mgr_runs ex_mgr ex_dir (ex_mgr\<lparr>m_queues := [(''q'', q)]\<rparr>) d" and th: "q_compactThreshold q = 0" by (rule ex_mgr_steps)
  let ?m = "ex_mgr\<lparr>m_queues := [(''q'', q)]\<rparr>" and ?d = "d\<lparr>faults := [Fail 0]\<rparr>"
  have ok0: "mgr_ok ?m d" by (rule mgr_runs_ok [OF r ex_mgr_ok])
  have fr: "only_names {} d ?d" by (rule only_names_quiet) (use ok0 in \<open>simp_all add: mgr_ok_def\<close>)
  have ok: "mgr_ok ?m ?d" using mgr_frame [OF ok0 fr] ok0 only_names_ok [OF fr] by (auto simp: mgr_ok_def)
  have q: "map_of (m_queues ?m) ''q'' = Some q" by simp
  obtain f where "l_f (q_log q) = Some f" using mgr_ok_queue(4) [OF ok0 q]
    by (auto simp: durable_def file_holds_def log_holds_def split: option.splits)
  then have "\<exists>e q1 d1. Queue_Close storage_log [] q ?d = Some (Some e, q1, d1)"
    using mgr_ok_queue(6) [OF ok0 q] th
    by (auto simp: Queue_Close_def Close_finish_def Close_begin_def Broadcast_def storage_log_def Log_Close_def FSync_def FClose_def next_fault_def
        split: prod.splits)
  then obtain e q1 d1 where cl: "Queue_Close storage_log [] q ?d = Some (Some e, q1, d1)" by blast
  from failed_delete_strands_queue [OF ok q cl, of FIFO 9 0 9] ok show ?thesis by blast
qed

section \<open>Listing and shutdown\<close>

text \<open>The listing does not depend on the order in which the map is iterated nor on the sorting
  algorithm: it is the one arrangement of the registered queues in which the names strictly increase.\<close>

theorem list_is_unique_sorted_arrangement:
  assumes "mgr_ok m d"
  shows "Manager_List m = xs \<longleftrightarrow> mset xs = mset (map snd (m_queues m)) \<and> sorted_wrt (<) (map q_name xs)"
proof
  let ?qs = "map snd (m_queues m)"
  have dist: "distinct (map q_name (sort_key q_name ?qs))"
    using mgr_ok_names(2) [OF assms] by (metis mset_map mset_sort mset_eq_imp_distinct_iff)
  {
    assume "Manager_List m = xs"
    then show "mset xs = mset ?qs \<and> sorted_wrt (<) (map q_name xs)"
      using dist by (auto simp: Manager_List_def strict_sorted_iff)
  next
    assume xs: "mset xs = mset ?qs \<and> sorted_wrt (<) (map q_name xs)"
    then show "Manager_List m = xs"
      unfolding Manager_List_def by (intro sorted_unique [where f = q_name] dist) (simp_all add: strict_sorted_iff)
  }
qed

theorem list_is_unique_sorted_arrangement_witness:
  "\<exists>m d q. mgr_runs ex_mgr ex_dir m d \<and> m_queues m = [(''q'', q)] \<and> Manager_List m = [q]"
proof -
  obtain m d q where r: "mgr_runs ex_mgr ex_dir m d" "m_queues m = [(''q'', q)]" "mgr_ok m d" by (rule ex_mgr_run)
  then show ?thesis using list_is_unique_sorted_arrangement [OF r(3), of "[q]"] by auto
qed

text \<open>An orderly shutdown ends, whatever fails on the way, closes every queue, and leaves files from
  which every one of them opens again with its unacknowledged messages and counters.\<close>

theorem shutdown_preserves_all_queues:
  assumes "mgr_ok m d"
  shows "\<exists>err m' d'. Manager_Close ts m d = Some (err, m', d') \<and> m_queues m' = []
    \<and> (\<forall>n q. map_of (m_queues m) n = Some q \<longrightarrow>
         (\<exists>q2 d2. openQueue n thr now (d'\<lparr>faults := []\<rparr>) = (Inr q2, d2) \<and> restored now q q2))"
proof -
  obtain err m' d' where c: "Manager_Close ts m d = Some (err, m', d')" "m_queues m' = []" "disk_ok d'"
    "\<And>n q. map_of (m_queues m) n = Some q \<Longrightarrow> put_away q d'" by (rule Manager_Close_ok [OF assms, of ts]) blast
  have "\<exists>q2 d2. openQueue n thr now (d'\<lparr>faults := []\<rparr>) = (Inr q2, d2) \<and> restored now q q2" if n: "map_of (m_queues m) n = Some q" for n q
  proof -
    have "only_names {} d' (d'\<lparr>faults := []\<rparr>)" by (rule only_names_quiet) (use c(3) in simp_all)
    then have "put_away q (d'\<lparr>faults := []\<rparr>)" using put_away_frame [OF c(4) [OF n]] by blast
    moreover have "reliable (d'\<lparr>faults := []\<rparr>)" by (simp add: reliable_def)
    ultimately obtain q2 d2 where "openQueue (q_name q) thr now (d'\<lparr>faults := []\<rparr>) = (Inr q2, d2)" "restored now q q2"
      by (rule put_away_opens)
    then show ?thesis using mgr_ok_queue(2) [OF assms n] by auto
  qed
  then show ?thesis using c(1,2) by blast
qed

theorem shutdown_preserves_all_queues_witness:
  "\<exists>m d err m' d' q2 d2. mgr_runs ex_mgr ex_dir m d \<and> Manager_Close (\<lambda>_. []) m d = Some (err, m', d')
     \<and> openQueue ''q'' 0 9 (d'\<lparr>faults := []\<rparr>) = (Inr q2, d2) \<and> size (all_live q2) = 1"
proof -
  obtain m d q where r: "mgr_runs ex_mgr ex_dir m d" "m_queues m = [(''q'', q)]" "size (all_live q) = 1" "mgr_ok m d" by (rule ex_mgr_run)
  from shutdown_preserves_all_queues [OF r(4), of "\<lambda>_. []" 0 9] r(2) obtain err m' d' q2 d2 where
    c: "Manager_Close (\<lambda>_. []) m d = Some (err, m', d')" "openQueue ''q'' 0 9 (d'\<lparr>faults := []\<rparr>) = (Inr q2, d2)" "restored 9 q q2" by force
  have "size (all_live q2) = 1" using c(3) r(3) unfolding restored_def by (metis size_image_mset)
  then show ?thesis using r(1) c(1,2) by blast
qed

end
