(* ===== verification/Api_Props.thy ===== *)
theory Api_Props
  imports Api_Inv Manager_Props
begin

text \<open>
  The properties of the HTTP surface (\<open>internal/api\<close>), end to end where they can be: what a client has been
  told survives a crash, what is refused has no effect, and every request is answered.
\<close>

section \<open>Concrete requests\<close>

text \<open>Bodies within the size limit.\<close>

definition decode_text :: "(string \<Rightarrow> string \<Rightarrow> 'r \<Rightarrow> 'r result) \<Rightarrow> string list \<Rightarrow> 'r \<Rightarrow> string \<Rightarrow> decode_err + 'r" where
  "decode_text step names zero body =
     (case parse_value (Suc (length body)) body of
        None \<Rightarrow> if skip_ws body = [] then Inr zero else Inl Malformed
      | Some (j, rest) \<Rightarrow>
          if json_depth j > maxNestingDepth then Inl Malformed
          else (case unmarshal_members (take (length body - length rest) body) of
              Inl _ \<Rightarrow> Inl Malformed
            | Inr ms \<Rightarrow> (case fold_fields step names ms zero of Inl _ \<Rightarrow> Inl Malformed | Inr x \<Rightarrow> Inr x)))"

lemma Decode_small: "length body \<le> MaxRecordSize \<Longrightarrow> Decode step names zero body = decode_text step names zero body"
  unfolding Decode_def decode_text_def by (cases "parse_value (Suc (length body)) body") (auto simp del: parse_value.simps)

lemma small: "length body \<le> 1000 \<Longrightarrow> length body \<le> MaxRecordSize"
  by (simp add: MaxRecordSize_def)

definition ex_env :: env where
  "ex_env = \<lparr>en_now = 5, en_pop = 6, en_check = 6, en_rnd = ex_rnd, en_ctx = None, en_gone = False, en_id = 0, en_ts = []\<rparr>"

definition ex_quoted :: "string \<Rightarrow> string" where
  "ex_quoted s = dquote # s @ [dquote]"

definition ex_send_body :: string where
  "ex_send_body = ''{'' @ ex_quoted ''body'' @ '': [1]}''"

lemma ex_send_args: "send_args ex_send_body = Inr (''[1]'', 0, 0)"
proof -
  have "decode_text send_field [''body'', ''priority'', ''delay_seconds'']
      \<lparr>sd_Body = '''', sd_Priority = None, sd_DelaySeconds = None\<rparr> ex_send_body
    = Inr \<lparr>sd_Body = ''[1]'', sd_Priority = None, sd_DelaySeconds = None\<rparr>" by code_simp
  moreover have "length ex_send_body \<le> 1000" by code_simp
  ultimately show ?thesis by (simp add: send_args_def decodeBody_def Decode_small small seconds_def)
qed

definition ex_receipt_text :: string where
  "ex_receipt_text = ''07070707070707070707070707070707''"

definition ex_ack_body :: string where
  "ex_ack_body = ''{'' @ ex_quoted ''receipt'' @ '':'' @ ex_quoted ex_receipt_text @ ''}''"

lemma ex_newReceipt: "newReceipt ex_rnd = Inr ex_receipt_text"
  by code_simp

lemma ex_ack_args: "ack_args ex_ack_body = Inr ex_receipt_text"
proof -
  have "decode_text ack_req_field [''receipt''] \<lparr>ak_Receipt = ''''\<rparr> ex_ack_body = Inr \<lparr>ak_Receipt = ex_receipt_text\<rparr>" by code_simp
  moreover have "length ex_ack_body \<le> 1000" "ex_receipt_text \<noteq> ''''" by code_simp+
  ultimately show ?thesis by (simp add: ack_args_def decodeBody_def Decode_small small)
qed

section \<open>Requests\<close>

definition req_send :: "string \<Rightarrow> string \<Rightarrow> request" where
  "req_send name body = \<lparr>rq_method = POST, rq_path = [''queues'', name, ''messages''], rq_body = body\<rparr>"

definition req_ack :: "string \<Rightarrow> string \<Rightarrow> request" where
  "req_ack name body = \<lparr>rq_method = POST, rq_path = [''queues'', name, ''ack''], rq_body = body\<rparr>"

lemma serve_send: "name \<noteq> [] \<Longrightarrow> serve web env (req_send name body) m d = h_sendMessage env name body m d"
  by (simp add: serve_def Let_def route_def routes_def req_send_def meth_matches_def)

lemma serve_ack: "name \<noteq> [] \<Longrightarrow> serve web env (req_ack name body) m d = h_ack name body m d"
  by (simp add: serve_def Let_def route_def routes_def req_ack_def meth_matches_def)

lemma registered_name: "mgr_ok m d \<Longrightarrow> map_of (m_queues m) name = Some q \<Longrightarrow> name \<noteq> []"
  using mgr_ok_queue(1) [of m d name q] by (auto simp: ValidateName_def)

lemma served_ok:
  assumes "mgr_ok m d" "admissible env req m" "serve web env req m d = Some (rep, m', d')" "all_healthy m' d'"
  shows "mgr_ok m' d'"
  using serve_ok [OF assms(1,2), of web] assms(3,4) by auto

lemma restarted:
  assumes "mgr_ok m d" "crashed_dir m d tails d2" "map_of (m_queues m) name = Some q"
  obtains m2 d3 q2 where "NewManager thr now ts d2 = Some (Inr m2, d3)" "map_of (m_queues m2) name = Some q2" "restored (now name) q q2"
proof -
  obtain m2 d3 where n: "NewManager thr now ts d2 = Some (Inr m2, d3)" "fst ` set (m_queues m2) = fst ` set (m_queues m)"
      "\<And>n q2. map_of (m_queues m2) n = Some q2 \<Longrightarrow> brought_back now m n q2"
    using NewManager_restores [OF assms(1,2), of thr now ts] by blast
  have "name \<in> fst ` set (m_queues m2)" using n(2) map_of_SomeD [OF assms(3)] by force
  then obtain q2 where q2: "map_of (m_queues m2) name = Some q2" by (metis map_of_eq_None_iff not_Some_eq)
  then have "restored (now name) q q2" using n(3) [OF q2] assms(3) by (auto simp: brought_back_def)
  then show ?thesis using that n(1) q2 by blast
qed

lemma durable_ids:
  assumes "durable file_holds q d"
  shows "count (image_mset ID (all_live q)) i \<le> 1"
proof -
  obtain s where s: "matches s q" using assms by (auto simp: durable_def recovers_def)
  have "map fst (rv_live s) = map ID (map snd (rv_live s))" using s by (auto simp: matches_def)
  then have "mset (map fst (rv_live s)) = image_mset ID (image_mset persisted (all_live q))"
    using s by (metis matches_def mset_map)
  then have "mset (map fst (rv_live s)) = image_mset ID (all_live q)" by (simp add: image_mset.compositionality comp_def)
  moreover have "distinct (map fst (rv_live s))" using s by (simp add: matches_def)
  ultimately show ?thesis by (metis distinct_count_atmost_1 le_refl zero_le)
qed

lemma restored_ids:
  assumes "restored now q q2"
  shows "image_mset ID (all_live q2) = image_mset ID (all_live q)"
proof -
  have "image_mset ID (image_mset persisted (all_live q2)) = image_mset ID (image_mset persisted (all_live q))"
    using assms by (simp add: restored_def)
  then show ?thesis by (simp add: image_mset.compositionality comp_def)
qed

section \<open>What a client has been told\<close>

text \<open>C4: a message accepted with 201 survives a power failure. When the server starts again, the queue is
  there and holds a message with the identifier the client was given, the priority it asked for and the
  body it sent, up to insignificant white space and escaping.\<close>

theorem accepted_message_survives_crash:
  assumes "mgr_ok m d" "admissible env (req_send name body) m" "map_of (m_queues m) name = Some q"
    and "serve web env (req_send name body) m d = Some (Reply r, m', d')" "rs_status r = StatusCreated"
    and "all_healthy m' d'" "crashed_dir m' d' tails d2"
  shows "\<exists>msg prio delay i m2 d3 q2 x. send_args body = Inr (msg, prio, delay) \<and> rs_payload r = PFields [(''message_id'', i)]
    \<and> NewManager thr now ts d2 = Some (Inr m2, d3) \<and> map_of (m_queues m2) name = Some q2
    \<and> x \<in># all_live q2 \<and> ID x = i \<and> Priority x = prio \<and> compact_body (Body x) = compact_body msg"
proof -
  have ok': "mgr_ok m' d'" by (rule served_ok [OF assms(1,2,4,6)])
  have "h_sendMessage env name body m d = Some (Reply r, m', d')"
    using assms(4) serve_send [OF registered_name [OF assms(1,3)]] by simp
  then obtain msg prio delay i q1 where a: "send_args body = Inr (msg, prio, delay)"
      and e: "Queue_Enqueue storage_log msg prio delay (en_now env) (en_rnd env) q d = (Inr i, q1, d')"
      and m': "m' = put_queue name q1 m" and p: "rs_payload r = PFields [(''message_id'', i)]"
    using assms(3,5) by (auto simp: h_sendMessage_def Manager_Get_def writeJSON_def writeError_def badRequest_def send_args_def decodeBody_def
        writeEngineError_def split: sum.splits prod.splits if_splits decode_err.splits)
  obtain m2 d3 q2 where n: "NewManager thr now ts d2 = Some (Inr m2, d3)" "map_of (m_queues m2) name = Some q2" "restored (now name) q1 q2"
    by (rule restarted [OF ok' assms(7)]) (use put_queue_lookup [OF assms(3)] m' in auto)
  have inv: "queue_inv q" using mgr_ok_queue(3) [OF assms(1,3)] by (simp add: sound_def)
  let ?new = "new_message i (q_nextSeq q) prio msg (en_now env) (en_now env + delay)"
  let ?y = "?new\<lparr>MState := if delay > 0 then StateDelayed else StateReady\<rparr>"
  have "?y \<in># all_live q1" unfolding all_live_def Enqueue_effect(2) [OF inv e] by (simp add: a_file_def)
  then have "persisted ?y \<in># image_mset persisted (all_live q1)" unfolding set_image_mset by (rule imageI)
  then have "persisted ?new \<in># image_mset persisted (all_live q2)" using n(3) by (simp add: restored_def persisted_def)
  then obtain x where x: "x \<in># all_live q2" "persisted x = persisted ?new" by auto
  have "ID x = i \<and> Priority x = prio \<and> compact_body (Body x) = compact_body msg"
    using x(2) by (simp add: persisted_def new_message_def)
  then show ?thesis using a p n(1,2) x(1) by blast
qed

text \<open>C7: a message whose acknowledgement was answered with 200 never comes back: after a power failure and
  a restart no message of the queue has its identifier.\<close>

theorem acknowledged_message_stays_gone:
  assumes "mgr_ok m d" "admissible env (req_ack name body) m" "map_of (m_queues m) name = Some q"
    and "serve web env (req_ack name body) m d = Some (Reply r, m', d')" "rs_status r = StatusOK"
    and "all_healthy m' d'" "crashed_dir m' d' tails d2"
  shows "\<exists>receipt x m2 d3 q2. ack_args body = Inr receipt \<and> x \<in># view q Expiry \<and> Receipt x = receipt
    \<and> NewManager thr now ts d2 = Some (Inr m2, d3) \<and> map_of (m_queues m2) name = Some q2 \<and> (\<forall>y \<in># all_live q2. ID y \<noteq> ID x)"
proof -
  have ok': "mgr_ok m' d'" by (rule served_ok [OF assms(1,2,4,6)])
  have "h_ack name body m d = Some (Reply r, m', d')"
    using assms(4) serve_ack [OF registered_name [OF assms(1,3)]] by simp
  then obtain receipt q1 where a: "ack_args body = Inr receipt" and e: "Queue_Ack storage_log receipt q d = Some (None, q1, d')"
      and m': "m' = put_queue name q1 m"
    using assms(3,5) by (auto simp: h_ack_def Manager_Get_def writeJSON_def writeError_def ack_args_def decodeBody_def
        writeEngineError_def split: sum.splits prod.splits if_splits decode_err.splits option.splits)
  obtain m2 d3 q2 where n: "NewManager thr now ts d2 = Some (Inr m2, d3)" "map_of (m_queues m2) name = Some q2" "restored (now name) q1 q2"
    by (rule restarted [OF ok' assms(7)]) (use put_queue_lookup [OF assms(3)] m' in auto)
  note qo = mgr_ok_queue [OF assms(1,3)]
  have inv: "queue_inv q" using qo(3) by (simp add: sound_def)
  obtain x where x: "x \<in># view q Expiry" "Receipt x = receipt" "view q1 = (view q)(Expiry := view q Expiry - {#x#})"
    by (rule Ack_effect [OF inv e])
  have live: "all_live q = add_mset x (all_live q1)" unfolding all_live_def x(3) using x(1) by simp
  have "count (image_mset ID (all_live q1)) (ID x) = 0" using durable_ids [OF qo(4), of "ID x"] unfolding live by simp
  then have "ID x \<notin># image_mset ID (all_live q2)" unfolding restored_ids [OF n(3)] by (metis count_eq_zero_iff)
  then have "\<forall>y \<in># all_live q2. ID y \<noteq> ID x" unfolding set_image_mset by (metis image_eqI)
  then show ?thesis using a x(1,2) n(1,2) by blast
qed

section \<open>Witnesses\<close>

lemma healthy_ok: "mgr_ok m d \<Longrightarrow> all_healthy m d"
  using mgr_ok_queue(4) file_healthy_durable by (auto simp: all_healthy_def)

theorem accepted_message_survives_crash_witness:
  "\<exists>m d m' d' r f m2 d3 q2. mgr_runs ex_mgr ex_dir m d
     \<and> serve None ex_env (req_send ''q'' ex_send_body) m d = Some (Reply r, m', d') \<and> rs_status r = StatusCreated
     \<and> NewManager 0 (\<lambda>_. 9) (\<lambda>_. []) (ex_crash f d') = Some (Inr m2, d3)
     \<and> map_of (m_queues m2) ''q'' = Some q2 \<and> all_live q2 \<noteq> {#}"
proof -
  obtain q0 d0 i q d where c: "Manager_Create ''q'' FIFO 0 ex_mgr ex_dir = (Inr q0, ex_mgr\<lparr>m_queues := [(''q'', q0)]\<rparr>, d0)"
    and e: "Queue_Enqueue storage_log ''[1]'' 0 0 5 ex_rnd q0 d0 = (Inr i, q, d)" "fresh ex_send q0" "writable ex_send q0"
    and r: "mgr_runs ex_mgr ex_dir (ex_mgr\<lparr>m_queues := [(''q'', q0)]\<rparr>) d0" "mgr_runs ex_mgr ex_dir (ex_mgr\<lparr>m_queues := [(''q'', q)]\<rparr>) d"
    by (rule ex_mgr_steps)
  let ?m = "ex_mgr\<lparr>m_queues := [(''q'', q0)]\<rparr>" and ?n = "ex_mgr\<lparr>m_queues := [(''q'', q)]\<rparr>"
  have ok: "mgr_ok ?m d0" "mgr_ok ?n d" using mgr_runs_ok [OF _ ex_mgr_ok] r by auto
  have s: "serve None ex_env (req_send ''q'' ex_send_body) ?m d0 = Some (Reply (writeJSON StatusCreated (PFields [(''message_id'', i)])), ?n, d)"
    using e(1) by (simp add: serve_send h_sendMessage_def Manager_Get_def ex_send_args ex_env_def put_queue_def)
  have a: "admissible ex_env (req_send ''q'' ex_send_body) ?m"
    using e(2,3) by (auto simp: admissible_def req_send_def route_def routes_def meth_matches_def ex_send_args ex_env_def ex_send_def
        int64_def toMillis_def split: if_splits)
  obtain f where f: "crashed_dir ?n d (\<lambda>_. [0, 0, 0]) (ex_crash f d)" by (rule ex_crash_ok [OF ok(2)]) simp_all
  have "\<exists>msg prio delay j m2 d3 q2 x. send_args ex_send_body = Inr (msg, prio, delay)
    \<and> rs_payload (writeJSON StatusCreated (PFields [(''message_id'', i)])) = PFields [(''message_id'', j)]
    \<and> NewManager 0 (\<lambda>_. 9) (\<lambda>_. []) (ex_crash f d) = Some (Inr m2, d3) \<and> map_of (m_queues m2) ''q'' = Some q2
    \<and> x \<in># all_live q2 \<and> ID x = j \<and> Priority x = prio \<and> compact_body (Body x) = compact_body msg"
    by (rule accepted_message_survives_crash [OF ok(1) a _ s _ healthy_ok [OF ok(2)] f]) (simp_all add: writeJSON_def)
  then obtain m2 d3 q2 x where "NewManager 0 (\<lambda>_. 9) (\<lambda>_. []) (ex_crash f d) = Some (Inr m2, d3)" "map_of (m_queues m2) ''q'' = Some q2"
      "x \<in># all_live q2" by blast
  moreover from this(3) have "all_live q2 \<noteq> {#}" by auto
  moreover have "rs_status (writeJSON StatusCreated (PFields [(''message_id'', i)])) = StatusCreated" by (simp add: writeJSON_def)
  ultimately show ?thesis using r(1) s by blast
qed

text \<open>The message of the example is delivered, over the disk.\<close>

lemma popReady_threshold: "popReady vis now rnd q = Some (res, q') \<Longrightarrow> q_compactThreshold q' = q_compactThreshold q"
  by (auto simp: popReady_def pop_def Let_def split: if_splits sum.splits option.splits)

lemma ex_disk_held:
  obtains q d x where "mgr_ok (ex_mgr\<lparr>m_queues := [(''q'', q)]\<rparr>) d" "view q = (\<lambda>_. {#})(Expiry := {#x#})" "Receipt x = ex_receipt_text"
    "reliable d" "q_compactThreshold q = 0" "map_of (q_inflight q) ex_receipt_text \<noteq> None"
    "newID ex_rnd = Inr (ID x)"
proof -
  obtain q0 d0 i q d where e: "Queue_Enqueue storage_log ''[1]'' 0 0 5 ex_rnd q0 d0 = (Inr i, q, d)"
    and r0: "mgr_runs ex_mgr ex_dir (ex_mgr\<lparr>m_queues := [(''q'', q0)]\<rparr>) d0" and r: "mgr_runs ex_mgr ex_dir (ex_mgr\<lparr>m_queues := [(''q'', q)]\<rparr>) d" "size (all_live q) = 1" "\<exists>x. view q Ready = {#x#}" "reliable d"
    "q_compactThreshold q = 0" "q_inflight q = []" by (rule ex_mgr_steps)
  let ?m = "ex_mgr\<lparr>m_queues := [(''q'', q)]\<rparr>"
  have ok: "mgr_ok ?m d" using mgr_runs_ok [OF r(1) ex_mgr_ok] .
  have q: "map_of (m_queues ?m) ''q'' = Some q" by simp
  note qo = mgr_ok_queue [OF ok q]
  have inv: "queue_inv q" using qo(3) by (simp add: sound_def)
  have ok0: "mgr_ok (ex_mgr\<lparr>m_queues := [(''q'', q0)]\<rparr>) d0" using mgr_runs_ok [OF r0 ex_mgr_ok] .
  have "queue_inv q0" using mgr_ok_queue(3) [OF ok0, of "''q''" q0] by (simp add: sound_def)
  note en = Enqueue_effect [OF this e]
  have ids: "newID ex_rnd = Inr (ID y)" if "view q Ready = {#y#}" for y
  proof -
    have "new_message i (q_nextSeq q0) 0 ''[1]'' 5 (5 + 0)\<lparr>MState := StateReady\<rparr> \<in># view q Ready" unfolding en(2) by (simp add: a_file_def)
    then show ?thesis using that en(11) by (auto simp: new_message_def)
  qed
  have ne: "addrs Ready q \<noteq> []" using r(3) by (auto simp: view_def)
  obtain q' x where p: "popReady 10 6 ex_rnd q = Some (Inr (Some (delivery (a_deliver ex_receipt_text (6 + 10) x))), q')"
      "x \<in># view q Ready" "view q' = (view q)(Ready := view q Ready - {#x#}, Expiry := add_mset (a_deliver ex_receipt_text (6 + 10) x) (view q Expiry))"
      "map_of (q_inflight q') ex_receipt_text \<noteq> None" "q_log q' = q_log q"
    by (rule popReady_effect [OF inv ne ex_newReceipt, of 10 6]) (use r(6) in auto)
  have "execute storage_log (OReceive 10 6 ex_rnd) q d = Some (Received (Inr (Some (delivery (a_deliver ex_receipt_text (6 + 10) x)))), q', d)"
    using p(1) qo(6) by (simp add: receive_round_def)
  then have "on_queue ''q'' (OReceive 10 6 ex_rnd) ?m d = Some (Inr (Received (Inr (Some (delivery (a_deliver ex_receipt_text (6 + 10) x))))), put_queue ''q'' q' ?m, d)"
    by (rule on_queue_execute [OF q])
  then have "mgr_ok (put_queue ''q'' q' ?m) d"
    by (rule conjunct1 [OF on_queue_ok [OF ok]])
      (use r(6) p(5) file_healthy_durable [OF qo(4)] in \<open>auto simp: put_queue_def split: sum.splits if_splits\<close>)
  then have ok': "mgr_ok (ex_mgr\<lparr>m_queues := [(''q'', q')]\<rparr>) d" by (simp add: put_queue_def)
  have "length (addrs Ready q) = 1" using r(3) by (metis size_single size_view)
  then have "addrs Delayed q = []" "addrs Expiry q = []" using r(2) by (simp_all add: all_live_def)
  then have "view q Delayed = {#}" "view q Expiry = {#}" by (simp_all add: view_def)
  then have "view q' = (\<lambda>_. {#})(Expiry := {#a_deliver ex_receipt_text (6 + 10) x#})"
    using p(2,3) r(3) by (auto simp: fun_eq_iff) (metis which.exhaust)
  then show ?thesis by (rule that [OF ok']) (use p(2,4) r(3,4,5) popReady_threshold [OF p(1)] ids in \<open>auto simp: a_deliver_def\<close>)
qed

lemma ex_acked:
  obtains q q' d d' x where "mgr_ok (ex_mgr\<lparr>m_queues := [(''q'', q)]\<rparr>) d" "view q = (\<lambda>_. {#})(Expiry := {#x#})"
    "Queue_Ack storage_log ex_receipt_text q d = Some (None, q', d')" "file_healthy (q_log q') d'"
proof -
  obtain q d x where h: "mgr_ok (ex_mgr\<lparr>m_queues := [(''q'', q)]\<rparr>) d" "view q = (\<lambda>_. {#})(Expiry := {#x#})" "reliable d"
    "q_compactThreshold q = 0" "map_of (q_inflight q) ex_receipt_text \<noteq> None" "newID ex_rnd = Inr (ID x)" by (rule ex_disk_held)
  have q: "sound q" "durable file_holds q d" "\<not> q_closed q" "q_name q = ''q''" using h(1) by (auto simp: mgr_ok_def)
  have inv: "queue_inv q" using q(1) by (simp add: sound_def)
  obtain a where a: "map_of (q_inflight q) ex_receipt_text = Some a" using h(5) by auto
  have "core (q_store q a) \<in># view q Expiry" by (rule take_inflight [OF inv a])
  then have "core (q_store q a) = x" using h(2) by simp
  then have "ID (q_store q a) = ID x" by auto
  moreover have "newID ex_rnd = Inr ''07070707-0707-4707-8707-070707070707''" by code_simp
  moreover have "encodable (RAck \<lparr>a_ID = ''07070707-0707-4707-8707-070707070707''\<rparr>)" by (rule encodable_small) (code_simp, simp)
  ultimately have enc: "encodable (RAck \<lparr>a_ID = ID (q_store q a)\<rparr>)" using h(6) by simp
  obtain f where lf: "l_f (q_log q) = Some f" "l_broken (q_log q) = None"
    using q(2) by (auto simp: durable_def file_holds_def log_holds_def split: option.splits)
  obtain l d1 where app: "Log_Append (RAck \<lparr>a_ID = ID (q_store q a)\<rparr>) (q_log q) d = (None, l, d1)" by (rule Log_Append_reliable [OF h(3) enc lf])
  obtain hs where rm: "remove Expiry (m_index (q_store q a)) (q\<lparr>q_log := l, q_inflight := map_delete ex_receipt_text (q_inflight q)\<rparr>)
      = Some (a, set_heap Expiry hs (q\<lparr>q_log := l, q_inflight := map_delete ex_receipt_text (q_inflight q)\<rparr>))"
    by (rule take_inflight [OF inv a, of l]) simp
  obtain q' where ack: "Queue_Ack storage_log ex_receipt_text q d = Some (None, q', d1)" and l: "q_log q' = l"
    using q(3) a app rm h(4) by (auto simp: Queue_Ack_def storage_log_def maybeCompact_def)
  obtain rs where "file_holds (q_name q) rs (q_log q) d" using q(2) by (auto simp: durable_def)
  then have "file_holds (q_name q) (rs @ [RAck \<lparr>a_ID = ID (q_store q a)\<rparr>]) l d1" by (rule file_log.append_ok) (simp add: storage_log_def app)
  then have "file_healthy (q_log q') d1" unfolding l by (rule file_log.holds_healthy)
  then show ?thesis by (rule that [OF h(1,2) ack])
qed

theorem acknowledged_message_stays_gone_witness:
  "\<exists>m d q m' d' r f m2 d3 q2 x. mgr_ok m d \<and> map_of (m_queues m) ''q'' = Some q \<and> x \<in># view q Expiry
     \<and> serve None ex_env (req_ack ''q'' ex_ack_body) m d = Some (Reply r, m', d') \<and> rs_status r = StatusOK
     \<and> NewManager 0 (\<lambda>_. 9) (\<lambda>_. []) (ex_crash f d') = Some (Inr m2, d3)
     \<and> map_of (m_queues m2) ''q'' = Some q2 \<and> (\<forall>y \<in># all_live q2. ID y \<noteq> ID x)"
proof -
  obtain q q' d d' x where h: "mgr_ok (ex_mgr\<lparr>m_queues := [(''q'', q)]\<rparr>) d"
    "Queue_Ack storage_log ex_receipt_text q d = Some (None, q', d')" "file_healthy (q_log q') d'" by (rule ex_acked)
  let ?m = "ex_mgr\<lparr>m_queues := [(''q'', q)]\<rparr>" and ?n = "ex_mgr\<lparr>m_queues := [(''q'', q')]\<rparr>"
    and ?r = "writeJSON StatusOK (PFields [(''status'', ''acked'')])"
  have s: "serve None ex_env (req_ack ''q'' ex_ack_body) ?m d = Some (Reply ?r, ?n, d')"
    using h(2) by (simp add: serve_ack h_ack_def Manager_Get_def ex_ack_args put_queue_def)
  have a: "admissible ex_env (req_ack ''q'' ex_ack_body) ?m"
    by (auto simp: admissible_def req_ack_def route_def routes_def meth_matches_def ex_ack_args ex_env_def int64_def toMillis_def)
  have hl: "all_healthy ?n d'" using h(3) by (simp add: all_healthy_def)
  obtain f where f: "crashed_dir ?n d' (\<lambda>_. [0, 0, 0]) (ex_crash f d')" by (rule ex_crash_ok [OF served_ok [OF h(1) a s hl]]) simp_all
  have "\<exists>receipt x m2 d3 q2. ack_args ex_ack_body = Inr receipt \<and> x \<in># view q Expiry \<and> Receipt x = receipt
    \<and> NewManager 0 (\<lambda>_. 9) (\<lambda>_. []) (ex_crash f d') = Some (Inr m2, d3) \<and> map_of (m_queues m2) ''q'' = Some q2
    \<and> (\<forall>y \<in># all_live q2. ID y \<noteq> ID x)"
    by (rule acknowledged_message_stays_gone [OF h(1) a _ s _ hl f]) (simp_all add: writeJSON_def)
  moreover have "rs_status ?r = StatusOK" by (simp add: writeJSON_def)
  moreover have "map_of (m_queues ?m) ''q'' = Some q" by simp
  ultimately show ?thesis using h(1) s by blast
qed

section \<open>Refusals and answers\<close>

text \<open>C18: a request that is answered with a status from 400 to 499 has no effect, whatever it asks for and
  whatever fails: malformed or oversized bodies, invalid names and durations, unknown queues, receipts,
  paths and methods, and queues that exist leave the registry and every file as they were.\<close>

theorem refused_requests_change_nothing:
  assumes "mgr_ok m d" "serve web env req m d = Some (Reply r, m', d')" "400 \<le> rs_status r" "rs_status r < 500"
  shows "m' = m \<and> same_files d d'"
  by (rule serve_refused [OF assms])

theorem refused_requests_change_nothing_witness:
  "\<exists>m d r m' d'. mgr_runs ex_mgr ex_dir m d
     \<and> serve None ex_env (req_send ''q'' ''{}'') m d = Some (Reply r, m', d') \<and> rs_status r = StatusBadRequest \<and> m' = m \<and> same_files d d'"
proof -
  obtain m d q where r: "mgr_runs ex_mgr ex_dir m d" "m_queues m = [(''q'', q)]" "mgr_ok m d" by (rule ex_mgr_run)
  have len: "length ''{}'' \<le> MaxRecordSize" by (simp add: MaxRecordSize_def)
  have "decode_text send_field [''body'', ''priority'', ''delay_seconds'']
      \<lparr>sd_Body = '''', sd_Priority = None, sd_DelaySeconds = None\<rparr> ''{}''
    = Inr \<lparr>sd_Body = '''', sd_Priority = None, sd_DelaySeconds = None\<rparr>" by code_simp
  then have "send_args ''{}'' = Inl (writeError StatusBadRequest ''body is required'')"
    unfolding send_args_def decodeBody_def Decode_small [OF len] by simp
  then have s: "serve None ex_env (req_send ''q'' ''{}'') m d = Some (Reply (writeError StatusBadRequest ''body is required''), m, d)"
    using r(2) by (simp add: serve_send h_sendMessage_def Manager_Get_def)
  have st: "rs_status (writeError StatusBadRequest ''body is required'') = StatusBadRequest" by (simp add: refused_status)
  have "m = m \<and> same_files d d" by (rule refused_requests_change_nothing [OF r(3) s]) (simp_all add: st)
  then show ?thesis using st r(1) s by blast
qed

text \<open>C19: the server never panics, and it keeps its invariant: every request is answered, dropped because
  its client has gone, or parked as a long poll, and unless a log is lost on the way every registered
  queue remains well formed and recoverable from its file. The conditions concern only the clock, the
  random bytes and the sequence number; whatever a body contains is covered.\<close>

theorem every_request_is_served:
  assumes "mgr_ok m d" "admissible env req m"
  shows "\<exists>reply m' d'. serve web env req m d = Some (reply, m', d') \<and> (all_healthy m' d' \<longrightarrow> mgr_ok m' d')"
  by (rule serve_ok [OF assms])

theorem every_request_is_served_witness:
  "\<exists>m d reply m' d'. mgr_runs ex_mgr ex_dir m d \<and> map_of (m_queues m) ''q'' \<noteq> None
     \<and> serve None ex_env (req_ack ''q'' ex_ack_body) m d = Some (reply, m', d')"
proof -
  obtain m d q where r: "mgr_runs ex_mgr ex_dir m d" "m_queues m = [(''q'', q)]" "mgr_ok m d" by (rule ex_mgr_run)
  have a: "admissible ex_env (req_ack ''q'' ex_ack_body) m"
    by (auto simp: admissible_def req_ack_def route_def routes_def meth_matches_def ex_ack_args ex_env_def int64_def toMillis_def)
  obtain reply m' d' where "serve None ex_env (req_ack ''q'' ex_ack_body) m d = Some (reply, m', d')"
    using every_request_is_served [OF r(3) a, of None] by blast
  moreover have "map_of (m_queues m) ''q'' \<noteq> None" using r(2) by simp
  ultimately show ?thesis using r(1) by blast
qed



section \<open>Durations\<close>

lemma duration_mult_exact:
  assumes "0 \<le> n" "n \<le> 9223372036"
  shows "duration_mult n Second = n * Second"
proof -
  have "n * Second < 2 ^ 63" using assms by (simp add: Second_def)
  moreover have "0 \<le> n * Second" using assms(1) by (simp add: Second_def)
  moreover have eq: "word_of_int n * word_of_int Second = (word_of_int (n * Second) :: 64 word)" by simp
  ultimately show ?thesis unfolding duration_mult_def eq sint_sbintrunc' by (intro signed_take_bit_int_eq_self) simp_all
qed

text \<open>C33: as long as the product fits in 63 bits (up to 9223372036 seconds, 292 years), a duration field is
  accepted exactly if it is absent or lies between zero and its maximum, and then it is converted exactly.\<close>

theorem seconds_are_checked_and_exact:
  assumes "\<forall>n. v = Some n \<longrightarrow> n \<le> 9223372036"
  shows "seconds v def mx field = Inr x \<longleftrightarrow>
    (case v of None \<Rightarrow> x = def | Some n \<Rightarrow> 0 \<le> n \<and> n * Second \<le> mx \<and> x = n * Second)"
  using assms duration_mult_exact by (cases v) (auto simp: seconds_def Let_def)

theorem seconds_are_checked_and_exact_witness:
  "seconds (Some 604800) 0 maxDelay ''delay_seconds'' = Inr maxDelay \<and> (\<forall>x. seconds (Some 604801) 0 maxDelay ''delay_seconds'' \<noteq> Inr x)"
  using seconds_are_checked_and_exact [of "Some 604800" 0 maxDelay "''delay_seconds''" maxDelay]
    seconds_are_checked_and_exact [of "Some 604801" 0 maxDelay "''delay_seconds''"]
  by (simp add: maxDelay_def Second_def)


end
