(* ===== verification/Server.thy ===== *)
theory Server
  imports Api_Props
begin

text \<open>
  \<open>cmd/server/main.go\<close>: one life of the process, from recovery to shutdown. The requests of that life are served
  one after the other (\<open>Registry_System\<close> has them at the same time); \<open>listenFailed\<close> tells whether the listener has failed (otherwise a signal ended the
  process). Flags, addresses and log lines are left out.
\<close>

datatype exit_status = Exited | Fatal

fun serve_all :: "(string list \<Rightarrow> response) option \<Rightarrow> (env \<times> request) list \<Rightarrow> Manager \<Rightarrow> disk \<Rightarrow> (reply list \<times> Manager \<times> disk) option" where
  "serve_all web [] m d = Some ([], m, d)"
| "serve_all web ((env, req) # reqs) m d =
     (case serve web env req m d of
        None \<Rightarrow> None
      | Some (r, m1, d1) \<Rightarrow> map_option (\<lambda>(rs, m2, d2). (r # rs, m2, d2)) (serve_all web reqs m1 d1))"

definition main ::
  "int \<Rightarrow> (string \<Rightarrow> Time) \<Rightarrow> (string \<Rightarrow> Time list) \<Rightarrow> (string list \<Rightarrow> response) option \<Rightarrow> (env \<times> request) list \<Rightarrow> bool
    \<Rightarrow> (string \<Rightarrow> Time list) \<Rightarrow> disk \<Rightarrow> (exit_status \<times> reply list \<times> disk) option" where
  "main compactThreshold now ts web reqs listenFailed ts' d =
     (if compactThreshold < 1 then Some (Fatal, [], d)
      else case NewManager compactThreshold now ts d of
        None \<Rightarrow> None
      | Some (Inl _, d1) \<Rightarrow> Some (Fatal, [], d1)
      | Some (Inr queues, d1) \<Rightarrow>
          (case serve_all web reqs queues d1 of
             None \<Rightarrow> None
           | Some (rs, queues', d2) \<Rightarrow>
               (case Manager_Close ts' queues' d2 of
                  None \<Rightarrow> None
                | Some (_, _, d3) \<Rightarrow> Some (if listenFailed then Fatal else Exited, rs, d3))))"

section \<open>Sequences of requests\<close>

text \<open>Every request of the sequence meets an admissible clock and fresh random bytes, and no log is lost.\<close>

fun admissible_all :: "(string list \<Rightarrow> response) option \<Rightarrow> (env \<times> request) list \<Rightarrow> Manager \<Rightarrow> disk \<Rightarrow> bool" where
  "admissible_all web [] m d \<longleftrightarrow> True"
| "admissible_all web ((env, req) # reqs) m d \<longleftrightarrow> admissible env req m
     \<and> (case serve web env req m d of None \<Rightarrow> True | Some (_, m1, d1) \<Rightarrow> all_healthy m1 d1 \<and> admissible_all web reqs m1 d1)"

lemma serve_all_ok:
  "mgr_ok m d \<Longrightarrow> admissible_all web reqs m d
   \<Longrightarrow> \<exists>rs m' d'. serve_all web reqs m d = Some (rs, m', d') \<and> length rs = length reqs \<and> mgr_ok m' d'"
proof (induction reqs arbitrary: m d)
  case (Cons a reqs)
  obtain env req where a: "a = (env, req)" by force
  obtain r m1 d1 where s: "serve web env req m d = Some (r, m1, d1)" "all_healthy m1 d1 \<longrightarrow> mgr_ok m1 d1"
    using serve_ok [OF Cons.prems(1), of env req web] Cons.prems(2) a by auto
  then have n: "mgr_ok m1 d1" "admissible_all web reqs m1 d1" using Cons.prems(2) a by auto
  obtain rs m' d' where "serve_all web reqs m1 d1 = Some (rs, m', d')" "length rs = length reqs" "mgr_ok m' d'"
    using Cons.IH [OF n] by blast
  then show ?case using s(1) a by auto
qed simp

end
