(* ===== verification/Spec2Isabelle.thy ===== *)
theory Spec2Isabelle
  imports System_Props Registry_Props
begin

text \<open>
  Queuemaxxing is a durable message queue server: named queues with priorities, delayed delivery,
  visibility timeouts and long polling, one append-only log file per queue, an HTTP interface. This
  development models the Go sources under \<open>src/internal\<close> and \<open>src/cmd\<close> and proves that the parts, and their composition,
  do what they are meant to do, in the presence of failing file-system calls, crashes, and every
  interleaving of the goroutines of a queue.

  \<^bold>\<open>Parts of the program and theories.\<close>

  \<^item> Foundations. \<open>QMX_Prelude\<close>: error values, collections of facts, lists and maps. \<open>Wire_Bytes\<close>: big-endian
    integers and CRC-32C. \<open>Json\<close>, \<open>Json_Struct\<close>: what the program uses of \<open>encoding/json\<close> (scanning, compaction,
    HTML escaping, quoting, struct fields with case folding, integers). \<open>Json_Prefix\<close>: the parser depends only on
    the text it consumes and needs no more fuel than its length; the raw text of a member is itself a document.
    \<open>Disk\<close>: a directory of files with synced and unsynced content and a list of faults, from which every
    file-system call takes its outcome; a crash keeps what was synced.

  \<^item> \<open>internal/storage\<close>. \<open>Frames\<close> (\<open>record.go\<close>): record types, JSON payloads, frames, file header. \<open>Storage_Log\<close>
    (\<open>log.go\<close>): \<open>Create\<close>, \<open>Append\<close> with rollback, \<open>Close\<close>, \<open>Remove\<close>, \<open>ListLogs\<close>, \<open>CleanTemps\<close>. \<open>Storage_Recovery\<close>
    (\<open>recovery.go\<close>): the scanner, the classification of damage, \<open>Open\<close>. \<open>Storage_Compaction\<close> (\<open>compaction.go\<close>): the
    rewrite through a temporary file. \<open>Disk_Frame\<close>: an operation on one log touches no other file.
    \<open>Storage_Props\<close>: the properties of the layer.

  \<^item> \<open>internal/queue\<close>, data. \<open>Message\<close> (\<open>message.go\<close>): messages, states, identifiers, milliseconds. \<open>Msg_Heap\<close>
    (\<open>ready_heap.go\<close>, \<open>delayed_heap.go\<close>, \<open>expiry_heap.go\<close>): \<open>container/heap\<close> over addresses in an explicit store, with
    the index field every swap maintains; the locale of comparators has the three heaps as interpretations.

  \<^item> \<open>internal/queue\<close>, one queue. \<open>Queue_Model\<close> (\<open>queue.go\<close>, \<open>compaction.go\<close>, \<open>processDue\<close> of \<open>scheduler.go\<close>): the struct as
    a record, every method as a function from state to state; the log behind the interface \<open>logStore\<close> is a
    record of functions. \<open>Queue_Inv\<close>, \<open>Queue_Due\<close>: the invariant and the effect of every operation on the three
    multisets of messages. \<open>Log_Store\<close>: the contract of a log as a locale, with the file log and the
    in-memory log of the tests as interpretations. \<open>Queue_Durable\<close>, \<open>Queue_Restart\<close>, \<open>Queue_Life\<close>: the log
    determines the queue; creation, crash, recovery and shutdown. \<open>Queue_Run\<close>: an abstract specification on
    multisets, the refinement, sequences of operations. \<open>Queue_Props\<close>: the properties.

  \<^item> \<open>internal/queue\<close>, goroutines. \<open>Queue_Signals\<close>: what each critical section does to the channels and the
    condition variable. \<open>Queue_System\<close> (\<open>runScheduler\<close>, \<open>stopTimer\<close>, \<open>Receive\<close>, \<open>Close\<close>): a step relation whose steps
    are critical sections, channel and timer events; reachable states and their invariant. \<open>System_Props\<close>: no
    oversleeping, no lost wake-up, progress, termination of \<open>Close\<close>.

  \<^item> \<open>internal/queue/manager.go\<close>. \<open>Manager_Model\<close>: the registry and its operations, the invariant. \<open>Manager_Start\<close>:
    \<open>NewManager\<close> on what a crash leaves behind. \<open>Manager_Run\<close>: sequences of operations, shutdown, listing.
    \<open>Manager_Props\<close>: the properties.

  \<^item> \<open>internal/api\<close>. \<open>Api_Json\<close>: \<open>decodeBody\<close> with the decoder's scanner and the size limit, the request structs,
    \<open>seconds\<close>. \<open>Api_Model\<close>: the handlers and the routing table. \<open>Api_Inv\<close>: refusals have no effect, every request
    is served, what reaches the engine can be logged. \<open>Api_Props\<close>: the properties, end to end from a status
    code to the state after a restart.

  \<^item> Concurrent requests. \<open>Registry_System\<close> (\<open>manager.go\<close> and \<open>handlers.go\<close> once more): every request is a goroutine that
    looks a queue up under the registry's lock, keeps the pointer and works on the queue later; a step
    relation whose steps are critical sections, with \<open>Delete\<close> and \<open>Manager.Close\<close> cut where they release the queue's
    lock; the locale of properties that survive changes to the files of other queues, and the invariant.
    \<open>Registry_Life\<close>: queues that have left, the sequential view, release of the lock. \<open>Registry_Props\<close>: the properties.

  \<^item> \<open>cmd/server/main.go\<close>. \<open>Server\<close>: one life of the process, recovery, a sequence of requests, shutdown. The
    properties that span all components, \<open>server_life_loses_nothing\<close> and \<open>concurrent_life_loses_nothing\<close>, stand at the
    end of this theory.

  \<^bold>\<open>How the code is represented.\<close> Times and durations are integers (nanoseconds); 64-bit sequence numbers
  and counters are words and wrap around, and so does the product in \<open>seconds\<close>. Pointers to messages are
  addresses into a store in the queue's record, so that the heaps, the receipt map and the index fields share
  messages as in the code. A Go error is a value of \<open>goerror\<close>; wrapping with context text is left out, since
  the code compares with \<open>errors.Is\<close>. A run-time panic is \<open>None\<close>, and the theorems show that it does not occur.
  Readings of the clock and random bytes are arguments. Locks appear as the atomicity of steps: a method is
  one step per critical section, also where sections of different queues overlap in time: they work on
  different files. A map is an association list; iteration follows the list.

  \<^bold>\<open>What is shown.\<close> Storage: appends and compactions are all or nothing, recovery returns exactly the
  acknowledged records and drops a torn tail, a changed byte is refused. One queue: refinement of the
  specification, the invariant, delivery order, expiry, counters, durability through crashes and
  shutdown. Goroutines: the scheduler wakes in time, receivers are woken, shutdown ends. Registry: every
  queue comes back after a crash, creation never overwrites, deletion is durable, listing is canonical.
  Concurrency: queues are durable at every moment of every interleaving, deleted queues refuse requests
  that still hold them, shutdown loses nothing although requests go on, the lock is released.
  HTTP: accepted messages survive and acknowledged ones stay gone, refused requests have no effect, no
  request panics. Five defects are stated as theorems about the code as it is: \<open>seconds_overflow\<close>, \<open>failed_delete_strands_queue\<close>,
  \<open>compaction_sync_failure_loses_appends\<close>, \<open>damaged_length_cuts_acknowledged_records\<close> and
  \<open>read_error_cuts_acknowledged_records\<close>. The durability theorems therefore assume that no compaction has lost its
  log (\<open>file_healthy\<close>) and start recovery on a disk without read errors (\<open>reliable\<close>).

  \<^bold>\<open>Bounds and fuel.\<close> The JSON parser takes fuel; \<open>parse_json\<close> passes one more than the length of the text,
  which \<open>Json_Prefix\<close> shows to be enough. The loops of \<open>processDue\<close> take the size of the heap they empty;
  \<open>scheduler_pass_is_complete\<close> shows that nothing due remains. The scan of a log, \<open>restIsZero\<close> and the string functions recurse on the
  remaining input with a termination proof.

  \<^bold>\<open>Not modelled.\<close> In \<open>main.go\<close>, the parsing of flags, the listener, signals and log lines. \<open>web.go\<close> and the user interface: static files; the file server is an argument of \<open>serve\<close>. The
  text of error messages, of encoded responses and of log lines. Case folding of field names is that of
  ASCII. The later rounds of a long poll run in the systems of \<open>Queue_System\<close> and \<open>Registry_System\<close>, not in
  \<open>serve\<close>.
\<close>

section \<open>The whole server\<close>

definition ex_list :: request where
  "ex_list = \<lparr>rq_method = GET, rq_path = [''queues''], rq_body = ''''\<rparr>"



text \<open>C2: one life of the server with concurrent requests loses nothing. On a data directory as a power failure left
  it, start-up brings back every queue with its unacknowledged messages; then requests run in any
  interleaving, also while the server shuts down; when the shutdown has closed all queues, the file of each
  queue that was registered when it began opens with exactly the unacknowledged messages, counters and
  configuration the queue had at the end.\<close>

theorem concurrent_life_loses_nothing:
  assumes "mgr_ok m0 d0" "crashed_dir m0 d0 tails d"
  shows "\<exists>m d1. NewManager thr now ts d = Some (Inr m, d1) \<and> fst ` set (m_queues m) = fst ` set (m_queues m0)
    \<and> (\<forall>n q. map_of (m_queues m) n = Some q \<longrightarrow> brought_back now m0 n q)
    \<and> (\<forall>s s' n a. reg_runs (reg_init m d1) s \<longrightarrow> rg_lock s = Shutting \<longrightarrow> (n, a) \<in> set (rg_queues s) \<longrightarrow> reg_runs s s' \<longrightarrow> rg_queues s' = []
         \<longrightarrow> (\<exists>q2 d2. openQueue n thr' now' ((rg_disk s')\<lparr>faults := []\<rparr>) = (Inr q2, d2) \<and> restored now' (rg_store s' a) q2))"
proof -
  obtain m d1 where n: "NewManager thr now ts d = Some (Inr m, d1)" "mgr_ok m d1" "fst ` set (m_queues m) = fst ` set (m_queues m0)"
      "\<forall>n q. map_of (m_queues m) n = Some q \<longrightarrow> brought_back now m0 n q"
    using NewManager_restores [OF assms, of thr now ts] by blast
  have "\<exists>q2 d2. openQueue k thr' now' ((rg_disk s')\<lparr>faults := []\<rparr>) = (Inr q2, d2) \<and> restored now' (rg_store s' a) q2"
    if "reg_runs (reg_init m d1) s" "rg_lock s = Shutting" "(k, a) \<in> set (rg_queues s)" "reg_runs s s'" "rg_queues s' = []" for s s' k a
    by (rule shutdown_during_requests [OF n(2) that])
  then show ?thesis by (intro exI [of _ m] exI [of _ d1] conjI allI impI n(1,3) n(4) [rule_format])
qed

theorem concurrent_life_loses_nothing_witness:
  "\<exists>m0 d0 f m d1 q2 d2. mgr_runs ex_mgr ex_dir m0 d0 \<and> NewManager 10000 (\<lambda>_. 9) (\<lambda>_. []) (ex_crash f d0) = Some (Inr m, d1)
     \<and> openQueue ''q'' 0 9 ((rg_disk (ex_shut_down m d1))\<lparr>faults := []\<rparr>) = (Inr q2, d2) \<and> restored 9 (rg_store (ex_shut_down m d1) 0) q2"
proof -
  obtain m0 d0 q where r: "mgr_runs ex_mgr ex_dir m0 d0" "m_queues m0 = [(''q'', q)]" "mgr_ok m0 d0" by (rule ex_mgr_run)
  obtain f where f: "crashed_dir m0 d0 (\<lambda>_. [0, 0, 0]) (ex_crash f d0)" by (rule ex_crash_ok [OF r(3,2)])
  from concurrent_life_loses_nothing [OF r(3) f, of 10000 "\<lambda>_. 9" "\<lambda>_. []" 0 9] show ?thesis
  proof (elim exE conjE)
    fix m d1
    assume n: "NewManager 10000 (\<lambda>_. 9) (\<lambda>_. []) (ex_crash f d0) = Some (Inr m, d1)" "fst ` set (m_queues m) = fst ` set (m_queues m0)"
      and life: "\<forall>s s' n a. reg_runs (reg_init m d1) s \<longrightarrow> rg_lock s = Shutting \<longrightarrow> (n, a) \<in> set (rg_queues s) \<longrightarrow> reg_runs s s' \<longrightarrow> rg_queues s' = []
        \<longrightarrow> (\<exists>q2 d2. openQueue n 0 9 ((rg_disk s')\<lparr>faults := []\<rparr>) = (Inr q2, d2) \<and> restored 9 (rg_store s' a) q2)"
    have ok: "mgr_ok m d1" using NewManager_restores [OF r(3) f, of 10000 "\<lambda>_. 9" "\<lambda>_. []"] n(1) by auto
    obtain q' where m: "m_queues m = [(''q'', q')]" by (rule one_queue [OF ok]) (use n(2) r(2) in auto)
    have "\<not> q_closed q'" using ok m by (auto simp: mgr_ok_def)
    note x = ex_shut [OF m this, of d1]
    have "(''q'', 0) \<in> set (rg_queues (ex_shut m d1))" using x(3) by simp
    note life [rule_format, OF x(1,2) this x(4,5)]
    then show ?thesis using r(1) n(1) by (elim exE conjE) (intro exI conjI, assumption+)
  qed
qed

end
